(* ===== verification/Prelude.thy ===== *)
theory Prelude
  imports Main "HOL-Library.Word"
begin

text \<open>
  The types and the automation every component shares: bytes and the fixed-width
  unsigned integers, the result type \<open>status\<close> of RocksDB's operations
  (\<^verbatim>\<open>include/rocksdb/status.h\<close>), the collections of rewrite rules the component
  theories fill, and generic lemmas on words, lists and slices.
\<close>

unbundle bit_operations_syntax

section \<open>Types\<close>

type_synonym byte = "8 word"
type_synonym bytes = "8 word list"
type_synonym u16 = "16 word"
type_synonym u32 = "32 word"
type_synonym u64 = "64 word"

text \<open>
  A \<^verbatim>\<open>Slice\<close> (pointer and length) and a \<^verbatim>\<open>std::string\<close> are both the list of their
  bytes: the code modelled here never compares their addresses.
\<close>

type_synonym slice = bytes

section \<open>Status\<close>

datatype code =
    KOk | KNotFound | KCorruption | KNotSupported | KInvalidArgument | KIOError
  | KMergeInProgress | KIncomplete | KShutdownInProgress | KTimedOut | KAborted
  | KBusy | KExpired | KTryAgain | KCompactionTooLarge

datatype subcode =
    KNone | KMutexTimeout | KLockTimeout | KLockLimit | KNoSpace | KDeadlock
  | KStaleFile | KMemoryLimit | KSpaceLimit

record status =
  st_code :: code
  st_subcode :: subcode
  st_msg :: string

definition Status_OK :: status where
  "Status_OK = \<lparr>st_code = KOk, st_subcode = KNone, st_msg = []\<rparr>"

definition NotFound :: "string \<Rightarrow> status" where
  "NotFound m = \<lparr>st_code = KNotFound, st_subcode = KNone, st_msg = m\<rparr>"

definition Corruption :: "string \<Rightarrow> status" where
  "Corruption m = \<lparr>st_code = KCorruption, st_subcode = KNone, st_msg = m\<rparr>"

definition NotSupported :: "string \<Rightarrow> status" where
  "NotSupported m = \<lparr>st_code = KNotSupported, st_subcode = KNone, st_msg = m\<rparr>"

definition InvalidArgument :: "string \<Rightarrow> status" where
  "InvalidArgument m = \<lparr>st_code = KInvalidArgument, st_subcode = KNone, st_msg = m\<rparr>"

definition IOError :: "string \<Rightarrow> status" where
  "IOError m = \<lparr>st_code = KIOError, st_subcode = KNone, st_msg = m\<rparr>"

definition MemoryLimit :: status where
  "MemoryLimit = \<lparr>st_code = KAborted, st_subcode = KMemoryLimit, st_msg = []\<rparr>"

definition ok :: "status \<Rightarrow> bool" where
  "ok s \<longleftrightarrow> st_code s = KOk"

definition IsNotFound :: "status \<Rightarrow> bool" where
  "IsNotFound s \<longleftrightarrow> st_code s = KNotFound"

definition IsTryAgain :: "status \<Rightarrow> bool" where
  "IsTryAgain s \<longleftrightarrow> st_code s = KTryAgain"

named_theorems status_simps \<open>evaluation of status values and of the tests on them\<close>
named_theorems bytes_simps \<open>lengths and concatenations of encodings\<close>

declare Status_OK_def [status_simps] NotFound_def [status_simps] Corruption_def [status_simps]
  NotSupported_def [status_simps] InvalidArgument_def [status_simps] IOError_def [status_simps]
  MemoryLimit_def [status_simps] ok_def [status_simps] IsNotFound_def [status_simps]
  IsTryAgain_def [status_simps]

lemma ok_OK [simp]: "ok Status_OK"
  by (simp add: status_simps)

lemma not_ok_errors [simp]:
  "\<not> ok (Corruption m)" "\<not> ok (NotFound m)" "\<not> ok (NotSupported m)"
  "\<not> ok (InvalidArgument m)" "\<not> ok (IOError m)" "\<not> ok MemoryLimit"
  by (simp_all add: status_simps)

lemma TryAgain_not_ok: "IsTryAgain s \<Longrightarrow> \<not> ok s"
  by (simp add: status_simps)

lemma not_TryAgain [simp]:
  "\<not> IsTryAgain Status_OK" "\<not> IsTryAgain (NotSupported m)" "\<not> IsTryAgain (Corruption m)"
  by (simp_all add: status_simps)

section \<open>Words\<close>

lemma ucast_byte_id [simp]: "(ucast (b :: byte) :: byte) = b"
  by simp

lemma of_nat_take_drop_bit:
  "(word_of_nat n :: 'a :: len word) =
    word_of_nat (take_bit m n) OR push_bit m (word_of_nat (drop_bit m n))"
  by (rule bit_word_eqI) (auto simp: bit_simps)

lemma unat_bound_8: "unat (v :: byte) < 256"
  using unsigned_less [of v] by simp

lemma unat_bound_16: "unat (v :: u16) < 65536"
  using unsigned_less [of v] by simp

lemma unat_bound_32: "unat (v :: u32) < 4294967296"
  using unsigned_less [of v] by simp

lemma unat_bound_64: "unat (v :: u64) < 18446744073709551616"
  using unsigned_less [of v] by simp

section \<open>Lists\<close>

lemma take_append_length [simp]: "length a = n \<Longrightarrow> take n (a @ b) = a"
  by simp

lemma drop_append_length [simp]: "length a = n \<Longrightarrow> drop n (a @ b) = b"
  by simp

lemma sum_list_update_nat:
  fixes xs :: "nat list"
  assumes "i < length xs"
  shows "sum_list (xs[i := v]) + xs ! i = sum_list xs + v"
  using assms
proof (induction xs arbitrary: i)
  case Nil
  then show ?case by simp
next
  case (Cons x xs)
  then show ?case by (cases i) auto
qed

lemma distinct_map_update:
  assumes "distinct (map f xs)" and "f v \<notin> f ` set xs"
  shows "distinct (map f (xs[i := v]))"
proof (cases "i < length xs")
  case True
  with assms show ?thesis by (simp add: map_update distinct_list_update)
next
  case False
  with assms show ?thesis by (simp add: list_update_beyond)
qed

section \<open>Decimal numbers\<close>

text \<open>The digits of a number, as \<^verbatim>\<open>std::to_string\<close> and \<^verbatim>\<open>%llu\<close> print them.\<close>

definition digit_char :: "nat \<Rightarrow> char" where
  "digit_char d = char_of (48 + d)"

fun decimal :: "nat \<Rightarrow> string" where
  "decimal n = (if n < 10 then [digit_char n] else decimal (n div 10) @ [digit_char (n mod 10)])"

declare decimal.simps [simp del]

end
