(* ===== verification/Coding.thy ===== *)
theory Coding
  imports Prelude
begin

text \<open>
  The integer and string encodings of \<^verbatim>\<open>util/coding.h\<close> and \<^verbatim>\<open>util/coding.cc\<close>.
  A \<^verbatim>\<open>Put...\<close> routine appends to a byte list, a \<^verbatim>\<open>Get...\<close> routine takes a value off the
  front of one and returns what is left, and \<open>None\<close> is the code's \<^verbatim>\<open>false\<close> or
  \<^verbatim>\<open>nullptr\<close>. The interface the clients rely on is the locale \<open>codec\<close>: decoding what
  was encoded gives the value back and leaves the rest of the input.
\<close>

section \<open>Fixed-width integers\<close>

text \<open>
  Both branches of the \<^verbatim>\<open>port::kLittleEndian\<close> test produce the bytes least significant
  first: the \<^verbatim>\<open>memcpy\<close> of a little-endian machine lays out what the shifts spell out.
\<close>

definition EncodeFixed16 :: "u16 \<Rightarrow> bytes" where
  "EncodeFixed16 v = [ucast (v AND 0xff), ucast (drop_bit 8 v AND 0xff)]"

definition EncodeFixed32 :: "u32 \<Rightarrow> bytes" where
  "EncodeFixed32 v =
    [ucast (v AND 0xff), ucast (drop_bit 8 v AND 0xff),
     ucast (drop_bit 16 v AND 0xff), ucast (drop_bit 24 v AND 0xff)]"

definition EncodeFixed64 :: "u64 \<Rightarrow> bytes" where
  "EncodeFixed64 v =
    [ucast (v AND 0xff), ucast (drop_bit 8 v AND 0xff),
     ucast (drop_bit 16 v AND 0xff), ucast (drop_bit 24 v AND 0xff),
     ucast (drop_bit 32 v AND 0xff), ucast (drop_bit 40 v AND 0xff),
     ucast (drop_bit 48 v AND 0xff), ucast (drop_bit 56 v AND 0xff)]"

text \<open>
  The decoders read the bytes at a pointer without a bounds check. The model reads the
  front of a list; every caller below has tested that the list is long enough.
\<close>

definition DecodeFixed16 :: "bytes \<Rightarrow> u16" where
  "DecodeFixed16 p = ucast (p ! 0) OR push_bit 8 (ucast (p ! 1))"

definition DecodeFixed32 :: "bytes \<Rightarrow> u32" where
  "DecodeFixed32 p =
    ucast (p ! 0) OR push_bit 8 (ucast (p ! 1)) OR push_bit 16 (ucast (p ! 2))
      OR push_bit 24 (ucast (p ! 3))"

definition DecodeFixed64 :: "bytes \<Rightarrow> u64" where
  "DecodeFixed64 p =
    (let lo = ucast (DecodeFixed32 p); hi = ucast (DecodeFixed32 (drop 4 p))
     in push_bit 32 hi OR lo)"

definition PutFixed16 :: "bytes \<Rightarrow> u16 \<Rightarrow> bytes" where
  "PutFixed16 dst v = dst @ EncodeFixed16 v"

definition PutFixed32 :: "bytes \<Rightarrow> u32 \<Rightarrow> bytes" where
  "PutFixed32 dst v = dst @ EncodeFixed32 v"

definition PutFixed64 :: "bytes \<Rightarrow> u64 \<Rightarrow> bytes" where
  "PutFixed64 dst v = dst @ EncodeFixed64 v"

definition GetFixed16 :: "slice \<Rightarrow> (u16 \<times> slice) option" where
  "GetFixed16 inp =
    (if length inp < 2 then None else Some (DecodeFixed16 inp, drop 2 inp))"

definition GetFixed32 :: "slice \<Rightarrow> (u32 \<times> slice) option" where
  "GetFixed32 inp =
    (if length inp < 4 then None else Some (DecodeFixed32 inp, drop 4 inp))"

definition GetFixed64 :: "slice \<Rightarrow> (u64 \<times> slice) option" where
  "GetFixed64 inp =
    (if length inp < 8 then None else Some (DecodeFixed64 inp, drop 8 inp))"

section \<open>Varints\<close>

text \<open>
  \<^verbatim>\<open>EncodeVarint32\<close> is unrolled by length; each store truncates to a byte.
\<close>

definition EncodeVarint32 :: "u32 \<Rightarrow> bytes" where
  "EncodeVarint32 v =
    (if v < push_bit 7 1 then [ucast v]
     else if v < push_bit 14 1 then [ucast (v OR 128), ucast (drop_bit 7 v)]
     else if v < push_bit 21 1 then
       [ucast (v OR 128), ucast (drop_bit 7 v OR 128), ucast (drop_bit 14 v)]
     else if v < push_bit 28 1 then
       [ucast (v OR 128), ucast (drop_bit 7 v OR 128), ucast (drop_bit 14 v OR 128),
        ucast (drop_bit 21 v)]
     else
       [ucast (v OR 128), ucast (drop_bit 7 v OR 128), ucast (drop_bit 14 v OR 128),
        ucast (drop_bit 21 v OR 128), ucast (drop_bit 28 v)])"

lemma drop_bit_7_less: "128 \<le> v \<Longrightarrow> unat (drop_bit 7 v) < unat (v :: u64)"
proof -
  assume "128 \<le> v"
  then have "0 < unat v" by (simp add: word_le_nat_alt)
  then show ?thesis by (simp add: unat_div drop_bit_eq_div)
qed

function EncodeVarint64 :: "u64 \<Rightarrow> bytes" where
  "EncodeVarint64 v =
    (if v \<ge> 128 then ucast ((v AND 127) OR 128) # EncodeVarint64 (drop_bit 7 v)
     else [ucast v])"
  by pat_completeness auto
termination
  by (relation "measure unat") (auto simp: drop_bit_7_less)

function VarintLength_loop :: "u64 \<Rightarrow> nat \<Rightarrow> nat" where
  "VarintLength_loop v len = (if v \<ge> 128 then VarintLength_loop (drop_bit 7 v) (len + 1) else len)"
  by pat_completeness auto
termination
  by (relation "measure (\<lambda>(v, len). unat v)") (auto simp: drop_bit_7_less)

definition VarintLength :: "u64 \<Rightarrow> nat" where
  "VarintLength v = VarintLength_loop v 1"

declare EncodeVarint64.simps [simp del] VarintLength_loop.simps [simp del]

text \<open>
  The loop that \<^verbatim>\<open>GetVarint32PtrFallback\<close> and \<^verbatim>\<open>GetVarint64Ptr\<close> share, at the
  width and the last shift of each.
\<close>

fun varint_loop :: "nat \<Rightarrow> nat \<Rightarrow> 'a :: len word \<Rightarrow> bytes \<Rightarrow> ('a word \<times> bytes) option" where
  "varint_loop max_shift shift result [] = None"
| "varint_loop max_shift shift result (b # p) =
    (if shift \<le> max_shift then
       (if b AND 128 \<noteq> 0
        then varint_loop max_shift (shift + 7) (result OR push_bit shift (ucast b AND 127)) p
        else Some (result OR push_bit shift (ucast b), p))
     else None)"

definition GetVarint32PtrFallback :: "bytes \<Rightarrow> (u32 \<times> bytes) option" where
  "GetVarint32PtrFallback p = varint_loop 28 0 0 p"

definition GetVarint32Ptr :: "bytes \<Rightarrow> (u32 \<times> bytes) option" where
  "GetVarint32Ptr p =
    (case p of
       b # p' \<Rightarrow> if (ucast b :: u32) AND 128 = 0 then Some (ucast b, p')
                 else GetVarint32PtrFallback p
     | [] \<Rightarrow> GetVarint32PtrFallback p)"

definition GetVarint64Ptr :: "bytes \<Rightarrow> (u64 \<times> bytes) option" where
  "GetVarint64Ptr p = varint_loop 63 0 0 p"

definition GetVarint32 :: "slice \<Rightarrow> (u32 \<times> slice) option" where
  "GetVarint32 inp = (case GetVarint32Ptr inp of None \<Rightarrow> None | Some (v, q) \<Rightarrow> Some (v, q))"

definition GetVarint64 :: "slice \<Rightarrow> (u64 \<times> slice) option" where
  "GetVarint64 inp = (case GetVarint64Ptr inp of None \<Rightarrow> None | Some (v, q) \<Rightarrow> Some (v, q))"


section \<open>Zigzag\<close>

text \<open>
  \<^verbatim>\<open>l >> 63\<close> on a signed value shifts the sign in: \<open>signed_drop_bit\<close>.
\<close>

definition i64ToZigzag :: "u64 \<Rightarrow> u64" where
  "i64ToZigzag l = push_bit 1 l XOR signed_drop_bit 63 l"

definition zigzagToI64 :: "u64 \<Rightarrow> u64" where
  "zigzagToI64 n = drop_bit 1 n XOR - (n AND 1)"

definition PutVarsignedint64 :: "bytes \<Rightarrow> u64 \<Rightarrow> bytes" where
  "PutVarsignedint64 dst v = dst @ EncodeVarint64 (i64ToZigzag v)"

text \<open>The C++ stores \<^verbatim>\<open>zigzagToI64(0)\<close> in \<^verbatim>\<open>*value\<close> when the varint is bad.\<close>

definition GetVarsignedint64Ptr :: "bytes \<Rightarrow> u64 \<times> bytes option" where
  "GetVarsignedint64Ptr p =
    (case GetVarint64Ptr p of
       None \<Rightarrow> (zigzagToI64 0, None)
     | Some (u, q) \<Rightarrow> (zigzagToI64 u, Some q))"

section \<open>Strings\<close>

definition PutVarint32 :: "bytes \<Rightarrow> u32 \<Rightarrow> bytes" where
  "PutVarint32 dst v = dst @ EncodeVarint32 v"

definition PutVarint32Varint32 :: "bytes \<Rightarrow> u32 \<Rightarrow> u32 \<Rightarrow> bytes" where
  "PutVarint32Varint32 dst v1 v2 = dst @ EncodeVarint32 v1 @ EncodeVarint32 v2"

definition PutVarint32Varint32Varint32 :: "bytes \<Rightarrow> u32 \<Rightarrow> u32 \<Rightarrow> u32 \<Rightarrow> bytes" where
  "PutVarint32Varint32Varint32 dst v1 v2 v3 =
    dst @ EncodeVarint32 v1 @ EncodeVarint32 v2 @ EncodeVarint32 v3"

definition PutVarint64 :: "bytes \<Rightarrow> u64 \<Rightarrow> bytes" where
  "PutVarint64 dst v = dst @ EncodeVarint64 v"

definition PutVarint64Varint64 :: "bytes \<Rightarrow> u64 \<Rightarrow> u64 \<Rightarrow> bytes" where
  "PutVarint64Varint64 dst v1 v2 = dst @ EncodeVarint64 v1 @ EncodeVarint64 v2"

definition PutVarint32Varint64 :: "bytes \<Rightarrow> u32 \<Rightarrow> u64 \<Rightarrow> bytes" where
  "PutVarint32Varint64 dst v1 v2 = dst @ EncodeVarint32 v1 @ EncodeVarint64 v2"

definition PutVarint32Varint32Varint64 :: "bytes \<Rightarrow> u32 \<Rightarrow> u32 \<Rightarrow> u64 \<Rightarrow> bytes" where
  "PutVarint32Varint32Varint64 dst v1 v2 v3 =
    dst @ EncodeVarint32 v1 @ EncodeVarint32 v2 @ EncodeVarint64 v3"

text \<open>
  The length of the string is cast to 32 bits before it is written.
\<close>

definition PutLengthPrefixedSlice :: "bytes \<Rightarrow> slice \<Rightarrow> bytes" where
  "PutLengthPrefixedSlice dst v = PutVarint32 dst (word_of_nat (length v)) @ v"

definition PutLengthPrefixedSliceParts :: "bytes \<Rightarrow> slice list \<Rightarrow> bytes" where
  "PutLengthPrefixedSliceParts dst parts =
    (let total_bytes = foldl (\<lambda>n s. n + length s) 0 parts
     in foldl (@) (PutVarint32 dst (word_of_nat total_bytes)) parts)"

definition GetLengthPrefixedSlice :: "slice \<Rightarrow> (slice \<times> slice) option" where
  "GetLengthPrefixedSlice inp =
    (case GetVarint32 inp of
       Some (len, inp') \<Rightarrow>
         (if length inp' \<ge> unat len then Some (take (unat len) inp', drop (unat len) inp')
          else None)
     | None \<Rightarrow> None)"

fun GetSliceUntil_loop :: "slice \<Rightarrow> byte \<Rightarrow> nat" where
  "GetSliceUntil_loop [] delimiter = 0"
| "GetSliceUntil_loop (b # bs) delimiter =
    (if b \<noteq> delimiter then Suc (GetSliceUntil_loop bs delimiter) else 0)"

definition GetSliceUntil :: "slice \<Rightarrow> byte \<Rightarrow> slice \<times> slice" where
  "GetSliceUntil s delimiter =
    (let len = GetSliceUntil_loop s delimiter
     in (take len s, drop (len + (if len < length s then 1 else 0)) s))"

definition EndianTransform :: "u64 \<Rightarrow> nat \<Rightarrow> u64" where
  "EndianTransform inp sz =
    foldl (\<lambda>ret_val i. ret_val OR push_bit ((sz - i - 1) * 8) (ucast (EncodeFixed64 inp ! i)))
      0 [0..<sz]"

section \<open>The codec interface\<close>

text \<open>
  What every reader of an encoded field relies on: a value that was written comes back,
  and the bytes after it are left for the next field.
\<close>

locale codec =
  fixes enc :: "'a \<Rightarrow> bytes"
    and dec :: "bytes \<Rightarrow> ('a \<times> bytes) option"
    and valid :: "'a \<Rightarrow> bool"
  assumes dec_enc: "valid x \<Longrightarrow> dec (enc x @ r) = Some (x, r)"
begin

lemma dec_enc_alone: "valid x \<Longrightarrow> dec (enc x) = Some (x, [])"
  using dec_enc [of x "[]"] by simp

text \<open>No encoding is a proper prefix of another one.\<close>

lemma enc_prefix_free: "valid x \<Longrightarrow> valid y \<Longrightarrow> enc x @ r = enc y @ s \<Longrightarrow> x = y \<and> r = s"
  by (metis dec_enc option.inject prod.inject)

lemma enc_inj: "valid x \<Longrightarrow> valid y \<Longrightarrow> enc x = enc y \<Longrightarrow> x = y"
  using enc_prefix_free [of x y "[]" "[]"] by simp

end

text \<open>Two fields one after the other.\<close>

locale codec2 = fst: codec enc1 dec1 valid1 + snd: codec enc2 dec2 valid2
  for enc1 :: "'a \<Rightarrow> bytes" and dec1 valid1 and enc2 :: "'b \<Rightarrow> bytes" and dec2 valid2
begin

lemma dec_enc2:
  assumes "valid1 x" and "valid2 y"
  shows "(case dec1 (enc1 x @ enc2 y @ r) of None \<Rightarrow> None
          | Some (a, q) \<Rightarrow> (case dec2 q of None \<Rightarrow> None | Some (b, q') \<Rightarrow> Some ((a, b), q')))
         = Some ((x, y), r)"
  using assms by (simp add: fst.dec_enc snd.dec_enc)

end


section \<open>Round trips\<close>

lemma length_EncodeFixed [bytes_simps, simp]:
  "length (EncodeFixed16 a) = 2" "length (EncodeFixed32 b) = 4" "length (EncodeFixed64 c) = 8"
  by (simp_all add: EncodeFixed16_def EncodeFixed32_def EncodeFixed64_def)

lemma and_ff: "w AND 0xff = take_bit 8 (w :: 'a :: len word)"
  by (simp add: take_bit_eq_mask mask_numeral)

lemma ucast_and_ff: "(ucast (w AND 0xff) :: byte) = ucast (w :: 'a :: len word)"
  unfolding and_ff by (rule bit_word_eqI) (auto simp: bit_simps dest: bit_imp_le_length)

lemmas EncodeFixed_defs = EncodeFixed16_def EncodeFixed32_def EncodeFixed64_def

lemma DecodeFixed16_Cons: "DecodeFixed16 (a # b # r) = ucast a OR push_bit 8 (ucast b)"
  by (simp add: DecodeFixed16_def)

lemma DecodeFixed32_Cons:
  "DecodeFixed32 (a # b # c # d # r) =
    ucast a OR push_bit 8 (ucast b) OR push_bit 16 (ucast c) OR push_bit 24 (ucast d)"
  by (simp add: DecodeFixed32_def)

lemma bit_range_cases:
  fixes n :: nat
  shows "n < 32 \<Longrightarrow> n < 8 \<or> n \<ge> 8 \<and> n - 8 < 8 \<or> n \<ge> 16 \<and> n - 16 < 8 \<or> n \<ge> 24 \<and> n - 24 < 8"
  by arith

lemma ucast_bytes_16:
  "ucast (ucast v :: byte) OR push_bit 8 (ucast (ucast (drop_bit 8 v) :: byte)) = (v :: u16)"
  by (rule bit_word_eqI) (auto simp: bit_simps)

lemma ucast_bytes_32:
  "ucast (ucast v :: byte) OR push_bit 8 (ucast (ucast (drop_bit 8 v) :: byte))
    OR push_bit 16 (ucast (ucast (drop_bit 16 v) :: byte))
    OR push_bit 24 (ucast (ucast (drop_bit 24 v) :: byte)) = (v :: u32)"
proof (rule bit_word_eqI)
  fix n assume "n < LENGTH(32)"
  then show "bit (ucast (ucast v :: byte) OR push_bit 8 (ucast (ucast (drop_bit 8 v) :: byte))
      OR push_bit 16 (ucast (ucast (drop_bit 16 v) :: byte))
      OR push_bit 24 (ucast (ucast (drop_bit 24 v) :: byte)) :: u32) n = bit v n"
    using bit_range_cases [of n] by (auto simp: bit_simps)
qed

lemma DecodeFixed16_Encode: "DecodeFixed16 (EncodeFixed16 v @ r) = v"
  by (simp add: EncodeFixed_defs DecodeFixed16_Cons ucast_and_ff ucast_bytes_16
      del: bit_and_iff)

lemma DecodeFixed32_Encode: "DecodeFixed32 (EncodeFixed32 v @ r) = v"
  by (simp only: EncodeFixed_defs append_Cons append_Nil DecodeFixed32_Cons ucast_and_ff ucast_bytes_32)

lemma EncodeFixed64_split:
  "EncodeFixed64 v = EncodeFixed32 (ucast v) @ EncodeFixed32 (ucast (drop_bit 32 v))"
proof -
  have d: "(ucast (drop_bit k (ucast w :: u32)) :: byte) = ucast (drop_bit k w)"
    if "k \<le> 24" for k and w :: u64
    using that by (auto intro!: bit_word_eqI simp: bit_simps)
  have c: "(ucast (ucast w :: u32) :: byte) = ucast w" for w :: u64
    by (rule bit_word_eqI) (auto simp: bit_simps)
  show ?thesis
    by (simp only: EncodeFixed_defs append_Cons append_Nil ucast_and_ff d c drop_bit_drop_bit)
       (simp add: d c ucast_and_ff)
qed

lemma DecodeFixed64_Encode: "DecodeFixed64 (EncodeFixed64 v @ r) = v"
proof -
  have "push_bit 32 (ucast (ucast (drop_bit 32 v) :: u32)) OR ucast (ucast v :: u32) = v"
    by (rule bit_word_eqI) (auto simp: bit_simps)
  then show ?thesis
    by (simp add: DecodeFixed64_def EncodeFixed64_split DecodeFixed32_Encode)
qed


section \<open>Varints against a reference encoding of natural numbers\<close>

text \<open>Seven bits a byte, least significant first, the top bit set on all but the last.\<close>

fun varint_of_nat :: "nat \<Rightarrow> bytes" where
  "varint_of_nat n =
    (if n < 128 then [word_of_nat n]
     else (word_of_nat (n mod 128) OR 128) # varint_of_nat (n div 128))"

declare varint_of_nat.simps [simp del]

lemma varint_of_nat_small: "n < 128 \<Longrightarrow> varint_of_nat n = [word_of_nat n]"
  by (simp add: varint_of_nat.simps)

lemma varint_of_nat_big:
  "128 \<le> n \<Longrightarrow> varint_of_nat n = (word_of_nat (n mod 128) OR 128) # varint_of_nat (n div 128)"
  by (subst varint_of_nat.simps) simp

lemma bit_128 [simp]: "bit (128 :: 'a :: len word) k \<longleftrightarrow> k = 7 \<and> 7 < LENGTH('a)"
proof -
  have "(128 :: 'a word) = 2 ^ 7" by simp
  then show ?thesis by (simp only: bit_exp_iff) (auto simp: possible_bit_def)
qed

lemma bit_127 [simp]: "bit (127 :: 'a :: len word) k \<longleftrightarrow> k < 7 \<and> k < LENGTH('a)"
proof -
  have "(127 :: 'a word) = mask 7" by (simp add: mask_numeral)
  then show ?thesis by (simp only: bit_mask_iff) (auto simp: possible_bit_def)
qed

lemma bit_128_int [simp]: "bit (128 :: int) k \<longleftrightarrow> k = 7"
  using bit_exp_iff [of 7 k, where ?'a = int] by simp

lemma bit_127_int [simp]: "bit (127 :: int) k \<longleftrightarrow> k < 7"
  using bit_mask_iff [of 7 k, where ?'a = int] by (simp add: mask_numeral)

lemma mod_128_take_bit: "n mod 128 = take_bit 7 (n :: nat)"
  by (simp add: take_bit_eq_mod)

lemma div_128_drop_bit: "n div 128 = drop_bit 7 (n :: nat)"
  by (simp add: drop_bit_eq_div)

lemma bit_unat: "bit (unat (w :: 'a :: len word)) k \<longleftrightarrow> bit w k"
  by (simp add: bit_unsigned_iff)

lemma low_byte_or_128:
  fixes v :: "'a :: len word"
  assumes "8 \<le> LENGTH('a)"
  shows "(ucast (v OR 128) :: byte) = word_of_nat (unat v mod 128) OR 128"
  using assms unfolding mod_128_take_bit
  by (intro bit_word_eqI) (auto simp: bit_simps bit_unat)

lemma low_byte_and_127_or_128:
  "(ucast ((v AND 127) OR 128) :: byte) = word_of_nat (unat (v :: u64) mod 128) OR 128"
  unfolding mod_128_take_bit
  by (intro bit_word_eqI) (auto simp: bit_simps bit_unat)

lemma EncodeVarint64_ref: "EncodeVarint64 v = varint_of_nat (unat v)"
proof (induction v rule: EncodeVarint64.induct)
  case (1 v)
  show ?case
  proof (cases "128 \<le> v")
    case True
    then have "128 \<le> unat v" by (simp add: word_le_nat_alt)
    moreover have "unat (drop_bit 7 v) = unat v div 128"
      by (simp add: unat_div drop_bit_eq_div)
    ultimately show ?thesis
      using True 1 by (simp add: EncodeVarint64.simps [of v] varint_of_nat_big low_byte_and_127_or_128)
  next
    case False
    then have "unat v < 128" by (simp add: word_le_nat_alt)
    with False show ?thesis
      by (simp add: EncodeVarint64.simps [of v] varint_of_nat_small)
  qed
qed


lemma unat_drop_bit_div: "unat (drop_bit m (v :: 'a :: len word)) = unat v div 2 ^ m"
  by (metis drop_bit_eq_div unat_drop_bit_eq)

lemma ucast_drop_byte: "(ucast (drop_bit m (v :: u32)) :: byte) = word_of_nat (unat v div 2 ^ m)"
  by (simp flip: unat_drop_bit_div)

lemma low_byte_drop_or_128:
  "(ucast (drop_bit m (v :: u32) OR 128) :: byte) = word_of_nat (unat v div 2 ^ m mod 128) OR 128"
  using low_byte_or_128 [of "drop_bit m v"] by (simp add: unat_drop_bit_div)

lemma unat_2_power: "m < LENGTH('a) \<Longrightarrow> unat (2 ^ m :: 'a :: len word) = 2 ^ m"
  by (metis of_nat_numeral of_nat_power take_bit_nat_eq_self_iff unsigned_of_nat power_strict_increasing_iff
      one_less_numeral_iff semiring_norm(76))

lemma less_push_bit_1:
  "m < LENGTH('a) \<Longrightarrow> (v :: 'a :: len word) < push_bit m 1 \<longleftrightarrow> unat v < 2 ^ m"
  by (simp add: word_less_nat_alt push_bit_eq_mult unat_2_power)

lemma EncodeVarint32_ref: "EncodeVarint32 v = varint_of_nat (unat v)"
proof -
  let ?n = "unat v"
  let ?c = "\<lambda>m. word_of_nat (?n div 2 ^ m mod 128) OR 128 :: byte"
  have bound: "?n < 2 ^ 32" using unsigned_less [of v] by simp
  have dd: "?n div 128 div 128 = ?n div 16384" "?n div 16384 div 128 = ?n div 2097152"
    "?n div 2097152 div 128 = ?n div 268435456"
    by (simp_all flip: div_mult2_eq)
  have tests: "v < push_bit 7 1 \<longleftrightarrow> ?n < 2 ^ 7" "v < push_bit 14 1 \<longleftrightarrow> ?n < 2 ^ 14"
    "v < push_bit 21 1 \<longleftrightarrow> ?n < 2 ^ 21" "v < push_bit 28 1 \<longleftrightarrow> ?n < 2 ^ 28"
    by (rule less_push_bit_1, simp)+
  note def = EncodeVarint32_def [of v, unfolded tests]
  have low: "(ucast (v OR 128) :: byte) = word_of_nat (?n mod 128) OR 128"
    by (rule low_byte_or_128) simp
  consider "?n < 2 ^ 7" | "2 ^ 7 \<le> ?n" "?n < 2 ^ 14" | "2 ^ 14 \<le> ?n" "?n < 2 ^ 21"
    | "2 ^ 21 \<le> ?n" "?n < 2 ^ 28" | "2 ^ 28 \<le> ?n" by linarith
  then show ?thesis
  proof cases
    case 1
    then show ?thesis
      by (simp add: def varint_of_nat_small)
  next
    case 2
    then have "varint_of_nat ?n = [word_of_nat (?n mod 128) OR 128, word_of_nat (?n div 128)]"
      by (simp add: varint_of_nat_big varint_of_nat_small)
    with 2 show ?thesis
      by (simp add: def ucast_drop_byte low)
  next
    case 3
    then have "varint_of_nat ?n =
      [word_of_nat (?n mod 128) OR 128, ?c 7, word_of_nat (?n div 2 ^ 14)]"
      by (simp add: varint_of_nat_big varint_of_nat_small dd)
    with 3 show ?thesis
      by (simp add: def ucast_drop_byte low low_byte_drop_or_128)
  next
    case 4
    then have "varint_of_nat ?n =
      [word_of_nat (?n mod 128) OR 128, ?c 7, ?c 14, word_of_nat (?n div 2 ^ 21)]"
      by (simp add: varint_of_nat_big varint_of_nat_small dd)
    with 4 show ?thesis
      by (simp add: def ucast_drop_byte low low_byte_drop_or_128)
  next
    case 5
    with bound have "varint_of_nat ?n =
      [word_of_nat (?n mod 128) OR 128, ?c 7, ?c 14, ?c 21, word_of_nat (?n div 2 ^ 28)]"
      by (simp add: varint_of_nat_big varint_of_nat_small dd)
    with 5 show ?thesis
      by (simp add: def ucast_drop_byte low low_byte_drop_or_128)
  qed
qed

lemma unat_small_byte: "n < 128 \<Longrightarrow> unat (word_of_nat n :: byte) = n"
  by (simp add: unsigned_of_nat take_bit_nat_eq_self)

lemma no_bit_7: "n < 128 \<Longrightarrow> \<not> bit n 7" for n :: nat
  by (simp add: bit_iff_odd)

lemma varint_loop_ref:
  fixes result :: "'a :: len word"
  assumes "7 dvd (max_shift - shift)" and "shift \<le> max_shift" and "n < 2 ^ (max_shift + 7 - shift)"
    and "8 \<le> LENGTH('a)"
  shows "varint_loop max_shift shift result (varint_of_nat n @ r) =
    Some (result OR push_bit shift (word_of_nat n), r)"
  using assms
proof (induction n arbitrary: shift result rule: varint_of_nat.induct)
  case (1 n)
  show ?case
  proof (cases "n < 128")
    case True
    then have "(word_of_nat n :: byte) AND 128 = 0"
      by (intro bit_word_eqI) (auto simp: bit_simps no_bit_7)
    moreover have "(ucast (word_of_nat n :: byte) :: 'a word) = word_of_nat n"
      using True "1.prems"(4) by (metis of_nat_unat unat_small_byte)
    ultimately show ?thesis using True "1.prems" by (simp add: varint_of_nat_small)
  next
    case False
    let ?b = "word_of_nat (n mod 128) OR 128 :: byte"
    have "bit (?b AND 128) 7" by (simp add: bit_simps)
    then have more: "?b AND 128 \<noteq> 0" by (intro notI) simp
    have low: "ucast ?b AND 127 = (word_of_nat (take_bit 7 n) :: 'a word)"
      using "1.prems"(4) unfolding mod_128_take_bit by (intro bit_word_eqI) (auto simp: bit_simps)
    have room: "shift + 7 \<le> max_shift"
    proof -
      from "1.prems"(1) obtain k where k: "max_shift - shift = 7 * k" by (rule dvdE)
      have "k \<noteq> 0"
      proof
        assume "k = 0"
        with k "1.prems"(2) have "max_shift = shift" by simp
        with False "1.prems"(3) show False by simp
      qed
      with k show ?thesis by linarith
    qed
    have "n div 128 < 2 ^ (max_shift + 7 - (shift + 7))"
    proof -
      from room obtain d where "max_shift = shift + 7 + d" by (auto simp: le_iff_add)
      with "1.prems"(3) have "n < 2 ^ d * 128 * 128" by (simp add: power_add mult.commute)
      then show ?thesis
        using \<open>max_shift = shift + 7 + d\<close> by (simp add: power_add less_mult_imp_div_less mult.commute)
    qed
    moreover have "7 dvd max_shift - (shift + 7)"
      using "1.prems"(1) dvd_diff_nat [of 7 "max_shift - shift" 7] by simp
    ultimately have IH: "varint_loop max_shift (shift + 7) x (varint_of_nat (n div 128) @ r) =
        Some (x OR push_bit (shift + 7) (word_of_nat (n div 128)), r)" for x :: "'a word"
      using 1 False room by simp
    have "push_bit shift (word_of_nat (take_bit 7 n)) OR push_bit (shift + 7) (word_of_nat (n div 128))
        = push_bit shift (word_of_nat n :: 'a word)"
      unfolding div_128_drop_bit
      by (subst (3) of_nat_take_drop_bit [where m = 7]) (simp add: push_bit_or add.commute)
    with False room more low show ?thesis
      by (simp add: varint_of_nat_big IH or.assoc)
  qed
qed

lemma and_128_eq_0: "(w :: 'a :: len word) AND 128 = 0 \<longleftrightarrow> \<not> bit w 7"
proof -
  have "(128 :: 'a word) = 2 ^ 7" by simp
  then show ?thesis by (simp only: and_exp_eq_0_iff_not_bit)
qed

lemma GetVarint32_Encode: "GetVarint32 (EncodeVarint32 v @ r) = Some (v, r)"
proof -
  have "varint_loop 28 0 0 (varint_of_nat (unat v) @ r) = Some (v, r)"
    using unat_bound_32 [of v] by (subst varint_loop_ref) auto
  then have fb: "GetVarint32PtrFallback (EncodeVarint32 v @ r) = Some (v, r)"
    by (simp add: GetVarint32PtrFallback_def EncodeVarint32_ref)
  obtain b q where bq: "EncodeVarint32 v @ r = b # q"
    by (metis EncodeVarint32_ref append_Cons neq_Nil_conv varint_of_nat.simps)
  have c: "(ucast b :: u32) AND 128 = 0 \<longleftrightarrow> b AND 128 = 0"
    by (simp add: and_128_eq_0 bit_simps)
  show ?thesis
    using fb unfolding bq
    by (auto simp: GetVarint32_def GetVarint32Ptr_def GetVarint32PtrFallback_def c)
qed

lemma GetVarint64_Encode: "GetVarint64 (EncodeVarint64 v @ r) = Some (v, r)"
  using unat_bound_64 [of v]
  by (simp add: GetVarint64_def GetVarint64Ptr_def EncodeVarint64_ref varint_loop_ref)

interpretation fixed16: codec EncodeFixed16 GetFixed16 "\<lambda>_. True"
  by unfold_locales (simp add: GetFixed16_def DecodeFixed16_Encode)

interpretation fixed32: codec EncodeFixed32 GetFixed32 "\<lambda>_. True"
  by unfold_locales (simp add: GetFixed32_def DecodeFixed32_Encode)

interpretation fixed64: codec EncodeFixed64 GetFixed64 "\<lambda>_. True"
  by unfold_locales (simp add: GetFixed64_def DecodeFixed64_Encode)

interpretation varint32: codec EncodeVarint32 GetVarint32 "\<lambda>_. True"
  by unfold_locales (rule GetVarint32_Encode)

interpretation varint64: codec EncodeVarint64 GetVarint64 "\<lambda>_. True"
  by unfold_locales (rule GetVarint64_Encode)

text \<open>A string of at most \<open>2\<^sup>3\<^sup>2 - 1\<close> bytes keeps its length through the 32-bit cast.\<close>

lemma GetLengthPrefixedSlice_Put:
  "length s < 2 ^ 32 \<Longrightarrow> GetLengthPrefixedSlice (PutLengthPrefixedSlice [] s @ r) = Some (s, r)"
  by (simp add: GetLengthPrefixedSlice_def PutLengthPrefixedSlice_def PutVarint32_def
      GetVarint32_Encode unsigned_of_nat take_bit_nat_eq_self)

interpretation lps: codec "PutLengthPrefixedSlice []" GetLengthPrefixedSlice "\<lambda>s. length s < 2 ^ 32"
  by unfold_locales (rule GetLengthPrefixedSlice_Put)

interpretation lps_lps: codec2
  "PutLengthPrefixedSlice []" GetLengthPrefixedSlice "\<lambda>s. length s < 2 ^ 32"
  "PutLengthPrefixedSlice []" GetLengthPrefixedSlice "\<lambda>s. length s < 2 ^ 32" ..

section \<open>Consumption: a successful read shortens the input\<close>

lemma varint_loop_shrinks:
  "varint_loop m s x p = Some (v, q) \<Longrightarrow> length q < length p"
  by (induction m s x p rule: varint_loop.induct) (auto split: if_splits)

lemma GetVarint32_shrinks: "GetVarint32 p = Some (v, q) \<Longrightarrow> length q < length p"
  by (auto simp: GetVarint32_def GetVarint32Ptr_def GetVarint32PtrFallback_def
      split: list.splits if_splits option.splits dest!: varint_loop_shrinks)

lemma GetVarint64_shrinks: "GetVarint64 p = Some (v, q) \<Longrightarrow> length q < length p"
  by (auto simp: GetVarint64_def GetVarint64Ptr_def split: option.splits dest!: varint_loop_shrinks)

lemma GetLengthPrefixedSlice_shrinks:
  "GetLengthPrefixedSlice p = Some (s, q) \<Longrightarrow> length q < length p"
  by (fastforce simp: GetLengthPrefixedSlice_def split: option.splits if_splits
      dest: GetVarint32_shrinks)

section \<open>Truncated input\<close>

text \<open>
  A decoder that reads from the front takes the same bytes when more of them follow; so an
  encoding that was cut short is never taken for a shorter value.
\<close>

locale stream_codec = codec +
  assumes dec_append: "dec p = Some (y, q) \<Longrightarrow> dec (p @ r) = Some (y, q @ r)"
begin

lemma dec_truncated: "valid x \<Longrightarrow> enc x = p @ q \<Longrightarrow> q \<noteq> [] \<Longrightarrow> dec p = None"
  using dec_enc_alone [of x] dec_append [of p _ _ q] by (cases "dec p") fastforce+

end

lemma varint_loop_append:
  "varint_loop m s x p = Some (v, q) \<Longrightarrow> varint_loop m s x (p @ r) = Some (v, q @ r)"
  by (induction m s x p rule: varint_loop.induct) (auto split: if_splits)

lemma GetVarint32Ptr_append:
  "GetVarint32Ptr p = Some (v, q) \<Longrightarrow> GetVarint32Ptr (p @ r) = Some (v, q @ r)"
  using varint_loop_append [of 28 0 0 p v q r]
  by (cases p) (simp_all add: GetVarint32Ptr_def GetVarint32PtrFallback_def split: if_splits)

lemma GetVarint32_append: "GetVarint32 p = Some (v, q) \<Longrightarrow> GetVarint32 (p @ r) = Some (v, q @ r)"
  using GetVarint32Ptr_append [of p v q r] by (simp add: GetVarint32_def split: option.splits)

lemma GetVarint64_append: "GetVarint64 p = Some (v, q) \<Longrightarrow> GetVarint64 (p @ r) = Some (v, q @ r)"
  using varint_loop_append [of 63 0 0 p v q r]
  by (simp add: GetVarint64_def GetVarint64Ptr_def split: option.splits)

lemma GetLengthPrefixedSlice_append:
  assumes "GetLengthPrefixedSlice p = Some (v, q)"
  shows "GetLengthPrefixedSlice (p @ r) = Some (v, q @ r)"
proof -
  obtain len p1 where "GetVarint32 p = Some (len, p1)" "unat len \<le> length p1"
    "v = take (unat len) p1" "q = drop (unat len) p1"
    using assms by (auto simp: GetLengthPrefixedSlice_def split: option.splits if_splits)
  then show ?thesis using GetVarint32_append [of p len p1 r] by (simp add: GetLengthPrefixedSlice_def)
qed

interpretation varint32: stream_codec EncodeVarint32 GetVarint32 "\<lambda>_. True"
  by unfold_locales (rule GetVarint32_append)

interpretation varint64: stream_codec EncodeVarint64 GetVarint64 "\<lambda>_. True"
  by unfold_locales (rule GetVarint64_append)

interpretation lps: stream_codec "PutLengthPrefixedSlice []" GetLengthPrefixedSlice "\<lambda>s. length s < 2 ^ 32"
  by unfold_locales (rule GetLengthPrefixedSlice_append)

section \<open>Lengths\<close>

lemma length_varint_of_nat:
  "n < 128 ^ k \<Longrightarrow> 0 < k \<Longrightarrow> length (varint_of_nat n) \<le> k"
proof (induction n arbitrary: k rule: varint_of_nat.induct)
  case (1 n)
  show ?case
  proof (cases "n < 128")
    case True
    with 1 show ?thesis by (simp add: varint_of_nat_small)
  next
    case False
    obtain j where k: "k = Suc j" using "1.prems"(2) by (cases k) auto
    with False "1.prems"(1) have j: "k = Suc j" "0 < j" by (cases j; simp)+
    with 1 False have "length (varint_of_nat (n div 128)) \<le> j"
      by (simp add: less_mult_imp_div_less mult.commute)
    with False j show ?thesis by (simp add: varint_of_nat_big)
  qed
qed

lemma VarintLength_loop_ref: "VarintLength_loop v len + 1 = len + length (EncodeVarint64 v)"
proof (induction v len rule: VarintLength_loop.induct)
  case (1 v len)
  then show ?case
    by (cases "128 \<le> v") (simp_all add: VarintLength_loop.simps [of v] EncodeVarint64.simps [of v])
qed

lemma VarintLength_Encode: "VarintLength v = length (EncodeVarint64 v)"
  using VarintLength_loop_ref [of v 1] by (simp add: VarintLength_def)

lemma length_EncodeVarint32_le: "length (EncodeVarint32 v) \<le> 5"
  using unat_bound_32 [of v] by (simp add: EncodeVarint32_ref length_varint_of_nat)

lemma length_EncodeVarint64_le: "length (EncodeVarint64 v) \<le> 10"
  using unat_bound_64 [of v] by (simp add: EncodeVarint64_ref length_varint_of_nat)

lemma length_EncodeVarint32_pos: "0 < length (EncodeVarint32 v)"
  by (subst EncodeVarint32_ref, subst varint_of_nat.simps) simp

lemma EncodeVarint32_small: "v < 128 \<Longrightarrow> EncodeVarint32 v = [ucast v]"
  by (simp add: EncodeVarint32_def)

section \<open>Properties\<close>

text \<open>
  C28: Both varint encoders, the unrolled 32-bit one and the 64-bit loop, write the reference encoding
  \<open>varint_of_nat\<close>: groups of seven bits from the low end, each but the last with the continuation bit. So the
  32-bit encoder writes the bytes of the 64-bit one on the same value, \<open>VarintLength\<close> is their number, and the buffers \<^verbatim>\<open>char buf[5]\<close> and
  \<^verbatim>\<open>char buf[kMaxVarint64Length]\<close> that receive them are large enough.
\<close>

theorem varint_encoders_agree:
  "EncodeVarint32 v = varint_of_nat (unat v) \<and> EncodeVarint64 w = varint_of_nat (unat w)
    \<and> EncodeVarint32 v = EncodeVarint64 (ucast v) \<and> VarintLength (ucast v) = length (EncodeVarint32 v)
    \<and> length (EncodeVarint32 v) \<le> 5
    \<and> VarintLength w = length (EncodeVarint64 w) \<and> length (EncodeVarint64 w) \<le> 10"
proof -
  have "unat (ucast v :: u64) = unat v"
    using unat_bound_32 [of v] by (simp add: unsigned_ucast_eq take_bit_nat_eq_self)
  then have e: "EncodeVarint32 v = EncodeVarint64 (ucast v)"
    by (simp add: EncodeVarint32_ref EncodeVarint64_ref)
  show ?thesis
  proof (intro conjI)
    show "VarintLength (ucast v) = length (EncodeVarint32 v)" by (simp only: e VarintLength_Encode)
  qed (rule EncodeVarint32_ref EncodeVarint64_ref e length_EncodeVarint32_le VarintLength_Encode length_EncodeVarint64_le)+
qed

lemma bit_zigzag:
  "bit (i64ToZigzag l) n \<longleftrightarrow> n < 64 \<and> (0 < n \<and> bit l (n - 1)) \<noteq> bit l 63"
  unfolding i64ToZigzag_def bit_xor_iff bit_push_bit_iff bit_signed_drop_bit_iff
  by (cases n) (auto dest: bit_imp_le_length)

lemma zigzag_sign: "i64ToZigzag l AND 1 = (if bit l 63 then 1 else 0)"
  by (rule bit_word_eqI) (auto simp: bit_zigzag bit_and_iff bit_1_iff)

lemma zigzag_roundtrip: "zigzagToI64 (i64ToZigzag l) = l"
proof (rule bit_word_eqI)
  fix n assume "n < LENGTH(64)"
  then consider "n < 63" | "n = 63" by fastforce
  then show "bit (zigzagToI64 (i64ToZigzag l)) n = bit l n"
    unfolding zigzagToI64_def zigzag_sign
    by cases (auto simp: bit_zigzag bit_xor_iff bit_drop_bit_eq)
qed

text \<open>
  A signed 64-bit value written by \<^verbatim>\<open>PutVarsignedint64\<close> is read back by
  \<^verbatim>\<open>GetVarsignedint64Ptr\<close>, which leaves the bytes after it.
\<close>

theorem varsigned_roundtrip: "GetVarsignedint64Ptr (PutVarsignedint64 [] v @ r) = (v, Some r)"
  using varint64.dec_enc [of "i64ToZigzag v" r]
  by (simp add: GetVarsignedint64Ptr_def PutVarsignedint64_def GetVarint64_def zigzag_roundtrip
      split: option.splits)

lemma PutLengthPrefixedSliceParts_concat:
  "PutLengthPrefixedSliceParts dst parts = PutLengthPrefixedSlice dst (concat parts)"
proof -
  have a: "foldl (@) d ps = d @ concat ps" for d :: bytes and ps by (induction ps arbitrary: d) auto
  have b: "foldl (\<lambda>n s. n + length s) k ps = k + length (concat ps)" for k and ps :: "bytes list"
    by (induction ps arbitrary: k) auto
  show ?thesis by (simp add: PutLengthPrefixedSliceParts_def PutLengthPrefixedSlice_def a b)
qed

end
