(* ===== verification/FileIO.thy ===== *)
theory FileIO
  imports Prelude
begin

text \<open>
  Files. The in-memory file of \<^verbatim>\<open>env/mock_env.cc\<close> with its sequential and writable
  views, the buffer of \<^verbatim>\<open>util/aligned_buffer.h\<close> and the buffering writer
  \<^verbatim>\<open>WritableFileWriter\<close> of \<^verbatim>\<open>util/file_reader_writer.cc\<close> in buffered
  (not direct) mode and without a rate limiter. A virtual file is a record of its
  operations; the locales say what the write-ahead log needs of a file: what is appended
  is what the file holds, followed by what the buffer holds, and a sequential read
  returns the next bytes.
\<close>

section \<open>\<^verbatim>\<open>MemFile\<close>\<close>

text \<open>\<^verbatim>\<open>size_\<close> is the length of \<^verbatim>\<open>data_\<close> after every operation.\<close>

record MemFile =
  mf_data :: bytes
  mf_fsynced_bytes :: nat

definition MemFile_Size :: "MemFile \<Rightarrow> nat" where
  "MemFile_Size f = length (mf_data f)"

definition MemFile_Truncate :: "MemFile \<Rightarrow> nat \<Rightarrow> MemFile" where
  "MemFile_Truncate f n = (if n < MemFile_Size f then f\<lparr>mf_data := take n (mf_data f)\<rparr> else f)"

definition MemFile_Read :: "MemFile \<Rightarrow> nat \<Rightarrow> nat \<Rightarrow> status \<times> slice" where
  "MemFile_Read f offset n =
    (let available = MemFile_Size f - min (MemFile_Size f) offset;
         n' = (if n > available then available else n)
     in if n' = 0 then (Status_OK, []) else (Status_OK, take n' (drop offset (mf_data f))))"

text \<open>
  \<^verbatim>\<open>std::string::resize\<close> fills with zero bytes; \<^verbatim>\<open>replace\<close> overwrites in place.
\<close>

definition MemFile_Write :: "MemFile \<Rightarrow> nat \<Rightarrow> slice \<Rightarrow> status \<times> MemFile" where
  "MemFile_Write f offset data =
    (let d = (if offset + length data > length (mf_data f)
              then mf_data f @ replicate (offset + length data - length (mf_data f)) 0
              else mf_data f)
     in (Status_OK, f\<lparr>mf_data := take offset d @ data @ drop (offset + length data) d\<rparr>))"

definition MemFile_Append :: "MemFile \<Rightarrow> slice \<Rightarrow> status \<times> MemFile" where
  "MemFile_Append f data = (Status_OK, f\<lparr>mf_data := mf_data f @ data\<rparr>)"

definition MemFile_Fsync :: "MemFile \<Rightarrow> status \<times> MemFile" where
  "MemFile_Fsync f = (Status_OK, f\<lparr>mf_fsynced_bytes := MemFile_Size f\<rparr>)"

section \<open>\<^verbatim>\<open>MockSequentialFile\<close>\<close>

record MockSequentialFile =
  sf_file :: MemFile
  sf_pos :: nat

definition MockSequentialFile_Read ::
    "MockSequentialFile \<Rightarrow> nat \<Rightarrow> status \<times> slice \<times> MockSequentialFile" where
  "MockSequentialFile_Read sf n =
    (let (s, result) = MemFile_Read (sf_file sf) (sf_pos sf) n
     in (s, result, if ok s then sf\<lparr>sf_pos := sf_pos sf + length result\<rparr> else sf))"

definition MockSequentialFile_Skip :: "MockSequentialFile \<Rightarrow> nat \<Rightarrow> status \<times> MockSequentialFile" where
  "MockSequentialFile_Skip sf n =
    (if sf_pos sf > MemFile_Size (sf_file sf) then (IOError ''pos_ > file_->Size()'', sf)
     else let available = MemFile_Size (sf_file sf) - sf_pos sf;
              n' = (if n > available then available else n)
          in (Status_OK, sf\<lparr>sf_pos := sf_pos sf + n'\<rparr>))"

section \<open>The interface of a writable file\<close>

text \<open>
  The virtual functions of \<^verbatim>\<open>WritableFile\<close> that \<^verbatim>\<open>WritableFileWriter\<close> calls, as
  a record of functions over the state \<open>'f\<close> of the file.
\<close>

record 'f WritableFile =
  wf_Append :: "'f \<Rightarrow> slice \<Rightarrow> status \<times> 'f"
  wf_Flush :: "'f \<Rightarrow> status \<times> 'f"
  wf_Sync :: "'f \<Rightarrow> status \<times> 'f"
  wf_Fsync :: "'f \<Rightarrow> status \<times> 'f"
  wf_Close :: "'f \<Rightarrow> status \<times> 'f"
  wf_RangeSync :: "'f \<Rightarrow> nat \<Rightarrow> nat \<Rightarrow> status \<times> 'f"
  wf_PrepareWrite :: "'f \<Rightarrow> nat \<Rightarrow> nat \<Rightarrow> 'f"
  wf_IsSyncThreadSafe :: bool
  wf_alignment :: nat

text \<open>
  The base class's \<^verbatim>\<open>PrepareWrite\<close> keeps count of the blocks it has asked
  \<^verbatim>\<open>Allocate\<close> for; \<^verbatim>\<open>Allocate\<close> itself does nothing unless overridden.
\<close>

record 'b wf_base =
  wf_last_preallocated_block :: nat
  wf_preallocation_block_size :: nat
  wf_derived :: 'b

definition WritableFile_PrepareWrite :: "'b wf_base \<Rightarrow> nat \<Rightarrow> nat \<Rightarrow> 'b wf_base" where
  "WritableFile_PrepareWrite f offset len =
    (if wf_preallocation_block_size f = 0 then f
     else let block_size = wf_preallocation_block_size f;
              new_last = (offset + len + block_size - 1) div block_size
          in if new_last > wf_last_preallocated_block f
             then f\<lparr>wf_last_preallocated_block := new_last\<rparr> else f)"

text \<open>\<^verbatim>\<open>MockWritableFile\<close> over a \<^verbatim>\<open>MemFile\<close>.\<close>

type_synonym MockWritableFile = "MemFile wf_base"

definition lift_derived :: "('b \<Rightarrow> status \<times> 'b) \<Rightarrow> 'b wf_base \<Rightarrow> status \<times> 'b wf_base" where
  "lift_derived g f = (let (s, d) = g (wf_derived f) in (s, f\<lparr>wf_derived := d\<rparr>))"

definition MockWritableFile_ops :: "MockWritableFile WritableFile" where
  "MockWritableFile_ops = \<lparr>
    wf_Append = \<lambda>f data. if data = [] then (Status_OK, f) else lift_derived (\<lambda>m. MemFile_Append m data) f,
    wf_Flush = \<lambda>f. (Status_OK, f),
    wf_Sync = lift_derived MemFile_Fsync,
    wf_Fsync = lift_derived MemFile_Fsync,
    wf_Close = lift_derived MemFile_Fsync,
    wf_RangeSync = \<lambda>f _ _. (Status_OK, f),
    wf_PrepareWrite = WritableFile_PrepareWrite,
    wf_IsSyncThreadSafe = False,
    wf_alignment = 4096\<rparr>"

section \<open>\<^verbatim>\<open>AlignedBuffer\<close>\<close>

text \<open>
  \<open>ab_data\<close> is the used part of the buffer; its length is \<^verbatim>\<open>cursize_\<close>.
\<close>

record AlignedBuffer =
  ab_alignment :: nat
  ab_capacity :: nat
  ab_data :: bytes

definition CurrentSize :: "AlignedBuffer \<Rightarrow> nat" where
  "CurrentSize b = length (ab_data b)"

definition Roundup :: "nat \<Rightarrow> nat \<Rightarrow> nat" where
  "Roundup x y = (x + y - 1) div y * y"

text \<open>\<^verbatim>\<open>AllocateNewBuffer\<close> with its default \<^verbatim>\<open>copy_offset\<close> and \<^verbatim>\<open>copy_len\<close>.\<close>

definition AllocateNewBuffer :: "AlignedBuffer \<Rightarrow> nat \<Rightarrow> bool \<Rightarrow> AlignedBuffer" where
  "AllocateNewBuffer b requested_capacity copy_data =
    (if copy_data \<and> requested_capacity < CurrentSize b then b
     else b\<lparr>ab_capacity := Roundup requested_capacity (ab_alignment b),
            ab_data := (if copy_data then ab_data b else [])\<rparr>)"

definition AlignedBuffer_Append :: "AlignedBuffer \<Rightarrow> slice \<Rightarrow> nat \<times> AlignedBuffer" where
  "AlignedBuffer_Append b src =
    (let buffer_remaining = ab_capacity b - CurrentSize b;
         to_copy = min (length src) buffer_remaining
     in (to_copy, b\<lparr>ab_data := ab_data b @ take to_copy src\<rparr>))"

definition PadWith :: "AlignedBuffer \<Rightarrow> nat \<Rightarrow> byte \<Rightarrow> AlignedBuffer" where
  "PadWith b pad_size padding = b\<lparr>ab_data := ab_data b @ replicate pad_size padding\<rparr>"

section \<open>\<^verbatim>\<open>WritableFileWriter\<close>\<close>

text \<open>\<open>wfw_open\<close> is false once \<^verbatim>\<open>Close\<close> has reset \<^verbatim>\<open>writable_file_\<close>.\<close>

record 'f WritableFileWriter =
  writable_file :: 'f
  wfw_open :: bool
  buf :: AlignedBuffer
  max_buffer_size :: nat
  filesize :: nat
  pending_sync :: bool
  last_sync_size :: nat
  bytes_per_sync :: nat

definition WritableFileWriter_new ::
    "'f WritableFile \<Rightarrow> 'f \<Rightarrow> nat \<Rightarrow> nat \<Rightarrow> 'f WritableFileWriter" where
  "WritableFileWriter_new ops f max_buffer bps =
    \<lparr>writable_file = f, wfw_open = True,
     buf = AllocateNewBuffer \<lparr>ab_alignment = wf_alignment ops, ab_capacity = 0, ab_data = []\<rparr>
             (min 65536 max_buffer) False,
     max_buffer_size = max_buffer, filesize = 0, pending_sync = False,
     last_sync_size = 0, bytes_per_sync = bps\<rparr>"

text \<open>
  \<^verbatim>\<open>WriteBuffered\<close>: without a rate limiter the loop allows everything that is left, so
  it runs once, or not at all on empty data.
\<close>

definition WriteBuffered ::
    "'f WritableFile \<Rightarrow> 'f WritableFileWriter \<Rightarrow> slice \<Rightarrow> status \<times> 'f WritableFileWriter" where
  "WriteBuffered ops w data =
    (if data = [] then (Status_OK, w\<lparr>buf := (buf w)\<lparr>ab_data := []\<rparr>\<rparr>)
     else let (s, f) = wf_Append ops (writable_file w) data; w1 = w\<lparr>writable_file := f\<rparr>
          in if \<not> ok s then (s, w1) else (s, w1\<lparr>buf := (buf w1)\<lparr>ab_data := []\<rparr>\<rparr>))"

definition kBytesNotSyncRange :: nat where
  "kBytesNotSyncRange = 1024 * 1024"

definition kBytesAlignWhenSync :: nat where
  "kBytesAlignWhenSync = 4 * 1024"

definition WFW_range_sync ::
    "'f WritableFile \<Rightarrow> 'f WritableFileWriter \<Rightarrow> status \<Rightarrow> status \<times> 'f WritableFileWriter" where
  "WFW_range_sync ops w s =
    (if bytes_per_sync w \<noteq> 0 \<and> filesize w > kBytesNotSyncRange then
       let o0 = filesize w - kBytesNotSyncRange;
           offset_sync_to = o0 - o0 mod kBytesAlignWhenSync
       in if offset_sync_to > 0 \<and> offset_sync_to - last_sync_size w \<ge> bytes_per_sync w then
            let (s1, f) = wf_RangeSync ops (writable_file w) (last_sync_size w)
                            (offset_sync_to - last_sync_size w)
            in (s1, w\<lparr>writable_file := f, last_sync_size := offset_sync_to\<rparr>)
          else (s, w)
     else (s, w))"

definition WFW_Flush :: "'f WritableFile \<Rightarrow> 'f WritableFileWriter \<Rightarrow> status \<times> 'f WritableFileWriter" where
  "WFW_Flush ops w =
    (let (s0, w0) = (if CurrentSize (buf w) > 0 then WriteBuffered ops w (ab_data (buf w))
                     else (Status_OK, w))
     in if \<not> ok s0 then (s0, w0)
        else let (s1, f) = wf_Flush ops (writable_file w0); w1 = w0\<lparr>writable_file := f\<rparr>
             in if \<not> ok s1 then (s1, w1) else WFW_range_sync ops w1 s1)"

text \<open>
  The loop that enlarges the buffer. \<^verbatim>\<open>cap\<close> doubles, so \<^verbatim>\<open>max_buffer_size_\<close>
  iterations are enough for a buffer of positive capacity.
\<close>

fun enlarge_loop :: "nat \<Rightarrow> nat \<Rightarrow> nat \<Rightarrow> nat \<Rightarrow> AlignedBuffer \<Rightarrow> AlignedBuffer" where
  "enlarge_loop 0 cap max_size left b = b"
| "enlarge_loop (Suc fuel) cap max_size left b =
    (if cap < max_size then
       let desired_capacity = min (cap * 2) max_size
       in if desired_capacity - CurrentSize b \<ge> left then AllocateNewBuffer b desired_capacity True
          else enlarge_loop fuel (cap * 2) max_size left b
     else b)"

text \<open>
  The loop that fills the buffer, flushing when it is full. An iteration that is followed
  by another has filled a buffer of positive capacity, so the length of the data bounds
  their number.
\<close>

fun append_loop ::
    "nat \<Rightarrow> 'f WritableFile \<Rightarrow> 'f WritableFileWriter \<Rightarrow> slice \<Rightarrow> status \<Rightarrow> status \<times> 'f WritableFileWriter" where
  "append_loop 0 ops w src s = (s, w)"
| "append_loop (Suc fuel) ops w src s =
    (if length src > 0 then
       let (appended, b) = AlignedBuffer_Append (buf w) src; w1 = w\<lparr>buf := b\<rparr>;
           src1 = drop appended src
       in if length src1 > 0 then
            let (s1, w2) = WFW_Flush ops w1
            in if \<not> ok s1 then (s1, w2) else append_loop fuel ops w2 src1 s1
          else (s, w1)
     else (s, w))"

definition WFW_Append ::
    "'f WritableFile \<Rightarrow> 'f WritableFileWriter \<Rightarrow> slice \<Rightarrow> status \<times> 'f WritableFileWriter" where
  "WFW_Append ops w data =
    (let left = length data;
         w0 = w\<lparr>pending_sync := True,
                writable_file := wf_PrepareWrite ops (writable_file w) (filesize w) left\<rparr>;
         w1 = (if ab_capacity (buf w0) - CurrentSize (buf w0) < left
               then w0\<lparr>buf := enlarge_loop (max_buffer_size w0) (ab_capacity (buf w0))
                               (max_buffer_size w0) left (buf w0)\<rparr>
               else w0);
         (s2, w2) = (if ab_capacity (buf w1) - CurrentSize (buf w1) < left \<and> CurrentSize (buf w1) > 0
                     then WFW_Flush ops w1 else (Status_OK, w1))
     in if \<not> ok s2 then (s2, w2)
        else let (s3, w3) = (if ab_capacity (buf w2) \<ge> left
                             then append_loop (Suc left) ops w2 data s2
                             else WriteBuffered ops w2 data)
             in (s3, if ok s3 then w3\<lparr>filesize := filesize w3 + length data\<rparr> else w3))"

definition SyncInternal ::
    "'f WritableFile \<Rightarrow> 'f WritableFileWriter \<Rightarrow> bool \<Rightarrow> status \<times> 'f WritableFileWriter" where
  "SyncInternal ops w use_fsync =
    (let (s, f) = (if use_fsync then wf_Fsync ops (writable_file w) else wf_Sync ops (writable_file w))
     in (s, w\<lparr>writable_file := f\<rparr>))"

definition WFW_Sync ::
    "'f WritableFile \<Rightarrow> 'f WritableFileWriter \<Rightarrow> bool \<Rightarrow> status \<times> 'f WritableFileWriter" where
  "WFW_Sync ops w use_fsync =
    (let (s, w1) = WFW_Flush ops w
     in if \<not> ok s then (s, w1)
        else let (s2, w2) = (if pending_sync w1 then SyncInternal ops w1 use_fsync else (Status_OK, w1))
             in if \<not> ok s2 then (s2, w2) else (Status_OK, w2\<lparr>pending_sync := False\<rparr>))"

definition SyncWithoutFlush ::
    "'f WritableFile \<Rightarrow> 'f WritableFileWriter \<Rightarrow> bool \<Rightarrow> status \<times> 'f WritableFileWriter" where
  "SyncWithoutFlush ops w use_fsync =
    (if \<not> wf_IsSyncThreadSafe ops then
       (NotSupported (''Can't WritableFileWriter::SyncWithoutFlush() because '' @
                      ''WritableFile::IsSyncThreadSafe() is false''), w)
     else SyncInternal ops w use_fsync)"

definition WFW_Close :: "'f WritableFile \<Rightarrow> 'f WritableFileWriter \<Rightarrow> status \<times> 'f WritableFileWriter" where
  "WFW_Close ops w =
    (if \<not> wfw_open w then (Status_OK, w)
     else let (s, w1) = WFW_Flush ops w; (interim, f) = wf_Close ops (writable_file w1)
          in (if \<not> ok interim \<and> ok s then interim else s, w1\<lparr>writable_file := f, wfw_open := False\<rparr>))"

text \<open>\<^verbatim>\<open>Pad\<close>: the loop stops when nothing is left; each iteration but the last flushes.\<close>

fun pad_loop :: "nat \<Rightarrow> 'f WritableFile \<Rightarrow> 'f WritableFileWriter \<Rightarrow> nat \<Rightarrow> status \<times> 'f WritableFileWriter" where
  "pad_loop 0 ops w left = (Status_OK, w)"
| "pad_loop (Suc fuel) ops w left =
    (if left > 0 then
       let append_bytes = min (ab_capacity (buf w) - CurrentSize (buf w)) left;
           w1 = w\<lparr>buf := PadWith (buf w) append_bytes 0\<rparr>; left1 = left - append_bytes
       in if left1 > 0 then
            let (s, w2) = WFW_Flush ops w1 in if \<not> ok s then (s, w2) else pad_loop fuel ops w2 left1
          else (Status_OK, w1)
     else (Status_OK, w))"

definition WFW_Pad :: "'f WritableFile \<Rightarrow> 'f WritableFileWriter \<Rightarrow> nat \<Rightarrow> status \<times> 'f WritableFileWriter" where
  "WFW_Pad ops w pad_bytes =
    (let (s, w1) = pad_loop (Suc pad_bytes) ops w pad_bytes
     in if \<not> ok s then (s, w1)
        else (Status_OK, w1\<lparr>pending_sync := True, filesize := filesize w1 + pad_bytes\<rparr>))"

section \<open>What the log needs of a file\<close>

text \<open>
  A sink accepts bytes and holds, in order, all it has been given (in a buffer or beyond);
  a flush loses nothing.
\<close>

locale sink =
  fixes app :: "'d \<Rightarrow> slice \<Rightarrow> status \<times> 'd"
    and flush :: "'d \<Rightarrow> status \<times> 'd"
    and held :: "'d \<Rightarrow> bytes"
    and sound :: "'d \<Rightarrow> bool"
  assumes app_ok: "sound d \<Longrightarrow> ok (fst (app d s))"
    and app_held: "sound d \<Longrightarrow> held (snd (app d s)) = held d @ s"
    and app_sound: "sound d \<Longrightarrow> sound (snd (app d s))"
    and flush_ok: "sound d \<Longrightarrow> ok (fst (flush d))"
    and flush_held: "sound d \<Longrightarrow> held (snd (flush d)) = held d"
    and flush_sound: "sound d \<Longrightarrow> sound (snd (flush d))"

text \<open>
  A source returns the next bytes of what it has left, fewer than asked for only at its end.
\<close>

locale seq_source =
  fixes rd :: "'f \<Rightarrow> nat \<Rightarrow> status \<times> slice \<times> 'f"
    and rest :: "'f \<Rightarrow> bytes"
  assumes rd_ok: "ok (fst (rd f n))"
    and rd_data: "fst (snd (rd f n)) = take n (rest f)"
    and rd_rest: "rest (snd (snd (rd f n))) = drop n (rest f)"

text \<open>The operations of a writable file that does not fail.\<close>

locale healthy_file =
  fixes ops :: "'f WritableFile"
    and data :: "'f \<Rightarrow> bytes"
  assumes Append_ok: "ok (fst (wf_Append ops f s))"
    and Append_data: "data (snd (wf_Append ops f s)) = data f @ s"
    and Flush_ok: "ok (fst (wf_Flush ops f))"
    and Flush_data: "data (snd (wf_Flush ops f)) = data f"
    and Sync_ok: "ok (fst (wf_Sync ops f))"
    and Sync_data: "data (snd (wf_Sync ops f)) = data f"
    and Fsync_ok: "ok (fst (wf_Fsync ops f))"
    and Fsync_data: "data (snd (wf_Fsync ops f)) = data f"
    and Close_ok: "ok (fst (wf_Close ops f))"
    and Close_data: "data (snd (wf_Close ops f)) = data f"
    and RangeSync_ok: "ok (fst (wf_RangeSync ops f a n))"
    and RangeSync_data: "data (snd (wf_RangeSync ops f a n)) = data f"
    and PrepareWrite_data: "data (wf_PrepareWrite ops f a n) = data f"

text \<open>What a writer holds: what the file has, then what the buffer has.\<close>

definition wfw_held :: "('f \<Rightarrow> bytes) \<Rightarrow> 'f WritableFileWriter \<Rightarrow> bytes" where
  "wfw_held data w = data (writable_file w) @ ab_data (buf w)"

definition wfw_sound :: "'f WritableFileWriter \<Rightarrow> bool" where
  "wfw_sound w \<longleftrightarrow> CurrentSize (buf w) \<le> ab_capacity (buf w) \<and> 0 < ab_alignment (buf w)"

text \<open>A sequence of appends, each continuing from the state the last one left.\<close>

fun append_all :: "'f WritableFile \<Rightarrow> 'f WritableFileWriter \<Rightarrow> slice list \<Rightarrow> 'f WritableFileWriter" where
  "append_all ops w [] = w"
| "append_all ops w (s # ss) = append_all ops (snd (WFW_Append ops w s)) ss"

lemma le_Roundup: "0 < y \<Longrightarrow> x \<le> Roundup x y"
proof -
  assume y: "0 < y"
  have "x + y - 1 < (x + y - 1) div y * y + y"
    using y mod_less_divisor [of y "x + y - 1"] div_mult_mod_eq [of "x + y - 1" y] by linarith
  then show ?thesis using y by (simp add: Roundup_def)
qed

lemma AllocateNewBuffer_copy:
  assumes "CurrentSize b \<le> ab_capacity b" and "0 < ab_alignment b"
  shows "ab_data (AllocateNewBuffer b c True) = ab_data b"
    and "CurrentSize (AllocateNewBuffer b c True) \<le> ab_capacity (AllocateNewBuffer b c True)"
    and "ab_alignment (AllocateNewBuffer b c True) = ab_alignment b"
  using assms le_Roundup [OF assms(2), of c] by (auto simp: AllocateNewBuffer_def CurrentSize_def)

lemma enlarge_loop_keeps:
  assumes "CurrentSize b \<le> ab_capacity b" and "0 < ab_alignment b"
  shows "ab_data (enlarge_loop fuel cap m left b) = ab_data b \<and>
    CurrentSize (enlarge_loop fuel cap m left b) \<le> ab_capacity (enlarge_loop fuel cap m left b) \<and>
    ab_alignment (enlarge_loop fuel cap m left b) = ab_alignment b"
  by (induction fuel arbitrary: cap) (auto simp: Let_def AllocateNewBuffer_copy [OF assms] assms)

lemma append_loop_room:
  assumes "length src \<le> ab_capacity (buf w) - CurrentSize (buf w)"
  shows "append_loop (Suc n) ops w src s = (s, w\<lparr>buf := (buf w)\<lparr>ab_data := ab_data (buf w) @ src\<rparr>\<rparr>)"
  using assms by (auto simp: AlignedBuffer_Append_def Let_def min_absorb1)

context healthy_file
begin

lemma WriteBuffered_props:
  "ok (fst (WriteBuffered ops w s))"
  "data (writable_file (snd (WriteBuffered ops w s))) = data (writable_file w) @ s"
  "buf (snd (WriteBuffered ops w s)) = (buf w)\<lparr>ab_data := []\<rparr>"
  "filesize (snd (WriteBuffered ops w s)) = filesize w"
  "wfw_open (snd (WriteBuffered ops w s)) = wfw_open w"
  using Append_ok [of "writable_file w" s] Append_data [of "writable_file w" s]
  by (auto simp: WriteBuffered_def Let_def split_def)

lemma WFW_range_sync_props:
  assumes "ok s"
  shows "ok (fst (WFW_range_sync ops w s))"
    and "data (writable_file (snd (WFW_range_sync ops w s))) = data (writable_file w)"
    and "buf (snd (WFW_range_sync ops w s)) = buf w"
    and "filesize (snd (WFW_range_sync ops w s)) = filesize w"
    and "wfw_open (snd (WFW_range_sync ops w s)) = wfw_open w"
  using assms by (simp_all add: WFW_range_sync_def Let_def split_def RangeSync_ok RangeSync_data)

lemma WFW_Flush_props:
  "ok (fst (WFW_Flush ops w))"
  "data (writable_file (snd (WFW_Flush ops w))) = data (writable_file w) @ ab_data (buf w)"
  "buf (snd (WFW_Flush ops w)) = (buf w)\<lparr>ab_data := []\<rparr>"
  "filesize (snd (WFW_Flush ops w)) = filesize w"
  "wfw_open (snd (WFW_Flush ops w)) = wfw_open w"
  by (auto simp: WFW_Flush_def Let_def split_def CurrentSize_def WriteBuffered_props
      Flush_ok Flush_data WFW_range_sync_props)

lemma WFW_Append_props:
  assumes "wfw_sound w"
  shows "ok (fst (WFW_Append ops w s)) \<and> wfw_held data (snd (WFW_Append ops w s)) = wfw_held data w @ s \<and>
    wfw_sound (snd (WFW_Append ops w s)) \<and> filesize (snd (WFW_Append ops w s)) = filesize w + length s \<and>
    wfw_open (snd (WFW_Append ops w s)) = wfw_open w"
proof -
  define w0 where "w0 = w\<lparr>pending_sync := True,
    writable_file := wf_PrepareWrite ops (writable_file w) (filesize w) (length s)\<rparr>"
  define w1 where "w1 = (if ab_capacity (buf w0) - CurrentSize (buf w0) < length s
    then w0\<lparr>buf := enlarge_loop (max_buffer_size w0) (ab_capacity (buf w0)) (max_buffer_size w0) (length s) (buf w0)\<rparr>
    else w0)"
  have w1: "wfw_held data w1 = wfw_held data w" "wfw_sound w1" "filesize w1 = filesize w"
    "wfw_open w1 = wfw_open w"
    using assms enlarge_loop_keeps [of "buf w" "max_buffer_size w" "ab_capacity (buf w)" "max_buffer_size w" "length s"]
    by (auto simp: w1_def w0_def wfw_held_def wfw_sound_def PrepareWrite_data)
  define p where "p = (if ab_capacity (buf w1) - CurrentSize (buf w1) < length s \<and> CurrentSize (buf w1) > 0
    then WFW_Flush ops w1 else (Status_OK, w1))"
  have p: "ok (fst p)" "wfw_held data (snd p) = wfw_held data w" "wfw_sound (snd p)"
    "filesize (snd p) = filesize w" "wfw_open (snd p) = wfw_open w"
    using w1 by (auto simp: p_def WFW_Flush_props wfw_held_def wfw_sound_def CurrentSize_def ok_OK)
  have room: "length s \<le> ab_capacity (buf (snd p)) \<Longrightarrow>
      length s \<le> ab_capacity (buf (snd p)) - CurrentSize (buf (snd p))"
    by (auto simp: p_def WFW_Flush_props CurrentSize_def split: if_splits)
  have none: "\<not> length s \<le> ab_capacity (buf (snd p)) \<Longrightarrow> ab_data (buf (snd p)) = []"
    by (auto simp: p_def WFW_Flush_props CurrentSize_def split: if_splits)
  have def: "WFW_Append ops w s = (let (s3, w3) =
      (if ab_capacity (buf (snd p)) \<ge> length s then append_loop (Suc (length s)) ops (snd p) s (fst p)
       else WriteBuffered ops (snd p) s) in (s3, if ok s3 then w3\<lparr>filesize := filesize w3 + length s\<rparr> else w3))"
    using p(1) unfolding WFW_Append_def Let_def w0_def [symmetric] w1_def [symmetric] p_def [symmetric]
    by (simp add: split_def)
  show ?thesis
  proof (cases "length s \<le> ab_capacity (buf (snd p))")
    case True
    then show ?thesis
      using append_loop_room [OF room [OF True]] p room [OF True]
      by (auto simp: def wfw_held_def wfw_sound_def CurrentSize_def)
  next
    case False
    then show ?thesis
      using none [OF False] p WriteBuffered_props [of "snd p" s]
      by (auto simp: def wfw_held_def wfw_sound_def CurrentSize_def split_def Let_def)
  qed
qed

end

context healthy_file
begin

text \<open>\<^verbatim>\<open>Pad\<close> appends zero bytes: after a flush the whole capacity is free.\<close>

lemma pad_loop_props:
  assumes "wfw_sound w" and "0 < ab_capacity (buf w)"
    and "n < fuel \<or> n \<le> fuel \<and> CurrentSize (buf w) < ab_capacity (buf w)"
  shows "ok (fst (pad_loop fuel ops w n)) \<and>
    wfw_held data (snd (pad_loop fuel ops w n)) = wfw_held data w @ replicate n 0 \<and>
    wfw_sound (snd (pad_loop fuel ops w n)) \<and> filesize (snd (pad_loop fuel ops w n)) = filesize w"
  using assms
proof (induction fuel arbitrary: w n)
  case 0
  then show ?case by (simp add: ok_OK)
next
  case (Suc fuel)
  let ?a = "min (ab_capacity (buf w) - CurrentSize (buf w)) n"
  let ?w = "w\<lparr>buf := PadWith (buf w) ?a 0\<rparr>"
  let ?f = "snd (WFW_Flush ops ?w)"
  have IH: "ok (fst (pad_loop fuel ops ?f (n - ?a))) \<and>
      wfw_held data (snd (pad_loop fuel ops ?f (n - ?a))) = wfw_held data ?f @ replicate (n - ?a) 0 \<and>
      wfw_sound (snd (pad_loop fuel ops ?f (n - ?a))) \<and> filesize (snd (pad_loop fuel ops ?f (n - ?a))) = filesize ?f"
    if "0 < n - ?a"
    using Suc.prems that
    by (intro Suc.IH) (auto simp: WFW_Flush_props wfw_sound_def CurrentSize_def PadWith_def)
  have "wfw_held data ?f @ replicate (n - ?a) 0 = wfw_held data w @ replicate n 0"
    by (simp add: wfw_held_def WFW_Flush_props PadWith_def flip: replicate_add)
  then show ?case
    using IH Suc.prems
    by (auto simp: Let_def split_def WFW_Flush_props ok_OK wfw_held_def wfw_sound_def PadWith_def CurrentSize_def)
qed

lemma append_all_props:
  "wfw_sound w \<Longrightarrow>
    wfw_held data (append_all ops w ss) = wfw_held data w @ concat ss \<and>
    filesize (append_all ops w ss) = filesize w + length (concat ss) \<and>
    wfw_open (append_all ops w ss) = wfw_open w"
  by (induction ss arbitrary: w) (simp_all add: WFW_Append_props)

lemma WFW_Pad_props:
  assumes "wfw_sound w" and "0 < ab_capacity (buf w)"
  shows "ok (fst (WFW_Pad ops w n)) \<and>
    wfw_held data (snd (WFW_Pad ops w n)) = wfw_held data w @ replicate n 0 \<and>
    wfw_sound (snd (WFW_Pad ops w n)) \<and> filesize (snd (WFW_Pad ops w n)) = filesize w + n"
  using pad_loop_props [OF assms, of n "Suc n"]
  by (simp add: WFW_Pad_def Let_def split_def ok_OK wfw_held_def wfw_sound_def del: pad_loop.simps)

end

sublocale healthy_file \<subseteq> wfw: sink "WFW_Append ops" "WFW_Flush ops" "wfw_held data" wfw_sound
  by unfold_locales
    (simp_all add: WFW_Append_props WFW_Flush_props, simp_all add: wfw_held_def wfw_sound_def WFW_Flush_props CurrentSize_def)

interpretation mock_writable: healthy_file MockWritableFile_ops "\<lambda>f. mf_data (wf_derived f)"
  by unfold_locales
    (auto simp: MockWritableFile_ops_def lift_derived_def MemFile_Append_def MemFile_Fsync_def ok_OK
      WritableFile_PrepareWrite_def Let_def)

interpretation mock_seq: seq_source MockSequentialFile_Read "\<lambda>sf. drop (sf_pos sf) (mf_data (sf_file sf))"
  by unfold_locales
    (auto simp: MockSequentialFile_Read_def MemFile_Read_def MemFile_Size_def Let_def ok_OK min_def add.commute)


lemma WritableFileWriter_new_props:
  assumes "0 < wf_alignment ops"
  shows "wfw_sound (WritableFileWriter_new ops f m n)"
    and "ab_data (buf (WritableFileWriter_new ops f m n)) = []"
    and "writable_file (WritableFileWriter_new ops f m n) = f"
    and "filesize (WritableFileWriter_new ops f m n) = 0"
    and "wfw_open (WritableFileWriter_new ops f m n)"
  using assms
  by (simp_all add: WritableFileWriter_new_def wfw_sound_def AllocateNewBuffer_def CurrentSize_def)

section \<open>Properties\<close>

text \<open>
  C18: whatever the buffer sizes and the sync interval, a writer that is given slices and
  then closed leaves in the file exactly its old bytes followed by the slices in order, all
  of them synced, and its file size counts them.
\<close>

theorem writer_loses_nothing:
  "let w = append_all MockWritableFile_ops (WritableFileWriter_new MockWritableFile_ops f m n) ss;
       (s, w') = WFW_Close MockWritableFile_ops w;
       file = wf_derived (writable_file w')
   in ok s \<and> mf_data file = mf_data (wf_derived f) @ concat ss \<and>
      mf_fsynced_bytes file = length (mf_data file) \<and> filesize w' = length (concat ss)"
proof -
  let ?n = "WritableFileWriter_new MockWritableFile_ops f m n"
  have al: "0 < wf_alignment MockWritableFile_ops" by (simp add: MockWritableFile_ops_def)
  note new = WritableFileWriter_new_props [OF al]
  have close: "wf_Close MockWritableFile_ops g =
      (Status_OK, g\<lparr>wf_derived := (wf_derived g)\<lparr>mf_fsynced_bytes := length (mf_data (wf_derived g))\<rparr>\<rparr>)" for g
    by (simp add: MockWritableFile_ops_def lift_derived_def MemFile_Fsync_def MemFile_Size_def)
  show ?thesis
    using mock_writable.append_all_props [OF new(1) [of f m n], of ss] new
    by (simp add: WFW_Close_def Let_def split_def mock_writable.WFW_Flush_props close ok_OK
        wfw_held_def MemFile_Fsync_def)
qed

text \<open>
  Padding a writer that has a buffer appends exactly the zero bytes asked for, also
  when the buffer is full or smaller than the padding.
\<close>

theorem pad_appends_zeros:
  assumes "wfw_sound w" and "0 < ab_capacity (buf w)"
  shows "ok (fst (WFW_Pad MockWritableFile_ops w n)) \<and>
    wfw_held (\<lambda>f. mf_data (wf_derived f)) (snd (WFW_Pad MockWritableFile_ops w n)) =
      wfw_held (\<lambda>f. mf_data (wf_derived f)) w @ replicate n 0 \<and>
    filesize (snd (WFW_Pad MockWritableFile_ops w n)) = filesize w + n"
  using mock_writable.WFW_Pad_props [OF assms] by blast

definition demo_file :: MockWritableFile where
  "demo_file = \<lparr>wf_last_preallocated_block = 0, wf_preallocation_block_size = 0,
    wf_derived = \<lparr>mf_data = [1, 2], mf_fsynced_bytes = 0\<rparr>\<rparr>"

theorem pad_appends_zeros_witness:
  "filesize (snd (WFW_Pad MockWritableFile_ops
    (WritableFileWriter_new MockWritableFile_ops demo_file 1 0) 5)) = 5"
proof -
  let ?w = "WritableFileWriter_new MockWritableFile_ops demo_file 1 0"
  have "wfw_sound ?w" "0 < ab_capacity (buf ?w)" "filesize ?w = 0"
    by (simp_all add: WritableFileWriter_new_def wfw_sound_def AllocateNewBuffer_def Roundup_def
        CurrentSize_def MockWritableFile_ops_def)
  then show ?thesis
    using pad_appends_zeros [of ?w 5] by simp
qed

end
