(* ===== verification/LogWriter.thy ===== *)
theory LogWriter
  imports Crc32c FileIO
begin

text \<open>
  The write-ahead log's format (\<^verbatim>\<open>db/log_format.h\<close>) and its writer
  (\<^verbatim>\<open>db/log_writer.cc\<close>). The file is a sequence of 32 KiB blocks; a record is cut into
  fragments so that none crosses a block boundary, and a block whose rest is smaller than a
  header is filled with zeros. \<open>AddRecord\<close> is parametric in the operations of the file it
  writes to. \<open>record_bytes\<close> is the specification of the format; the writer refines it.
\<close>

section \<open>The format\<close>

definition kZeroType :: u32 where "kZeroType = 0"
definition kFullType :: u32 where "kFullType = 1"
definition kFirstType :: u32 where "kFirstType = 2"
definition kMiddleType :: u32 where "kMiddleType = 3"
definition kLastType :: u32 where "kLastType = 4"
definition kRecyclableFullType :: u32 where "kRecyclableFullType = 5"
definition kRecyclableFirstType :: u32 where "kRecyclableFirstType = 6"
definition kRecyclableMiddleType :: u32 where "kRecyclableMiddleType = 7"
definition kRecyclableLastType :: u32 where "kRecyclableLastType = 8"

lemmas record_type_defs =
  kZeroType_def kFullType_def kFirstType_def kMiddleType_def kLastType_def
  kRecyclableFullType_def kRecyclableFirstType_def kRecyclableMiddleType_def kRecyclableLastType_def

definition kMaxRecordType :: nat where "kMaxRecordType = 8"
definition kBlockSize :: nat where "kBlockSize = 32768"
definition kHeaderSize :: nat where "kHeaderSize = 4 + 2 + 1"
definition kRecyclableHeaderSize :: nat where "kRecyclableHeaderSize = 4 + 2 + 1 + 4"

lemmas log_size_defs = kBlockSize_def kHeaderSize_def kRecyclableHeaderSize_def

section \<open>The writer\<close>

record 'd log_writer =
  dest :: 'd
  block_offset :: nat
  log_number :: u64
  type_crc :: "u32 list"
  recycle_log_files :: bool
  manual_flush :: bool

definition Writer_new :: "'d \<Rightarrow> u64 \<Rightarrow> bool \<Rightarrow> bool \<Rightarrow> 'd log_writer" where
  "Writer_new d log_num recycle manual =
    \<lparr>dest = d, block_offset = 0, log_number = log_num,
     type_crc = map (\<lambda>i. Value [of_nat i]) [0..<Suc kMaxRecordType],
     recycle_log_files = recycle, manual_flush = manual\<rparr>"

definition WriteBuffer :: "('d \<Rightarrow> status \<times> 'd) \<Rightarrow> 'd log_writer \<Rightarrow> status \<times> 'd log_writer" where
  "WriteBuffer flush w = (let (s, d) = flush (dest w) in (s, w\<lparr>dest := d\<rparr>))"

text \<open>
  \<^verbatim>\<open>EmitPhysicalRecord\<close>. The header is the masked checksum, the two bytes of the length,
  the type and, in the recyclable format, the low 32 bits of the log number.
\<close>

definition EmitPhysicalRecord ::
    "('d \<Rightarrow> slice \<Rightarrow> status \<times> 'd) \<Rightarrow> ('d \<Rightarrow> status \<times> 'd) \<Rightarrow> 'd log_writer \<Rightarrow> u32 \<Rightarrow> bytes \<Rightarrow>
     status \<times> 'd log_writer" where
  "EmitPhysicalRecord app flush w t ptr =
    (let n = length ptr;
         b4 = of_nat (n mod 256); b5 = of_nat (n div 256); b6 = ucast t;
         crc0 = type_crc w ! unat t;
         (header_size, crc1, num) =
           (if t < kRecyclableFullType then (kHeaderSize, crc0, [])
            else let num = EncodeFixed32 (ucast (log_number w))
                 in (kRecyclableHeaderSize, Extend crc0 num, num));
         crc = Mask (Extend crc1 ptr);
         (s1, d1) = app (dest w) (EncodeFixed32 crc @ [b4, b5, b6] @ num);
         (s2, d2) = (if ok s1 then app d1 ptr else (s1, d1));
         (s3, d3) = (if ok s1 \<and> ok s2 \<and> \<not> manual_flush w then flush d2 else (s2, d2))
     in (s3, w\<lparr>dest := d3, block_offset := block_offset w + (header_size + n)\<rparr>))"

definition log_header_size :: "bool \<Rightarrow> nat" where
  "log_header_size recycle = (if recycle then kRecyclableHeaderSize else kHeaderSize)"

definition fragment_type :: "bool \<Rightarrow> bool \<Rightarrow> bool \<Rightarrow> u32" where
  "fragment_type recycle begin_rec end_rec =
    (if begin_rec \<and> end_rec then if recycle then kRecyclableFullType else kFullType
     else if begin_rec then if recycle then kRecyclableFirstType else kFirstType
     else if end_rec then if recycle then kRecyclableLastType else kLastType
     else if recycle then kRecyclableMiddleType else kMiddleType)"

text \<open>The switch to a new block at the top of the loop of \<^verbatim>\<open>AddRecord\<close>.\<close>

definition switch_block ::
    "('d \<Rightarrow> slice \<Rightarrow> status \<times> 'd) \<Rightarrow> 'd log_writer \<Rightarrow> status \<Rightarrow> status \<times> 'd log_writer" where
  "switch_block app w s =
    (let leftover = int kBlockSize - int (block_offset w)
     in if leftover < int (log_header_size (recycle_log_files w)) then
          if leftover > 0 then
            let (s1, d) = app (dest w) (replicate (nat leftover) 0)
            in if \<not> ok s1 then (s1, w\<lparr>dest := d\<rparr>) else (s1, w\<lparr>dest := d, block_offset := 0\<rparr>)
          else (s, w\<lparr>block_offset := 0\<rparr>)
        else (s, w))"

lemma switch_block_keeps:
  "recycle_log_files (snd (switch_block app w s)) = recycle_log_files w"
  "log_number (snd (switch_block app w s)) = log_number w"
  "type_crc (snd (switch_block app w s)) = type_crc w"
  "manual_flush (snd (switch_block app w s)) = manual_flush w"
  by (simp_all add: switch_block_def Let_def split_def)

lemma switch_block_offset:
  "ok (fst (switch_block app w s)) \<Longrightarrow>
    block_offset (snd (switch_block app w s)) + log_header_size (recycle_log_files w) \<le> kBlockSize"
  by (auto simp: switch_block_def Let_def split_def log_header_size_def log_size_defs split: if_splits)

lemma switch_block_cases:
  "block_offset (snd (switch_block app w s)) = 0 \<or>
    block_offset (snd (switch_block app w s)) = block_offset w"
  by (simp add: switch_block_def Let_def split_def)

lemma EmitPhysicalRecord_keeps:
  "recycle_log_files (snd (EmitPhysicalRecord app flush w t p)) = recycle_log_files w"
  "log_number (snd (EmitPhysicalRecord app flush w t p)) = log_number w"
  "type_crc (snd (EmitPhysicalRecord app flush w t p)) = type_crc w"
  "manual_flush (snd (EmitPhysicalRecord app flush w t p)) = manual_flush w"
  "block_offset (snd (EmitPhysicalRecord app flush w t p)) =
    block_offset w + ((if t < kRecyclableFullType then kHeaderSize else kRecyclableHeaderSize) + length p)"
  by (simp_all add: EmitPhysicalRecord_def Let_def split_def)

lemma fragment_type_recycle:
  "fragment_type r b e < kRecyclableFullType \<longleftrightarrow> \<not> r"
  by (simp add: fragment_type_def record_type_defs)

text \<open>
  The loop of \<^verbatim>\<open>AddRecord\<close>. It ends because a fragment is empty only when exactly a
  header fits into the block, and then the next fragment starts a new block.
\<close>

function AddRecord_loop ::
    "('d \<Rightarrow> slice \<Rightarrow> status \<times> 'd) \<Rightarrow> ('d \<Rightarrow> status \<times> 'd) \<Rightarrow> 'd log_writer \<Rightarrow> bytes \<Rightarrow> bool \<Rightarrow> status \<Rightarrow>
     status \<times> 'd log_writer" where
  "AddRecord_loop app flush w ptr begin_rec s =
    (let (s1, w1) = switch_block app w s
     in if \<not> ok s1 then (s1, w1)
        else let avail = kBlockSize - block_offset w1 - log_header_size (recycle_log_files w);
                 fragment_length = (if length ptr < avail then length ptr else avail);
                 end_rec = (length ptr = fragment_length);
                 (s2, w2) = EmitPhysicalRecord app flush w1
                              (fragment_type (recycle_log_files w) begin_rec end_rec)
                              (take fragment_length ptr);
                 ptr2 = drop fragment_length ptr
             in if ok s2 \<and> length ptr2 > 0 then AddRecord_loop app flush w2 ptr2 False s2
                else (s2, w2))"
  by pat_completeness auto
termination
proof (relation "measure (\<lambda>(app, flush, w, ptr, b, s). 2 * length ptr +
    (if block_offset w + log_header_size (recycle_log_files w) = kBlockSize then 1 else 0))",
    goal_cases)
  case 1
  show ?case by simp
next
  case (2 app flush w ptr b s x s1 w1 avail n e y s2 w2 ptr2)
  let ?h = "log_header_size (recycle_log_files w)"
  have w1: "block_offset w1 + ?h \<le> kBlockSize" "recycle_log_files w1 = recycle_log_files w"
    using 2 switch_block_offset [of app w s] switch_block_keeps(1) [of app w s]
    by (metis fst_conv snd_conv)+
  have n: "n \<le> length ptr" using 2 by auto
  have e2: "w2 = snd (EmitPhysicalRecord app flush w1 (fragment_type (recycle_log_files w) b e) (take n ptr))"
    using 2 by (metis snd_conv)
  have w2: "recycle_log_files w2 = recycle_log_files w"
    "block_offset w2 = block_offset w1 + (?h + n)"
    using w1 n by (simp_all add: e2 EmitPhysicalRecord_keeps fragment_type_recycle log_header_size_def)
  have "n = (if length ptr < kBlockSize - block_offset w1 - ?h then length ptr else kBlockSize - block_offset w1 - ?h)"
    and "length (drop n ptr) > 0" and "ptr2 = drop n ptr"
    using 2 by simp_all
  moreover have "block_offset w1 = 0 \<or> block_offset w1 = block_offset w"
    using 2 switch_block_cases [of app w s] by (metis snd_conv)
  moreover have "0 < ?h" "?h < kBlockSize"
    by (simp_all add: log_header_size_def log_size_defs)
  ultimately show ?case
    using w1 w2 by (auto split: if_splits)
qed

declare AddRecord_loop.simps [simp del]

definition AddRecord ::
    "('d \<Rightarrow> slice \<Rightarrow> status \<times> 'd) \<Rightarrow> ('d \<Rightarrow> status \<times> 'd) \<Rightarrow> 'd log_writer \<Rightarrow> slice \<Rightarrow>
     status \<times> 'd log_writer" where
  "AddRecord app flush w data = AddRecord_loop app flush w data True Status_OK"

section \<open>The specification of the format\<close>

text \<open>
  A physical record, the zeros that end a block in which no header fits any more, and the
  bytes of a record at position \<open>P\<close> of the file.
\<close>

definition physical_record :: "bool \<Rightarrow> u64 \<Rightarrow> u32 \<Rightarrow> bytes \<Rightarrow> bytes" where
  "physical_record r num t p =
    (let numb = (if r then EncodeFixed32 (ucast num) else [])
     in EncodeFixed32 (Mask (Value (ucast t # numb @ p))) @
        [of_nat (length p mod 256), of_nat (length p div 256), ucast t] @ numb @ p)"

definition block_pad :: "bool \<Rightarrow> nat \<Rightarrow> nat" where
  "block_pad r P =
    (if kBlockSize < P mod kBlockSize + log_header_size r then kBlockSize - P mod kBlockSize else 0)"

definition fragment_room :: "bool \<Rightarrow> nat \<Rightarrow> nat" where
  "fragment_room r P = kBlockSize - P mod kBlockSize - log_header_size r"

lemma header_size_bounds: "7 \<le> log_header_size r" "log_header_size r \<le> 11" "log_header_size r < kBlockSize"
  by (simp_all add: log_header_size_def log_size_defs)

lemma kBlockSize_pos: "0 < kBlockSize" by (simp add: kBlockSize_def)

lemma block_pad_mod:
  "(P + block_pad r P) mod kBlockSize = (if block_pad r P = 0 then P mod kBlockSize else 0)"
  "(P + block_pad r P) mod kBlockSize + log_header_size r \<le> kBlockSize"
proof -
  have "P + (kBlockSize - P mod kBlockSize) = kBlockSize * Suc (P div kBlockSize)"
  proof -
    have "P = kBlockSize * (P div kBlockSize) + P mod kBlockSize" by simp
    then show ?thesis
      using mod_less_divisor [OF kBlockSize_pos, of P] unfolding mult_Suc_right by linarith
  qed
  then have *: "(P + (kBlockSize - P mod kBlockSize)) mod kBlockSize = 0" by simp
  show a: "(P + block_pad r P) mod kBlockSize = (if block_pad r P = 0 then P mod kBlockSize else 0)"
    using * by (auto simp: block_pad_def)
  show "(P + block_pad r P) mod kBlockSize + log_header_size r \<le> kBlockSize"
  proof -
    obtain m where m: "P mod kBlockSize = m" "m < kBlockSize" using kBlockSize_pos by simp
    then have "block_pad r P = 0 \<longleftrightarrow> \<not> kBlockSize < m + log_header_size r"
      by (auto simp: block_pad_def)
    then show ?thesis
      using a m header_size_bounds [of r] by (cases "block_pad r P = 0") simp_all
  qed
qed

lemma advance_mod:
  assumes "P mod kBlockSize + n \<le> kBlockSize"
  shows "(P + n) mod kBlockSize = (if P mod kBlockSize + n = kBlockSize then 0 else P mod kBlockSize + n)"
proof -
  have "(P + n) mod kBlockSize = (P mod kBlockSize + n) mod kBlockSize" by (simp add: mod_add_left_eq)
  then show ?thesis using assms by (cases "P mod kBlockSize + n = kBlockSize") simp_all
qed

function record_bytes :: "bool \<Rightarrow> u64 \<Rightarrow> nat \<Rightarrow> bool \<Rightarrow> bytes \<Rightarrow> bytes" where
  "record_bytes r num P b data =
    (let z = block_pad r P;
         n = min (length data) (fragment_room r (P + z));
         ph = physical_record r num (fragment_type r b (n = length data)) (take n data)
     in replicate z 0 @ ph @
        (if n < length data
         then record_bytes r num (P + z + log_header_size r + n) False (drop n data) else []))"
  by pat_completeness auto
termination
proof (relation "measure (\<lambda>(r, num, P, b, data). 2 * length data +
    (if P mod kBlockSize + log_header_size r = kBlockSize then 1 else 0))", goal_cases)
  case 1
  show ?case by simp
next
  case (2 r num P b data z n ph)
  let ?Q = "P + z"
  have q: "?Q mod kBlockSize = (if z = 0 then P mod kBlockSize else 0)"
    "?Q mod kBlockSize + log_header_size r \<le> kBlockSize"
    using block_pad_mod [of P r] 2 by simp_all
  have n: "n = kBlockSize - ?Q mod kBlockSize - log_header_size r"
    using 2 by (auto simp: fragment_room_def)
  have "(P + z + log_header_size r + n) mod kBlockSize = 0"
    using q(2) n advance_mod [of ?Q "log_header_size r + n"] by (simp add: add.assoc)
  moreover have "n = 0 \<Longrightarrow> P mod kBlockSize + log_header_size r = kBlockSize"
    using n q header_size_bounds(3) [of r] by (cases "z = 0") simp_all
  moreover have "n < length data" using 2 by simp
  ultimately show ?case
    using header_size_bounds(3) [of r] by (cases "n = 0") simp_all
qed

declare record_bytes.simps [simp del]

fun log_bytes :: "bool \<Rightarrow> u64 \<Rightarrow> nat \<Rightarrow> bytes list \<Rightarrow> bytes" where
  "log_bytes r num P [] = []"
| "log_bytes r num P (d # ds) =
    (let b = record_bytes r num P True d in b @ log_bytes r num (P + length b) ds)"

lemma length_physical_record: "length (physical_record r num t p) = log_header_size r + length p"
  by (simp add: physical_record_def log_header_size_def log_size_defs length_EncodeFixed Let_def)

section \<open>The writer refines the format\<close>

definition type_crc_ok :: "u32 list \<Rightarrow> bool" where
  "type_crc_ok c \<longleftrightarrow> c = map (\<lambda>i. Value [of_nat i]) [0..<Suc kMaxRecordType]"

definition writer_ok :: "('d \<Rightarrow> bytes) \<Rightarrow> ('d \<Rightarrow> bool) \<Rightarrow> 'd log_writer \<Rightarrow> bool" where
  "writer_ok held sound w \<longleftrightarrow> sound (dest w) \<and> type_crc_ok (type_crc w) \<and>
    block_offset w \<le> kBlockSize \<and>
    block_offset w mod kBlockSize = length (held (dest w)) mod kBlockSize"

lemma unat_fragment_type: "unat (fragment_type r b e) \<le> kMaxRecordType"
  by (simp add: fragment_type_def record_type_defs kMaxRecordType_def)

lemma type_crc_lookup:
  "type_crc_ok c \<Longrightarrow> c ! unat (fragment_type r b e) = Value [ucast (fragment_type r b e)]"
  using unat_fragment_type [of r b e]
  by (simp add: type_crc_ok_def del: upt_Suc)

context sink
begin

lemma switch_block_sink:
  assumes "writer_ok held sound w" and P: "P = length (held (dest w))"
  shows "ok s \<Longrightarrow> ok (fst (switch_block app w s))"
    and "held (dest (snd (switch_block app w s))) =
      held (dest w) @ replicate (block_pad (recycle_log_files w) P) 0"
    and "sound (dest (snd (switch_block app w s)))"
    and "block_offset (snd (switch_block app w s)) = (P + block_pad (recycle_log_files w) P) mod kBlockSize"
proof -
  let ?h = "log_header_size (recycle_log_files w)"
  have o: "block_offset w \<le> kBlockSize" "block_offset w mod kBlockSize = P mod kBlockSize" "sound (dest w)"
    using assms by (auto simp: writer_ok_def)
  consider (fits) "block_offset w + ?h \<le> kBlockSize" | (full) "block_offset w = kBlockSize"
    | (pad) "kBlockSize < block_offset w + ?h" "block_offset w < kBlockSize"
    using o(1) by linarith
  then have "(ok s \<longrightarrow> ok (fst (switch_block app w s))) \<and>
    held (dest (snd (switch_block app w s))) = held (dest w) @ replicate (block_pad (recycle_log_files w) P) 0 \<and>
    sound (dest (snd (switch_block app w s))) \<and>
    block_offset (snd (switch_block app w s)) = (P + block_pad (recycle_log_files w) P) mod kBlockSize"
  proof cases
    case fits
    then have "P mod kBlockSize = block_offset w"
      using o header_size_bounds(1) [of "recycle_log_files w"] by simp
    then show ?thesis
      using fits o by (simp add: switch_block_def Let_def block_pad_def)
  next
    case full
    then have "P mod kBlockSize = 0" using o by simp
    then show ?thesis
      using full o header_size_bounds [of "recycle_log_files w"]
      by (simp add: switch_block_def Let_def block_pad_def)
  next
    case pad
    then have m: "P mod kBlockSize = block_offset w" using o by simp
    have z: "block_pad (recycle_log_files w) P = kBlockSize - block_offset w"
      using pad m by (simp add: block_pad_def)
    have "(P + block_pad (recycle_log_files w) P) mod kBlockSize = 0"
      using block_pad_mod(1) [of P "recycle_log_files w"] z pad by simp
    moreover have "nat (int kBlockSize - int (block_offset w)) = kBlockSize - block_offset w"
      using o by linarith
    ultimately show ?thesis
      using pad o app_ok app_held app_sound z
      by (simp add: switch_block_def Let_def split_def)
  qed
  then show "ok s \<Longrightarrow> ok (fst (switch_block app w s))"
    and "held (dest (snd (switch_block app w s))) =
      held (dest w) @ replicate (block_pad (recycle_log_files w) P) 0"
    and "sound (dest (snd (switch_block app w s)))"
    and "block_offset (snd (switch_block app w s)) = (P + block_pad (recycle_log_files w) P) mod kBlockSize"
    by blast+
qed

lemma EmitPhysicalRecord_sink:
  assumes "sound (dest w)" and "type_crc_ok (type_crc w)"
    and t: "t = fragment_type (recycle_log_files w) b e"
  shows "ok (fst (EmitPhysicalRecord app flush w t p))"
    and "held (dest (snd (EmitPhysicalRecord app flush w t p))) =
      held (dest w) @ physical_record (recycle_log_files w) (log_number w) t p"
    and "sound (dest (snd (EmitPhysicalRecord app flush w t p)))"
  using assms(1) type_crc_lookup [OF assms(2), of "recycle_log_files w" b e]
    fragment_type_recycle [of "recycle_log_files w" b e]
  by (simp_all add: EmitPhysicalRecord_def Let_def split_def app_ok app_sound app_held
      flush_ok flush_sound flush_held physical_record_def t Value_def Extend_append)

lemma AddRecord_loop_sink:
  assumes "writer_ok held sound w" and "ok s"
  shows "ok (fst (AddRecord_loop app flush w data b s)) \<and>
    held (dest (snd (AddRecord_loop app flush w data b s))) = held (dest w) @
      record_bytes (recycle_log_files w) (log_number w) (length (held (dest w))) b data \<and>
    writer_ok held sound (snd (AddRecord_loop app flush w data b s)) \<and>
    recycle_log_files (snd (AddRecord_loop app flush w data b s)) = recycle_log_files w \<and>
    log_number (snd (AddRecord_loop app flush w data b s)) = log_number w"
  using assms
proof (induction "recycle_log_files w" "log_number w" "length (held (dest w))" b data
    arbitrary: w s rule: record_bytes.induct)
  case (1 b data w s)
  let ?r = "recycle_log_files w" and ?P = "length (held (dest w))"
  let ?h = "log_header_size ?r" and ?z = "block_pad ?r ?P"
  define w1 where "w1 = snd (switch_block app w s)"
  define n where "n = min (length data) (fragment_room ?r (?P + ?z))"
  define t where "t = fragment_type ?r b (n = length data)"
  define w2 where "w2 = snd (EmitPhysicalRecord app flush w1 t (take n data))"
  define s2 where "s2 = fst (EmitPhysicalRecord app flush w1 t (take n data))"
  have keep: "recycle_log_files w1 = ?r" "log_number w1 = log_number w" "type_crc w1 = type_crc w"
    by (simp_all add: w1_def switch_block_keeps)
  note sw = switch_block_sink [OF 1(2) refl, of s, folded w1_def]
  have tc: "type_crc_ok (type_crc w1)" using 1(2) keep by (simp add: writer_ok_def)
  have nl: "n \<le> length data" by (simp add: n_def)
  have t1: "t = fragment_type (recycle_log_files w1) b (n = length data)" by (simp add: t_def keep)
  note em = EmitPhysicalRecord_sink [OF sw(3) tc t1, of "take n data", folded w2_def s2_def]
  have keep2: "recycle_log_files w2 = ?r" "log_number w2 = log_number w" "type_crc w2 = type_crc w"
    "block_offset w2 = block_offset w1 + (?h + n)"
    using nl by (simp_all add: w2_def EmitPhysicalRecord_keeps keep t_def fragment_type_recycle log_header_size_def)
  have h1: "held (dest w1) = held (dest w) @ replicate ?z 0" by (rule sw(2))
  have h2: "held (dest w2) = held (dest w) @ replicate ?z 0 @ physical_record ?r (log_number w) t (take n data)"
    using em(2) h1 keep by simp
  have len2: "length (held (dest w2)) = ?P + ?z + ?h + n"
    using nl by (simp add: h2 length_physical_record)
  have fit: "(?P + ?z) mod kBlockSize + (?h + n) \<le> kBlockSize"
    using block_pad_mod(2) [of ?P ?r] by (simp add: n_def fragment_room_def)
  have ok2: "writer_ok held sound w2"
    using em(3) tc keep keep2(3,4) fit advance_mod [OF fit] sw(4) len2 mod_self [of kBlockSize]
    unfolding writer_ok_def by (simp add: add.assoc)
  have room: "(if length data < kBlockSize - block_offset w1 - ?h then length data
      else kBlockSize - block_offset w1 - ?h) = n"
    by (simp add: sw(4) n_def fragment_room_def)
  have sym: "(length data = n) = (n = length data)" by auto
  have step: "AddRecord_loop app flush w data b s =
      (if 0 < length (drop n data) then AddRecord_loop app flush w2 (drop n data) False s2 else (s2, w2))"
    using sw(1) [OF 1(3)] em(1)
    unfolding AddRecord_loop.simps [of app flush w data b s] Let_def split_def
      w1_def [symmetric] room sym t_def [symmetric] w2_def [symmetric] s2_def [symmetric]
    by (simp only: if_True if_False not_True_eq_False simp_thms surjective_pairing [symmetric]
        s2_def w2_def)
  note rb = record_bytes.simps [of ?r "log_number w" ?P b data, unfolded Let_def, folded n_def, folded t_def]
  show ?case
  proof (cases "n < length data")
    case True
    note IH = 1(1) [OF refl n_def refl True keep2(1)[symmetric] keep2(2)[symmetric] len2[symmetric] ok2 em(1)]
    show ?thesis
      using IH [unfolded len2 keep2, unfolded h2] True by (simp add: step rb)
  next
    case False
    then show ?thesis
      using ok2 em(1) h2 keep2 by (simp add: step rb)
  qed
qed

lemma AddRecord_sink:
  assumes "writer_ok held sound w"
  shows "ok (fst (AddRecord app flush w data)) \<and>
    held (dest (snd (AddRecord app flush w data))) = held (dest w) @
      record_bytes (recycle_log_files w) (log_number w) (length (held (dest w))) True data \<and>
    writer_ok held sound (snd (AddRecord app flush w data)) \<and>
    recycle_log_files (snd (AddRecord app flush w data)) = recycle_log_files w \<and>
    log_number (snd (AddRecord app flush w data)) = log_number w"
  unfolding AddRecord_def by (rule AddRecord_loop_sink) (simp_all add: assms ok_OK)

end

text \<open>A sequence of records, up to the first error.\<close>

fun AddRecords ::
    "('d \<Rightarrow> slice \<Rightarrow> status \<times> 'd) \<Rightarrow> ('d \<Rightarrow> status \<times> 'd) \<Rightarrow> 'd log_writer \<Rightarrow> slice list \<Rightarrow>
     status \<times> 'd log_writer" where
  "AddRecords app flush w [] = (Status_OK, w)"
| "AddRecords app flush w (d # ds) =
    (let (s, w1) = AddRecord app flush w d in if ok s then AddRecords app flush w1 ds else (s, w1))"

context sink
begin

lemma AddRecords_sink:
  "writer_ok held sound w \<Longrightarrow>
    ok (fst (AddRecords app flush w ds)) \<and>
    held (dest (snd (AddRecords app flush w ds))) = held (dest w) @
      log_bytes (recycle_log_files w) (log_number w) (length (held (dest w))) ds \<and>
    writer_ok held sound (snd (AddRecords app flush w ds))"
proof (induction ds arbitrary: w)
  case Nil
  then show ?case by (simp add: ok_OK)
next
  case (Cons d ds)
  then show ?case
    using AddRecord_sink [OF Cons.prems, of d] Cons.IH [of "snd (AddRecord app flush w d)"]
    by (simp add: Let_def split_def)
qed

end

section \<open>Properties\<close>

definition empty_mock_file :: MockWritableFile where
  "empty_mock_file = \<lparr>wf_last_preallocated_block = 0, wf_preallocation_block_size = 0,
    wf_derived = \<lparr>mf_data = [], mf_fsynced_bytes = 0\<rparr>\<rparr>"

text \<open>
  What is in the file after the records have been added by a new log writer over a new
  buffered writer of an empty file, and its buffer has been flushed.
\<close>

definition written_log :: "nat \<Rightarrow> nat \<Rightarrow> u64 \<Rightarrow> bool \<Rightarrow> bool \<Rightarrow> slice list \<Rightarrow> status \<times> status \<times> bytes" where
  "written_log max_buffer bps num recycle manual recs =
    (let d = WritableFileWriter_new MockWritableFile_ops empty_mock_file max_buffer bps;
         (s, w) = AddRecords (WFW_Append MockWritableFile_ops) (WFW_Flush MockWritableFile_ops)
                    (Writer_new d num recycle manual) recs;
         (s', w') = WriteBuffer (WFW_Flush MockWritableFile_ops) w
     in (s, s', mf_data (wf_derived (writable_file (dest w')))))"

lemma writer_ok_new:
  assumes "sound d" and "held d = []"
  shows "writer_ok held sound (Writer_new d num r m)"
  using assms by (simp add: writer_ok_def Writer_new_def type_crc_ok_def del: upt_Suc)

lemma written_log_bytes:
  "ok (fst (written_log mb bps num r manual recs))"
  "ok (fst (snd (written_log mb bps num r manual recs)))"
  "snd (snd (written_log mb bps num r manual recs)) = log_bytes r num 0 recs"
proof -
  let ?data = "\<lambda>f. mf_data (wf_derived f)"
  let ?d = "WritableFileWriter_new MockWritableFile_ops empty_mock_file mb bps"
  let ?w = "Writer_new ?d num r manual"
  have al: "0 < wf_alignment MockWritableFile_ops" by (simp add: MockWritableFile_ops_def)
  note new = WritableFileWriter_new_props [OF al, of empty_mock_file mb bps]
  have h: "wfw_held ?data ?d = []" using new by (simp add: wfw_held_def empty_mock_file_def)
  have wok: "writer_ok (wfw_held ?data) wfw_sound ?w" using new h by (intro writer_ok_new)
  have fields: "recycle_log_files ?w = r" "log_number ?w = num" "dest ?w = ?d"
    by (simp_all add: Writer_new_def)
  show "ok (fst (written_log mb bps num r manual recs))"
    and "ok (fst (snd (written_log mb bps num r manual recs)))"
    and "snd (snd (written_log mb bps num r manual recs)) = log_bytes r num 0 recs"
    using mock_writable.wfw.AddRecords_sink [OF wok, of recs] h fields
    by (simp_all add: written_log_def WriteBuffer_def Let_def split_def
        mock_writable.WFW_Flush_props wfw_held_def)
qed

text \<open>
  C9: for every sequence of records, every buffer size, sync interval and flush mode,
  and both formats, adding the records to a new log succeeds and leaves in the file
  exactly the bytes of the format.
\<close>

theorem log_writer_refines_format:
  "\<exists>s s'. written_log mb bps num r manual recs = (s, s', log_bytes r num 0 recs) \<and> ok s \<and> ok s'"
  using written_log_bytes [of mb bps num r manual recs]
  by (cases "written_log mb bps num r manual recs") auto

end
