(* ===== verification/LogReader.thy ===== *)
theory LogReader
  imports LogWriter
begin

text \<open>
  The write-ahead log's reader (\<^verbatim>\<open>db/log_reader.cc\<close>): \<open>ReadMore\<close>, \<open>UnmarkEOF\<close>,
  \<open>ReadPhysicalRecord\<close> and \<open>ReadRecord\<close>, parametric in the read operation of the file.
  The two loops may run for ever (a reader that retries after the end of a file that never
  grows), so they are partial functions. The lemmas follow the reader over a file that holds
  a prefix of what the writer wrote.
\<close>

section \<open>The reader's state\<close>

datatype WALRecoveryMode =
  kTolerateCorruptedTailRecords | kAbsoluteConsistency | kPointInTimeRecovery | kSkipAnyCorruptedRecords

text \<open>
  \<open>reporter\<close> is the list of the calls \<^verbatim>\<open>reporter_->Corruption(bytes, status)\<close>, or
  \<open>None\<close> for a null reporter.
\<close>

record 'f log_reader =
  rfile :: 'f
  reporter :: "(nat \<times> status) list option"
  verify_checksum :: bool
  rbuffer :: slice
  eof :: bool
  read_error :: bool
  eof_offset :: nat
  last_record_offset :: nat
  end_of_buffer_offset :: nat
  rlog_number :: u64
  recycled :: bool
  retry_after_eof :: bool

definition Reader_new ::
    "'f \<Rightarrow> (nat \<times> status) list option \<Rightarrow> bool \<Rightarrow> u64 \<Rightarrow> bool \<Rightarrow> 'f log_reader" where
  "Reader_new file rep chk log_num retry =
    \<lparr>rfile = file, reporter = rep, verify_checksum = chk, rbuffer = [], eof = False,
     read_error = False, eof_offset = 0, last_record_offset = 0, end_of_buffer_offset = 0,
     rlog_number = log_num, recycled = False, retry_after_eof = retry\<rparr>"

definition LastRecordOffset :: "'f log_reader \<Rightarrow> nat" where
  "LastRecordOffset r = last_record_offset r"

text \<open>The special values that extend the record types.\<close>

definition kEof :: u32 where "kEof = 9"
definition kBadRecord :: u32 where "kBadRecord = 10"
definition kBadHeader :: u32 where "kBadHeader = 11"
definition kOldRecord :: u32 where "kOldRecord = 12"
definition kBadRecordLen :: u32 where "kBadRecordLen = 13"
definition kBadRecordChecksum :: u32 where "kBadRecordChecksum = 14"

lemmas special_type_defs =
  kEof_def kBadRecord_def kBadHeader_def kOldRecord_def kBadRecordLen_def kBadRecordChecksum_def

section \<open>Reading physical records\<close>

definition ReportDrop :: "'f log_reader \<Rightarrow> nat \<Rightarrow> status \<Rightarrow> 'f log_reader" where
  "ReportDrop r n reason = r\<lparr>reporter := map_option (\<lambda>l. l @ [(n, reason)]) (reporter r)\<rparr>"

definition ReportCorruption :: "'f log_reader \<Rightarrow> nat \<Rightarrow> string \<Rightarrow> 'f log_reader" where
  "ReportCorruption r n reason = ReportDrop r n (Corruption reason)"

text \<open>
  \<^verbatim>\<open>UnmarkEOF\<close>: the rest of the last block is read behind what is left in the buffer.
  (In \<^verbatim>\<open>backing_store_\<close> the unread bytes of the buffer start at
  \<^verbatim>\<open>eof_offset_ - buffer_.size()\<close> and the new bytes at \<^verbatim>\<open>eof_offset_\<close>, so the new
  buffer is the old one followed by the new bytes.)
\<close>

definition UnmarkEOF :: "('f \<Rightarrow> nat \<Rightarrow> status \<times> slice \<times> 'f) \<Rightarrow> 'f log_reader \<Rightarrow> 'f log_reader" where
  "UnmarkEOF rd r =
    (if read_error r then r
     else let r0 = r\<lparr>eof := False\<rparr>
          in if \<not> retry_after_eof r0 \<and> eof_offset r0 = 0 then r0
             else let remaining = kBlockSize - eof_offset r0;
                      (s, read_buffer, f) = rd (rfile r0) remaining;
                      added = length read_buffer;
                      r1 = r0\<lparr>rfile := f, end_of_buffer_offset := end_of_buffer_offset r0 + added\<rparr>
                  in if \<not> ok s then
                       let r2 = (if added > 0 then ReportDrop r1 added s else r1)
                       in r2\<lparr>read_error := True\<rparr>
                     else let r2 = r1\<lparr>rbuffer := rbuffer r1 @ read_buffer\<rparr>
                          in if added < remaining
                             then r2\<lparr>eof := True, eof_offset := eof_offset r2 + added\<rparr>
                             else r2\<lparr>eof_offset := 0\<rparr>)"

text \<open>
  \<^verbatim>\<open>ReadMore\<close> returns whether to go on, and if not the drop size and the code to return.
\<close>

definition ReadMore ::
    "('f \<Rightarrow> nat \<Rightarrow> status \<times> slice \<times> 'f) \<Rightarrow> 'f log_reader \<Rightarrow> nat \<Rightarrow> bool \<times> nat \<times> u32 \<times> 'f log_reader" where
  "ReadMore rd r drop_size =
    (if \<not> eof r \<and> \<not> read_error r then
       let (s, b, f) = rd (rfile r) kBlockSize;
           r1 = r\<lparr>rfile := f, rbuffer := b, end_of_buffer_offset := end_of_buffer_offset r + length b\<rparr>
       in if \<not> ok s then
            let r2 = ReportDrop (r1\<lparr>rbuffer := []\<rparr>) kBlockSize s
            in (False, drop_size, kEof, r2\<lparr>read_error := True\<rparr>)
          else if length b < kBlockSize then
            (True, drop_size, kEof, r1\<lparr>eof := True, eof_offset := length b\<rparr>)
          else (True, drop_size, kEof, r1)
     else if retry_after_eof r \<and> \<not> read_error r then
       let r1 = UnmarkEOF rd r in (\<not> read_error r1, drop_size, kEof, r1)
     else if length (rbuffer r) > 0 then
       (False, length (rbuffer r), kBadHeader, r\<lparr>rbuffer := []\<rparr>)
     else (False, drop_size, kEof, r))"

definition header_type :: "slice \<Rightarrow> u32" where
  "header_type header = scast (header ! 6)"

definition header_length :: "slice \<Rightarrow> nat" where
  "header_length header = unat (header ! 4) + 256 * unat (header ! 5)"

definition is_recyclable_type :: "u32 \<Rightarrow> bool" where
  "is_recyclable_type t \<longleftrightarrow> kRecyclableFullType \<le> t \<and> t \<le> kRecyclableLastType"

text \<open>
  \<^verbatim>\<open>ReadPhysicalRecord\<close>: the code or the type, the payload, the drop size and the reader.
\<close>

partial_function (option) ReadPhysicalRecord ::
    "('f \<Rightarrow> nat \<Rightarrow> status \<times> slice \<times> 'f) \<Rightarrow> 'f log_reader \<Rightarrow> nat \<Rightarrow> (u32 \<times> slice \<times> nat \<times> 'f log_reader) option" where
  "ReadPhysicalRecord rd r drop_size =
    (if length (rbuffer r) < kHeaderSize then
       (case ReadMore rd r drop_size of (go_on, d, code, r1) \<Rightarrow>
          if \<not> go_on then Some (code, [], d, r1) else ReadPhysicalRecord rd r1 d)
     else
       let header = rbuffer r; typ = header_type header; len = header_length header;
           recyclable = is_recyclable_type typ;
           r1 = (if recyclable \<and> end_of_buffer_offset r - length (rbuffer r) = 0
                 then r\<lparr>recycled := True\<rparr> else r);
           header_size = (if recyclable then kRecyclableHeaderSize else kHeaderSize)
       in if recyclable \<and> length (rbuffer r1) < kRecyclableHeaderSize then
            (case ReadMore rd r1 drop_size of (go_on, d, code, r2) \<Rightarrow>
               if \<not> go_on then Some (code, [], d, r2) else ReadPhysicalRecord rd r2 d)
          else if recyclable \<and> ucast (DecodeFixed32 (drop 7 header)) \<noteq> rlog_number r1 then
            Some (kOldRecord, [], drop_size, r1)
          else if header_size + len > length (rbuffer r1) then
            if \<not> retry_after_eof r1 then
              let d = length (rbuffer r1); r2 = r1\<lparr>rbuffer := []\<rparr>
              in if \<not> eof r2 then Some (kBadRecordLen, [], d, r2)
                 else if d \<noteq> 0 then Some (kBadHeader, [], d, r2)
                 else Some (kEof, [], d, r2)
            else
              (case ReadMore rd r1 drop_size of (go_on, d, code, r2) \<Rightarrow>
                 if \<not> go_on then Some (code, [], d, r2) else ReadPhysicalRecord rd r2 d)
          else if typ = kZeroType \<and> len = 0 then
            Some (kBadRecord, [], drop_size, r1\<lparr>rbuffer := []\<rparr>)
          else if verify_checksum r1 \<and>
              Value (take (len + header_size - 6) (drop 6 header)) \<noteq> Unmask (DecodeFixed32 header) then
            Some (kBadRecordChecksum, [], length (rbuffer r1), r1\<lparr>rbuffer := []\<rparr>)
          else Some (typ, take len (drop header_size header), drop_size,
                     r1\<lparr>rbuffer := drop (header_size + len) (rbuffer r1)\<rparr>))"

section \<open>Reading logical records\<close>

definition unknown_record_type :: "u32 \<Rightarrow> string" where
  "unknown_record_type t = ''unknown record type '' @ decimal (unat t)"

text \<open>
  The switch of \<^verbatim>\<open>ReadRecord\<close>: an iteration either returns (whether a record was read,
  the record, the scratch string and the reader) or goes on with the loop's variables.
\<close>

datatype 'f rr_step =
  Return bool slice bytes "'f log_reader"
| Continue "'f log_reader" bool bytes nat

definition ReadRecord_switch ::
    "WALRecoveryMode \<Rightarrow> bool \<Rightarrow> bytes \<Rightarrow> nat \<Rightarrow> nat \<Rightarrow> u32 \<Rightarrow> slice \<Rightarrow> nat \<Rightarrow> 'f log_reader \<Rightarrow> 'f rr_step" where
  "ReadRecord_switch mode in_frag scratch prospective physical_record_offset typ fragment drop_size r =
    (if typ = kFullType \<or> typ = kRecyclableFullType then
       let r1 = (if in_frag \<and> scratch \<noteq> []
                 then ReportCorruption r (length scratch) ''partial record without end(1)'' else r)
       in Return True fragment [] (r1\<lparr>last_record_offset := physical_record_offset\<rparr>)
     else if typ = kFirstType \<or> typ = kRecyclableFirstType then
       let r1 = (if in_frag \<and> scratch \<noteq> []
                 then ReportCorruption r (length scratch) ''partial record without end(2)'' else r)
       in Continue r1 True fragment physical_record_offset
     else if typ = kMiddleType \<or> typ = kRecyclableMiddleType then
       if \<not> in_frag then
         Continue (ReportCorruption r (length fragment) ''missing start of fragmented record(1)'')
           in_frag scratch prospective
       else Continue r in_frag (scratch @ fragment) prospective
     else if typ = kLastType \<or> typ = kRecyclableLastType then
       if \<not> in_frag then
         Continue (ReportCorruption r (length fragment) ''missing start of fragmented record(2)'')
           in_frag scratch prospective
       else Return True (scratch @ fragment) (scratch @ fragment) (r\<lparr>last_record_offset := prospective\<rparr>)
     else if typ = kBadHeader \<or> typ = kEof then
       let r1 = (if typ = kBadHeader \<and> mode = kAbsoluteConsistency
                 then ReportCorruption r drop_size ''truncated header'' else r);
           r2 = (if in_frag \<and> mode = kAbsoluteConsistency
                 then ReportCorruption r1 (length scratch) ''error reading trailing data'' else r1)
       in Return False [] (if in_frag then [] else scratch) r2
     else if typ = kOldRecord \<and> mode \<noteq> kSkipAnyCorruptedRecords then
       let r1 = (if in_frag \<and> mode = kAbsoluteConsistency
                 then ReportCorruption r (length scratch) ''error reading trailing data'' else r)
       in Return False [] (if in_frag then [] else scratch) r1
     else if typ = kOldRecord \<or> typ = kBadRecord then
       if in_frag then
         Continue (ReportCorruption r (length scratch) ''error in middle of record'') False [] prospective
       else Continue r in_frag scratch prospective
     else if typ = kBadRecordLen \<or> typ = kBadRecordChecksum then
       if recycled r \<and> mode = kTolerateCorruptedTailRecords then Return False [] [] r
       else let r1 = ReportCorruption r drop_size
                       (if typ = kBadRecordLen then ''bad record length'' else ''checksum mismatch'')
            in if in_frag then
                 Continue (ReportCorruption r1 (length scratch) ''error in middle of record'') False [] prospective
               else Continue r1 in_frag scratch prospective
     else
       Continue (ReportCorruption r (length fragment + (if in_frag then length scratch else 0))
                  (unknown_record_type typ))
         False [] prospective)"

partial_function (option) ReadRecord_loop ::
    "('f \<Rightarrow> nat \<Rightarrow> status \<times> slice \<times> 'f) \<Rightarrow> WALRecoveryMode \<Rightarrow> 'f log_reader \<Rightarrow> bool \<Rightarrow> bytes \<Rightarrow> nat \<Rightarrow>
     (bool \<times> slice \<times> bytes \<times> 'f log_reader) option" where
  "ReadRecord_loop rd mode r in_frag scratch prospective =
    (case ReadPhysicalRecord rd r 0 of
       None \<Rightarrow> None
     | Some (typ, fragment, drop_size, r1) \<Rightarrow>
         (case ReadRecord_switch mode in_frag scratch prospective
                 (end_of_buffer_offset r - length (rbuffer r)) typ fragment drop_size r1 of
            Return b record scratch1 r2 \<Rightarrow> Some (b, record, scratch1, r2)
          | Continue r2 in_frag1 scratch1 prospective1 \<Rightarrow>
              ReadRecord_loop rd mode r2 in_frag1 scratch1 prospective1))"

definition ReadRecord ::
    "('f \<Rightarrow> nat \<Rightarrow> status \<times> slice \<times> 'f) \<Rightarrow> WALRecoveryMode \<Rightarrow> 'f log_reader \<Rightarrow>
     (bool \<times> slice \<times> bytes \<times> 'f log_reader) option" where
  "ReadRecord rd mode r = ReadRecord_loop rd mode r False [] 0"

section \<open>Following the reader through a file\<close>

text \<open>
  \<open>reader_at rest F P r\<close>: the file holds \<open>F\<close> and the reader has consumed its first \<open>P\<close>
  bytes. Its buffer is the rest of the block, or is empty at a block boundary or at the end.
\<close>

definition next_block :: "nat \<Rightarrow> nat" where
  "next_block P = P + (kBlockSize - P mod kBlockSize)"

definition reader_at :: "('f \<Rightarrow> bytes) \<Rightarrow> bytes \<Rightarrow> nat \<Rightarrow> 'f log_reader \<Rightarrow> bool" where
  "reader_at rest F P r \<longleftrightarrow>
    (let E = end_of_buffer_offset r
     in \<not> retry_after_eof r \<and> \<not> read_error r \<and> P \<le> E \<and> E \<le> length F \<and>
        rbuffer r = take (E - P) (drop P F) \<and> rest (rfile r) = drop E F \<and>
        (if P < E then E = min (length F) (next_block P) \<and> (eof r \<longleftrightarrow> length F < next_block P)
         else (eof r \<longrightarrow> E = length F) \<and> (\<not> eof r \<longrightarrow> P mod kBlockSize = 0)))"

text \<open>The fields that reading a sound record does not change.\<close>

definition same_reader :: "'f log_reader \<Rightarrow> 'f log_reader \<Rightarrow> bool" where
  "same_reader r r' \<longleftrightarrow> reporter r' = reporter r \<and> verify_checksum r' = verify_checksum r \<and>
    rlog_number r' = rlog_number r"

lemma same_reader_refl: "same_reader r r"
  by (simp add: same_reader_def)

lemma same_reader_trans: "same_reader r r' \<Longrightarrow> same_reader r' r'' \<Longrightarrow> same_reader r r''"
  by (simp add: same_reader_def)

lemma next_block_gt: "P < next_block P"
  using mod_less_divisor [OF kBlockSize_pos, of P] by (simp add: next_block_def)

lemma next_block_mod: "next_block P mod kBlockSize = 0"
proof -
  have "P = kBlockSize * (P div kBlockSize) + P mod kBlockSize" by simp
  then have "next_block P = kBlockSize * Suc (P div kBlockSize)"
    using mod_less_divisor [OF kBlockSize_pos, of P] unfolding next_block_def mult_Suc_right by linarith
  then show ?thesis by simp
qed

lemma next_block_add: "P mod kBlockSize + n < kBlockSize \<Longrightarrow> next_block (P + n) = next_block P"
  using advance_mod [of P n] by (simp add: next_block_def)

lemma next_block_start: "P mod kBlockSize = 0 \<Longrightarrow> next_block P = P + kBlockSize"
  by (simp add: next_block_def)

lemma next_block_within: "P mod kBlockSize + n \<le> kBlockSize \<longleftrightarrow> P + n \<le> next_block P"
  using mod_less_divisor [OF kBlockSize_pos, of P] unfolding next_block_def by linarith

lemma reader_at_consume:
  assumes at: "reader_at rest F P r" and n: "n \<le> length (rbuffer r)"
  shows "reader_at rest F (P + n) (r\<lparr>rbuffer := drop n (rbuffer r)\<rparr>)"
proof (cases "n = 0")
  case True
  then show ?thesis using at by simp
next
  case False
  let ?E = "end_of_buffer_offset r"
  have E: "P + n \<le> ?E" "P < ?E" "?E \<le> length F" "rbuffer r = take (?E - P) (drop P F)"
    "?E = min (length F) (next_block P)" "eof r \<longleftrightarrow> length F < next_block P"
    using at n False by (auto simp: reader_at_def Let_def split: if_splits)
  have buf: "drop n (rbuffer r) = take (?E - (P + n)) (drop (P + n) F)"
    by (simp add: E(4) drop_take add.commute)
  have nb: "next_block (P + n) = next_block P" if "P + n < ?E"
  proof -
    have "P + n < next_block P" using that E by simp
    then have "P mod kBlockSize + n < kBlockSize"
      using mod_less_divisor [OF kBlockSize_pos, of P] unfolding next_block_def by linarith
    then show ?thesis by (rule next_block_add)
  qed
  have fin: "?E mod kBlockSize = 0" if "\<not> eof r"
    using that E next_block_mod [of P] by (simp add: min_def split: if_splits)
  show ?thesis
    using at E buf nb fin by (auto simp: reader_at_def Let_def min_def split: if_splits)
qed

text \<open>The reader's view of a physical record.\<close>

definition numb :: "bool \<Rightarrow> u64 \<Rightarrow> bytes" where
  "numb rc num = (if rc then EncodeFixed32 (ucast num) else [])"

lemma fragment_type_view:
  "is_recyclable_type (fragment_type rc b e) = rc" "fragment_type rc b e \<noteq> kZeroType"
  by (auto simp: is_recyclable_type_def fragment_type_def record_type_defs word_le_nat_alt)

lemma physical_record_view:
  assumes t_def: "t = fragment_type rc b e" and "length p < 65536"
  shows "header_type (physical_record rc num t p @ S) = t"
    and "header_length (physical_record rc num t p @ S) = length p"
    and "rc \<Longrightarrow> DecodeFixed32 (drop 7 (physical_record rc num t p @ S)) = ucast num"
    and "take (length p + log_header_size rc - 6) (drop 6 (physical_record rc num t p @ S)) = ucast t # numb rc num @ p"
    and "Unmask (DecodeFixed32 (physical_record rc num t p @ S)) = Value (ucast t # numb rc num @ p)"
    and "take (length p) (drop (log_header_size rc) (physical_record rc num t p @ S)) = p"
    and "drop (log_header_size rc + length p) (physical_record rc num t p @ S) = S"
proof -
  let ?c = "EncodeFixed32 (Mask (Value (ucast t # numb rc num @ p)))"
  have ph: "physical_record rc num t p @ S = ?c @
      (of_nat (length p mod 256) # of_nat (length p div 256) # ucast t # numb rc num @ p @ S)"
    by (simp add: physical_record_def numb_def Let_def)
  have ln: "length (numb rc num) + 7 = log_header_size rc"
    by (simp add: numb_def log_header_size_def log_size_defs length_EncodeFixed)
  have nths: "(?c @ x # y # z # q) ! 4 = x" "(?c @ x # y # z # q) ! 5 = y" "(?c @ x # y # z # q) ! 6 = z"
    for x y z :: byte and q
    by (simp_all add: nth_append length_EncodeFixed)
  have drops: "drop 6 (?c @ x # y # z # q) = z # q" "drop 7 (?c @ x # y # z # q) = q" for x y z :: byte and q
    by (simp_all add: length_EncodeFixed)
  have tcast: "scast (ucast t :: byte) = t"
    unfolding t_def fragment_type_def record_type_defs by simp
  show "header_type (physical_record rc num t p @ S) = t"
    by (simp add: header_type_def ph nths tcast)
  show "header_length (physical_record rc num t p @ S) = length p"
    using assms(2) by (simp add: header_length_def ph nths unsigned_of_nat take_bit_nat_eq_self)
  show "rc \<Longrightarrow> DecodeFixed32 (drop 7 (physical_record rc num t p @ S)) = ucast num"
    unfolding ph drops by (simp add: numb_def DecodeFixed32_Encode)
  show "take (length p + log_header_size rc - 6) (drop 6 (physical_record rc num t p @ S)) = ucast t # numb rc num @ p"
    using ln by (simp add: ph drops flip: ln)
  show "Unmask (DecodeFixed32 (physical_record rc num t p @ S)) = Value (ucast t # numb rc num @ p)"
    by (simp add: ph DecodeFixed32_Encode Unmask_Mask)
  let ?h = "?c @ [of_nat (length p mod 256), of_nat (length p div 256), ucast t] @ numb rc num"
  have ph2: "physical_record rc num t p @ S = ?h @ p @ S" by (simp add: ph)
  have len2: "length ?h = log_header_size rc" by (simp add: length_EncodeFixed flip: ln)
  have "drop (log_header_size rc) (physical_record rc num t p @ S) = p @ S"
    unfolding ph2 len2 [symmetric] by (rule drop_append_length) (rule refl)
  then show "take (length p) (drop (log_header_size rc) (physical_record rc num t p @ S)) = p"
    by simp
  show "drop (log_header_size rc + length p) (physical_record rc num t p @ S) = S"
    using drop_append_length [of "?h @ p" "log_header_size rc + length p" S] len2
    by (simp only: ph2 append_assoc length_append)
qed

text \<open>The reader reads the records of its own log number.\<close>

definition reads_number :: "bool \<Rightarrow> u64 \<Rightarrow> 'f log_reader \<Rightarrow> bool" where
  "reads_number rc num r \<longleftrightarrow> (rc \<longrightarrow> ucast (ucast num :: u32) = rlog_number r)"

text \<open>One pass of the loop of \<open>ReadPhysicalRecord\<close> with a header in the buffer.\<close>

lemma ReadPhysicalRecord_parse:
  assumes "\<not> length (rbuffer r) < kHeaderSize" and ty: "header_type (rbuffer r) = t"
    and len: "header_length (rbuffer r) = n" and rc: "is_recyclable_type t = rc"
  obtains x where "ReadPhysicalRecord rd r d =
    (if rc \<and> length (rbuffer r) < kRecyclableHeaderSize then
       (case ReadMore rd (r\<lparr>recycled := x\<rparr>) d of (go_on, d, code, r2) \<Rightarrow>
          if \<not> go_on then Some (code, [], d, r2) else ReadPhysicalRecord rd r2 d)
     else if rc \<and> ucast (DecodeFixed32 (drop 7 (rbuffer r))) \<noteq> rlog_number r then
       Some (kOldRecord, [], d, r\<lparr>recycled := x\<rparr>)
     else if log_header_size rc + n > length (rbuffer r) then
       if \<not> retry_after_eof r then
         if \<not> eof r then Some (kBadRecordLen, [], length (rbuffer r), r\<lparr>recycled := x, rbuffer := []\<rparr>)
         else if length (rbuffer r) \<noteq> 0 then Some (kBadHeader, [], length (rbuffer r), r\<lparr>recycled := x, rbuffer := []\<rparr>)
         else Some (kEof, [], length (rbuffer r), r\<lparr>recycled := x, rbuffer := []\<rparr>)
       else (case ReadMore rd (r\<lparr>recycled := x\<rparr>) d of (go_on, d, code, r2) \<Rightarrow>
               if \<not> go_on then Some (code, [], d, r2) else ReadPhysicalRecord rd r2 d)
     else if t = kZeroType \<and> n = 0 then Some (kBadRecord, [], d, r\<lparr>recycled := x, rbuffer := []\<rparr>)
     else if verify_checksum r \<and>
         Value (take (n + log_header_size rc - 6) (drop 6 (rbuffer r))) \<noteq> Unmask (DecodeFixed32 (rbuffer r)) then
       Some (kBadRecordChecksum, [], length (rbuffer r), r\<lparr>recycled := x, rbuffer := []\<rparr>)
     else Some (t, take n (drop (log_header_size rc) (rbuffer r)), d,
                r\<lparr>recycled := x, rbuffer := drop (log_header_size rc + n) (rbuffer r)\<rparr>))"
proof -
  define x where "x = (if rc \<and> end_of_buffer_offset r - length (rbuffer r) = 0 then True else recycled r)"
  have x: "(if rc \<and> end_of_buffer_offset r - length (rbuffer r) = 0 then r\<lparr>recycled := True\<rparr> else r) =
      r\<lparr>recycled := x\<rparr>"
    by (simp add: x_def)
  have hs: "(if rc then kRecyclableHeaderSize else kHeaderSize) = log_header_size rc"
    by (simp add: log_header_size_def)
  show ?thesis
  proof (rule that [of x], goal_cases)
    case 1
    show ?case
      using assms(1)
      unfolding ReadPhysicalRecord.simps [of rd r d] Let_def ty len rc hs x
      by (simp split del: if_split cong: if_cong)
  qed
qed

lemma ReadPhysicalRecord_full:
  assumes buf: "rbuffer r = physical_record rc num t p @ S"
    and t: "t = fragment_type rc b e" and len: "length p < 65536" and num: "reads_number rc num r"
  obtains x where "ReadPhysicalRecord rd r d = Some (t, p, d, r\<lparr>recycled := x, rbuffer := S\<rparr>)"
proof -
  note view = physical_record_view [OF t len, of num S, folded buf]
  have ty: "is_recyclable_type t = rc" "t \<noteq> kZeroType" by (simp_all add: t fragment_type_view)
  have size: "length (rbuffer r) = log_header_size rc + length p + length S"
    by (simp add: buf length_physical_record)
  have nlt: "\<not> length (rbuffer r) < kHeaderSize"
    using size header_size_bounds(1) [of rc] by (simp add: kHeaderSize_def)
  have nrl: "\<not> (rc \<and> length (rbuffer r) < kRecyclableHeaderSize)"
    using size by (auto simp: log_header_size_def)
  have nold: "\<not> (rc \<and> ucast (DecodeFixed32 (drop 7 (rbuffer r))) \<noteq> rlog_number r)"
    using view(3) num by (auto simp: reads_number_def)
  have nlong: "\<not> log_header_size rc + length p > length (rbuffer r)" by (simp add: size)
  show ?thesis
    by (rule ReadPhysicalRecord_parse [OF nlt view(1,2) ty(1), of rd d])
      (simp only: nrl nold nlong view(4-7) ty(2) simp_thms if_False if_True that)
qed

lemma header_take:
  "7 \<le> k \<Longrightarrow> header_type (take k X) = header_type X"
  "7 \<le> k \<Longrightarrow> header_length (take k X) = header_length X"
  "11 \<le> k \<Longrightarrow> DecodeFixed32 (drop 7 (take k X)) = DecodeFixed32 (drop 7 X)"
  by (simp_all add: header_type_def header_length_def DecodeFixed32_def drop_take)

lemma ReadMore_at_eof:
  "eof r \<Longrightarrow> \<not> retry_after_eof r \<Longrightarrow> rbuffer r \<noteq> [] \<Longrightarrow>
    ReadMore rd r d = (False, length (rbuffer r), kBadHeader, r\<lparr>rbuffer := []\<rparr>)"
  "eof r \<Longrightarrow> \<not> retry_after_eof r \<Longrightarrow> rbuffer r = [] \<Longrightarrow> ReadMore rd r d = (False, d, kEof, r)"
  by (simp_all add: ReadMore_def)

lemma ReadPhysicalRecord_short_eof:
  "eof r \<Longrightarrow> \<not> retry_after_eof r \<Longrightarrow> rbuffer r \<noteq> [] \<Longrightarrow> length (rbuffer r) < 7 \<Longrightarrow>
    ReadPhysicalRecord rd r d = Some (kBadHeader, [], length (rbuffer r), r\<lparr>rbuffer := []\<rparr>)"
  "eof r \<Longrightarrow> \<not> retry_after_eof r \<Longrightarrow> rbuffer r = [] \<Longrightarrow> ReadPhysicalRecord rd r d = Some (kEof, [], d, r)"
  by (simp_all add: ReadPhysicalRecord.simps [of rd r d] kHeaderSize_def ReadMore_at_eof)

lemma ReadPhysicalRecord_zeros:
  assumes "rbuffer r = replicate z 0" and "7 \<le> z"
  shows "ReadPhysicalRecord rd r d = Some (kBadRecord, [], d, r\<lparr>rbuffer := []\<rparr>)"
proof -
  have h: "header_type (rbuffer r) = 0" "header_length (rbuffer r) = 0"
    using assms by (simp_all add: header_type_def header_length_def)
  have "\<not> is_recyclable_type 0"
    by (simp add: is_recyclable_type_def record_type_defs word_le_nat_alt)
  then show ?thesis
    using assms h
    by (simp add: ReadPhysicalRecord.simps [of rd r d] Let_def kHeaderSize_def kZeroType_def)
qed

lemma ReadPhysicalRecord_cut:
  assumes buf: "rbuffer r = take k (physical_record rc num t p)"
    and k: "0 < k" "k < length (physical_record rc num t p)"
    and t: "t = fragment_type rc b e" and len: "length p < 65536" and num: "reads_number rc num r"
    and st: "eof r" "\<not> retry_after_eof r"
  obtains x where "ReadPhysicalRecord rd r d = Some (kBadHeader, [], k, r\<lparr>recycled := x, rbuffer := []\<rparr>)"
proof (cases "k < 7")
  case True
  have ne: "physical_record rc num t p \<noteq> []" using k by auto
  from True have "ReadPhysicalRecord rd r d = Some (kBadHeader, [], k, r\<lparr>rbuffer := []\<rparr>)"
    using ReadPhysicalRecord_short_eof(1) [OF st, of rd d] k ne by (simp add: buf)
  then show ?thesis using that [of "recycled r"] by simp
next
  case False
  note view = physical_record_view [OF t len, of num "[]", unfolded append_Nil2]
  have ty: "is_recyclable_type t = rc" by (simp add: t fragment_type_view)
  have size: "length (rbuffer r) = k" using k by (simp add: buf)
  have hd: "header_type (rbuffer r) = t" "header_length (rbuffer r) = length p"
    using False view by (simp_all add: buf header_take)
  have more: "ReadMore rd (r\<lparr>recycled := x\<rparr>) d = (False, k, kBadHeader, r\<lparr>recycled := x, rbuffer := []\<rparr>)" for x
    using ReadMore_at_eof(1) [of "r\<lparr>recycled := x\<rparr>" rd d] st size k by auto
  have nlt: "\<not> length (rbuffer r) < kHeaderSize"
    using size False by (simp add: kHeaderSize_def)
  have nold: "\<not> (rc \<and> ucast (DecodeFixed32 (drop 7 (rbuffer r))) \<noteq> rlog_number r)"
    if "\<not> (rc \<and> k < kRecyclableHeaderSize)"
    using that view(3) num False
    by (auto simp: reads_number_def buf header_take kRecyclableHeaderSize_def)
  have big: "log_header_size rc + length p > k"
    using k by (simp add: length_physical_record)
  show ?thesis
  proof (rule ReadPhysicalRecord_parse [OF nlt hd ty, of rd d], goal_cases)
    case (1 x)
    have "ReadPhysicalRecord rd r d = Some (kBadHeader, [], k, r\<lparr>recycled := x, rbuffer := []\<rparr>)"
    proof (cases "rc \<and> k < kRecyclableHeaderSize")
      case True
      then show ?thesis unfolding 1 size more by simp
    next
      case False
      show ?thesis
        using k(1) unfolding 1 size by (simp only: False neq0_conv nold [OF False] big st simp_thms if_True if_False)
    qed
    then show ?case by (rule that)
  qed
qed

lemma reader_at_recycled:
  "reader_at rest F P (r\<lparr>recycled := x, rbuffer := b\<rparr>) = reader_at rest F P (r\<lparr>rbuffer := b\<rparr>)"
  by (simp add: reader_at_def)

lemma same_reader_update: "same_reader r (r\<lparr>recycled := x, rbuffer := b\<rparr>)" "same_reader r (r\<lparr>rbuffer := b\<rparr>)"
  by (simp_all add: same_reader_def)

lemma reads_number_same: "same_reader r r' \<Longrightarrow> reads_number rc num r \<Longrightarrow> reads_number rc num r'"
  by (simp add: same_reader_def reads_number_def)

lemma reader_at_buffer:
  assumes "reader_at rest F P r" and "P < end_of_buffer_offset r"
  shows "rbuffer r = take (next_block P - P) (drop P F)"
    and "eof r \<longleftrightarrow> length F < next_block P" and "\<not> retry_after_eof r"
    and "end_of_buffer_offset r = min (length F) (next_block P)"
  using assms by (auto simp: reader_at_def Let_def min_def split: if_splits)

lemma reader_at_all: "reader_at rest F P r \<Longrightarrow> drop P F = [] \<Longrightarrow> P = length F"
  by (auto simp: reader_at_def Let_def)

lemma ReadPhysicalRecord_more:
  "length (rbuffer r) < 7 \<Longrightarrow> ReadMore rd r d = (True, d, c, r') \<Longrightarrow>
    ReadPhysicalRecord rd r d = ReadPhysicalRecord rd r' d"
  by (simp add: ReadPhysicalRecord.simps [of rd r d] kHeaderSize_def)

text \<open>The switch of \<open>ReadRecord\<close> on the codes that reading a prefix of a log meets.\<close>

definition run_step ::
    "('f \<Rightarrow> nat \<Rightarrow> status \<times> slice \<times> 'f) \<Rightarrow> WALRecoveryMode \<Rightarrow> 'f rr_step \<Rightarrow>
     (bool \<times> slice \<times> bytes \<times> 'f log_reader) option" where
  "run_step rd mode st =
    (case st of Return b x s r \<Rightarrow> Some (b, x, s, r)
     | Continue r f s p \<Rightarrow> ReadRecord_loop rd mode r f s p)"

lemma ReadRecord_loop_step:
  "ReadPhysicalRecord rd r 0 = Some (t, p, d, r') \<Longrightarrow>
    ReadRecord_loop rd mode r frg sc pr =
    run_step rd mode (ReadRecord_switch mode frg sc pr (end_of_buffer_offset r - length (rbuffer r)) t p d r')"
  by (simp add: ReadRecord_loop.simps [of rd mode r] run_step_def)

lemma switch_fragment:
  "\<not> frg \<Longrightarrow> ReadRecord_switch mode frg sc pr po (fragment_type rc True True) p d r =
    Return True p [] (r\<lparr>last_record_offset := po\<rparr>)"
  "\<not> frg \<Longrightarrow> ReadRecord_switch mode frg sc pr po (fragment_type rc True False) p d r = Continue r True p po"
  "frg \<Longrightarrow> ReadRecord_switch mode frg sc pr po (fragment_type rc False False) p d r = Continue r True (sc @ p) pr"
  "frg \<Longrightarrow> ReadRecord_switch mode frg sc pr po (fragment_type rc False True) p d r =
    Return True (sc @ p) (sc @ p) (r\<lparr>last_record_offset := pr\<rparr>)"
  by (cases rc; simp add: ReadRecord_switch_def fragment_type_def record_type_defs)+

lemma switch_end:
  assumes "mode \<noteq> kAbsoluteConsistency \<or> c = kEof \<and> \<not> frg" and "c = kEof \<or> c = kBadHeader"
  shows "ReadRecord_switch mode frg sc pr po c p d r = Return False [] (if frg then [] else sc) r"
  using assms by (auto simp: ReadRecord_switch_def record_type_defs special_type_defs Let_def)

lemma switch_bad_record:
  "\<not> frg \<Longrightarrow> ReadRecord_switch mode frg sc pr po kBadRecord p d r = Continue r frg sc pr"
  by (simp add: ReadRecord_switch_def record_type_defs special_type_defs)

lemma reader_at_last_offset: "reader_at rest F P (r\<lparr>last_record_offset := x\<rparr>) = reader_at rest F P r"
  by (simp add: reader_at_def)

lemma same_reader_last_offset: "same_reader r (q\<lparr>last_record_offset := x\<rparr>) = same_reader r q"
  by (simp add: same_reader_def)

lemma block_pad_next:
  assumes "block_pad rc P \<noteq> 0"
  shows "P + block_pad rc P = next_block P" and "block_pad rc P < 11" and "block_pad rc P < kBlockSize"
  using assms header_size_bounds [of rc]
  by (auto simp: block_pad_def next_block_def kBlockSize_def split: if_splits)

context seq_source
begin

lemma ReadMore_reads:
  assumes at: "reader_at rest F P r" and "\<not> eof r"
  obtains r' where "ReadMore rd r d = (True, d, kEof, r')"
    and "reader_at rest F (end_of_buffer_offset r) r'" and "same_reader r r'"
    and "end_of_buffer_offset r < length F \<longrightarrow> end_of_buffer_offset r < end_of_buffer_offset r'"
    and "end_of_buffer_offset r = length F \<longrightarrow> eof r' \<and> end_of_buffer_offset r' = length F"
proof -
  let ?E = "end_of_buffer_offset r"
  let ?b = "take kBlockSize (drop ?E F)"
  have st: "\<not> retry_after_eof r" "\<not> read_error r" "?E \<le> length F" "rest (rfile r) = drop ?E F"
    using at by (auto simp: reader_at_def Let_def)
  have m: "?E mod kBlockSize = 0"
    using at assms(2) next_block_mod [of P]
    by (auto simp: reader_at_def Let_def min_def split: if_splits)
  define r1 where "r1 = r\<lparr>rfile := snd (snd (rd (rfile r) kBlockSize)), rbuffer := ?b,
      end_of_buffer_offset := ?E + length ?b\<rparr>"
  define r' where "r' = (if length ?b < kBlockSize then r1\<lparr>eof := True, eof_offset := length ?b\<rparr> else r1)"
  have rd: "ok (fst (rd (rfile r) kBlockSize))" "fst (snd (rd (rfile r) kBlockSize)) = ?b"
    "rest (snd (snd (rd (rfile r) kBlockSize))) = drop kBlockSize (drop ?E F)"
    using st by (simp_all add: rd_ok rd_data rd_rest)
  have "ReadMore rd r d = (True, d, kEof, r')"
    using assms(2) st(2) rd(1,2)
    by (simp add: ReadMore_def Let_def split_def r'_def r1_def)
  moreover have "reader_at rest F ?E r'"
    using st m rd(3) assms(2) kBlockSize_pos
    by (auto simp: reader_at_def Let_def r'_def r1_def next_block_start min_def add.commute)
  moreover have "same_reader r r'" by (simp add: same_reader_def r'_def r1_def)
  moreover have "?E < length F \<longrightarrow> ?E < end_of_buffer_offset r'"
    using kBlockSize_pos by (simp add: r'_def r1_def)
  moreover have "?E = length F \<longrightarrow> eof r' \<and> end_of_buffer_offset r' = length F"
    using kBlockSize_pos by (simp add: r'_def r1_def)
  ultimately show ?thesis using that by blast
qed

lemma phys_at_end:
  assumes at: "reader_at rest F (length F) r"
  obtains r' where "ReadPhysicalRecord rd r d = Some (kEof, [], d, r')"
    and "reader_at rest F (length F) r'" and "same_reader r r'"
proof -
  have e: "rbuffer q = []" "end_of_buffer_offset q = length F" "\<not> retry_after_eof q"
    if "reader_at rest F (length F) q" for q
    using that by (auto simp: reader_at_def Let_def)
  show ?thesis
  proof (cases "eof r")
    case True
    then show ?thesis
      using that [OF ReadPhysicalRecord_short_eof(2) at same_reader_refl] e [OF at] by blast
  next
    case False
    obtain r' where r: "ReadMore rd r d = (True, d, kEof, r')"
      "reader_at rest F (end_of_buffer_offset r) r'" "same_reader r r'"
      "end_of_buffer_offset r < length F \<longrightarrow> end_of_buffer_offset r < end_of_buffer_offset r'"
      "end_of_buffer_offset r = length F \<longrightarrow> eof r' \<and> end_of_buffer_offset r' = length F"
      by (rule ReadMore_reads [OF at False, of d])
    then have r': "ReadMore rd r d = (True, d, kEof, r')" "reader_at rest F (length F) r'"
      "same_reader r r'" "eof r'"
      using e [OF at] by simp_all
    then have "ReadPhysicalRecord rd r d = Some (kEof, [], d, r')"
      using ReadPhysicalRecord_more [OF _ r'(1)] ReadPhysicalRecord_short_eof(2) [OF r'(4)] e [OF at] e [OF r'(2)]
      by simp
    then show ?thesis using that r' by blast
  qed
qed

lemma phys_ready:
  assumes at: "reader_at rest F P r" and "P < length F"
  obtains r' where "ReadPhysicalRecord rd r d = ReadPhysicalRecord rd r' d"
    and "reader_at rest F P r'" and "P < end_of_buffer_offset r'" and "same_reader r r'"
proof (cases "P < end_of_buffer_offset r")
  case True
  then show ?thesis using that [OF refl at True same_reader_refl] by blast
next
  case False
  then have e: "end_of_buffer_offset r = P" "rbuffer r = []" "\<not> eof r"
    using assms by (auto simp: reader_at_def Let_def)
  obtain r' where r: "ReadMore rd r d = (True, d, kEof, r')"
    "reader_at rest F (end_of_buffer_offset r) r'" "same_reader r r'"
    "end_of_buffer_offset r < length F \<longrightarrow> end_of_buffer_offset r < end_of_buffer_offset r'"
    "end_of_buffer_offset r = length F \<longrightarrow> eof r' \<and> end_of_buffer_offset r' = length F"
    by (rule ReadMore_reads [OF at e(3), of d])
  then have r': "ReadMore rd r d = (True, d, kEof, r')" "reader_at rest F P r'"
    "same_reader r r'" "P < end_of_buffer_offset r'"
    using e assms(2) by simp_all
  then show ?thesis
    using that [OF ReadPhysicalRecord_more [OF _ r'(1)] r'(2,4,3)] e by simp
qed

lemma phys_record_at:
  assumes at: "reader_at rest F P r" and F: "drop P F = physical_record rc num t p @ S"
    and fit: "P + length (physical_record rc num t p) \<le> next_block P"
    and t: "t = fragment_type rc b e" and len: "length p < 65536" and num: "reads_number rc num r"
  obtains r' where "ReadPhysicalRecord rd r d = Some (t, p, d, r')"
    and "reader_at rest F (P + length (physical_record rc num t p)) r'" and "same_reader r r'"
proof -
  let ?ph = "physical_record rc num t p"
  have "0 < length ?ph" using header_size_bounds(1) [of rc] by (simp add: length_physical_record)
  then have lt: "P < length F" using F by (cases "P < length F") simp_all
  obtain q where q: "ReadPhysicalRecord rd r d = ReadPhysicalRecord rd q d" "reader_at rest F P q"
    "P < end_of_buffer_offset q" "same_reader r q"
    by (rule phys_ready [OF at lt, of d])
  let ?S = "take (next_block P - P - length ?ph) S"
  have buf: "rbuffer q = ?ph @ ?S" using reader_at_buffer(1) [OF q(2,3)] F fit by simp
  obtain x where x: "ReadPhysicalRecord rd q d = Some (t, p, d, q\<lparr>recycled := x, rbuffer := ?S\<rparr>)"
    by (rule ReadPhysicalRecord_full [OF buf t len reads_number_same [OF q(4) num]])
  have "reader_at rest F (P + length ?ph) (q\<lparr>rbuffer := ?S\<rparr>)"
    using reader_at_consume [OF q(2), of "length ?ph"] buf by simp
  then have "reader_at rest F (P + length ?ph) (q\<lparr>recycled := x, rbuffer := ?S\<rparr>)"
    by (simp only: reader_at_recycled)
  then show ?thesis
    using that q(1) x same_reader_trans [OF q(4) same_reader_update(1)] by simp
qed

lemma phys_cut_at:
  assumes at: "reader_at rest F P r" and F: "drop P F = take k (physical_record rc num t p)"
    and k: "k < length (physical_record rc num t p)"
    and fit: "P + length (physical_record rc num t p) \<le> next_block P"
    and t: "t = fragment_type rc b e" and len: "length p < 65536" and num: "reads_number rc num r"
  obtains dd r' where
    "ReadPhysicalRecord rd r d = Some (if k = 0 then kEof else kBadHeader, [], dd, r')" and "same_reader r r'"
proof (cases "k = 0")
  case True
  then have "reader_at rest F (length F) r" using reader_at_all [OF at] F at by simp
  then obtain r' where "ReadPhysicalRecord rd r d = Some (kEof, [], d, r')" "same_reader r r'"
    by (rule phys_at_end [of F r d])
  then show ?thesis using that True by simp
next
  case False
  have lenF: "length F = P + k" using arg_cong [OF F, of length] k False by (simp add: min_def split: if_splits)
  have lt: "P < length F" using lenF False by simp
  obtain q where q: "ReadPhysicalRecord rd r d = ReadPhysicalRecord rd q d" "reader_at rest F P q"
    "P < end_of_buffer_offset q" "same_reader r q"
    by (rule phys_ready [OF at lt, of d])
  note b = reader_at_buffer [OF q(2,3)]
  have kn: "min (next_block P - P) k = k" using fit k by linarith
  have buf: "rbuffer q = take k (physical_record rc num t p)" using b(1) F by (simp add: kn)
  have eof: "eof q" using b(2) fit k lenF by simp
  have k0: "0 < k" using False by simp
  obtain x where "ReadPhysicalRecord rd q d = Some (kBadHeader, [], k, q\<lparr>recycled := x, rbuffer := []\<rparr>)"
    by (rule ReadPhysicalRecord_cut [OF buf k0 k t len reads_number_same [OF q(4) num] eof b(3)])
  then show ?thesis
    using that q(1) False same_reader_trans [OF q(4) same_reader_update(1)] by simp
qed

lemma pad_buffered:
  assumes at: "reader_at rest F P r" and z: "P + z = next_block P" "z < kBlockSize" and "P < length F"
  shows "P < end_of_buffer_offset r"
  using assms next_block_start [of P] by (auto simp: reader_at_def Let_def split: if_splits)

lemma phys_pad_small:
  assumes at: "reader_at rest F P r" and F: "drop P F = replicate z 0 @ S"
    and z: "P + z = next_block P" "0 < z" "z < 7"
  obtains r' where "ReadPhysicalRecord rd r d = ReadPhysicalRecord rd r' d"
    and "reader_at rest F (P + z) r'" and "same_reader r r'"
proof -
  have lt: "P < length F" using F z by (cases "P < length F") simp_all
  have zB: "z < kBlockSize" using z by (simp add: kBlockSize_def)
  note b = reader_at_buffer [OF at pad_buffered [OF at z(1) zB lt]]
  have lenF: "P + z \<le> length F" using arg_cong [OF F, of length] lt by simp
  have eof: "\<not> eof r" using b(2) lenF z by simp
  have E: "end_of_buffer_offset r = P + z" using b(4) lenF z by simp
  have short: "length (rbuffer r) < 7" using b(1) z by simp
  obtain r' where "ReadMore rd r d = (True, d, kEof, r')"
    "reader_at rest F (end_of_buffer_offset r) r'" "same_reader r r'"
    by (rule ReadMore_reads [OF at eof, of d])
  then show ?thesis
    using that [OF ReadPhysicalRecord_more [OF short]] E by simp
qed

lemma phys_pad_big:
  assumes at: "reader_at rest F P r" and F: "drop P F = replicate k 0 @ S"
    and z: "P + z = next_block P" "z < kBlockSize" "k = z \<or> S = []" "k \<le> z" and "7 \<le> k"
  obtains r' where "ReadPhysicalRecord rd r d = Some (kBadRecord, [], d, r')"
    and "reader_at rest F (P + k) r'" and "same_reader r r'"
proof -
  have lt: "P < length F" using F assms(7) by (cases "P < length F") simp_all
  note b = reader_at_buffer [OF at pad_buffered [OF at z(1,2) lt]]
  have buf: "rbuffer r = replicate k 0"
    using b(1) F z by (auto simp: min_def)
  have "ReadPhysicalRecord rd r d = Some (kBadRecord, [], d, r\<lparr>rbuffer := []\<rparr>)"
    by (rule ReadPhysicalRecord_zeros [OF buf assms(7)])
  moreover have "reader_at rest F (P + k) (r\<lparr>rbuffer := []\<rparr>)"
    using reader_at_consume [OF at, of k] buf by simp
  ultimately show ?thesis using that same_reader_update(2) by blast
qed

lemma phys_pad_cut:
  assumes at: "reader_at rest F P r" and F: "drop P F = replicate k 0"
    and z: "P + z = next_block P" "z < kBlockSize" "k < z" and "k < 7"
  obtains dd r' where
    "ReadPhysicalRecord rd r d = Some (if k = 0 then kEof else kBadHeader, [], dd, r')" and "same_reader r r'"
proof (cases "k = 0")
  case True
  then have "reader_at rest F (length F) r" using reader_at_all [OF at] F at by simp
  then obtain r' where "ReadPhysicalRecord rd r d = Some (kEof, [], d, r')" "same_reader r r'"
    by (rule phys_at_end [of F r d])
  then show ?thesis using that True by simp
next
  case False
  have lenF: "length F = P + k" using arg_cong [OF F, of length] False by simp
  have lt: "P < length F" using lenF False by simp
  note b = reader_at_buffer [OF at pad_buffered [OF at z(1,2) lt]]
  have buf: "rbuffer r = replicate k 0" using b(1) F z by (auto simp: min_def)
  have "eof r" using b(2) lenF z by simp
  then have "ReadPhysicalRecord rd r d = Some (kBadHeader, [], k, r\<lparr>rbuffer := []\<rparr>)"
    using ReadPhysicalRecord_short_eof(1) [OF _ b(3), of rd d] buf False assms(6) by simp
  then show ?thesis using that False by (simp add: same_reader_update)
qed

text \<open>One fragment with the zeros before it, whole or cut off.\<close>

lemma frag_step:
  assumes at: "reader_at rest F P r"
    and F: "drop P F = replicate (block_pad rc P) 0 @ physical_record rc num t p @ S"
    and frg: "frg \<Longrightarrow> block_pad rc P = 0"
    and fit: "P + block_pad rc P + length (physical_record rc num t p) \<le> next_block (P + block_pad rc P)"
    and t: "t = fragment_type rc b e" and len: "length p < 65536" and num: "reads_number rc num r"
  obtains r' po where
    "ReadRecord_loop rd mode r frg sc pr = run_step rd mode (ReadRecord_switch mode frg sc pr po t p 0 r')"
    and "reader_at rest F (P + block_pad rc P + length (physical_record rc num t p)) r'"
    and "same_reader r r'"
proof -
  note fin = that
  let ?z = "block_pad rc P" and ?ph = "physical_record rc num t p"
  have F': "drop (P + ?z) F = ?ph @ S" using F by (metis add.commute drop_append_length drop_drop length_replicate)
  have rec: thesis if q: "reader_at rest F (P + ?z) q" "same_reader r q"
    and go: "\<And>d r'. ReadPhysicalRecord rd q 0 = Some (t, p, d, r') \<Longrightarrow>
      \<exists>po. ReadRecord_loop rd mode r frg sc pr = run_step rd mode (ReadRecord_switch mode frg sc pr po t p d r')"
    for q
  proof -
    obtain r' where r': "ReadPhysicalRecord rd q 0 = Some (t, p, 0, r')"
      "reader_at rest F (P + ?z + length ?ph) r'" "same_reader q r'"
      by (rule phys_record_at [OF q(1) F' fit t len reads_number_same [OF q(2) num]])
    then obtain po where
      "ReadRecord_loop rd mode r frg sc pr = run_step rd mode (ReadRecord_switch mode frg sc pr po t p 0 r')"
      using go by blast
    then show thesis using fin r' same_reader_trans [OF q(2)] by blast
  qed
  consider "?z = 0" | "0 < ?z" "?z < 7" | "7 \<le> ?z" by linarith
  then show thesis
  proof cases
    case 1
    then show thesis
      using rec [of r] at same_reader_refl ReadRecord_loop_step by fastforce
  next
    case 2
    then have nz: "?z \<noteq> 0" by simp
    obtain q where q: "ReadPhysicalRecord rd r 0 = ReadPhysicalRecord rd q 0"
      "reader_at rest F (P + ?z) q" "same_reader r q"
      by (rule phys_pad_small [OF at F block_pad_next(1) [OF nz] 2])
    then show thesis
      using rec [of q] ReadRecord_loop_step by fastforce
  next
    case 3
    then have nz: "?z \<noteq> 0" and ni: "\<not> frg" using frg by auto
    obtain q where q: "ReadPhysicalRecord rd r 0 = Some (kBadRecord, [], 0, q)"
      "reader_at rest F (P + ?z) q" "same_reader r q"
      by (rule phys_pad_big [OF at F block_pad_next(1,3) [OF nz] disjI1 [OF refl] order_refl 3])
    have "ReadRecord_loop rd mode r frg sc pr = ReadRecord_loop rd mode q frg sc pr"
      by (simp add: ReadRecord_loop_step [OF q(1)] switch_bad_record [OF ni] run_step_def)
    then show thesis
      using rec [of q] q(2,3) ReadRecord_loop_step by fastforce
  qed
qed

lemma loop_ends:
  assumes "ReadPhysicalRecord rd r 0 = Some (c, x, d, r')" and "c = kEof \<or> c = kBadHeader"
    and "mode \<noteq> kAbsoluteConsistency \<or> c = kEof \<and> \<not> frg"
  shows "ReadRecord_loop rd mode r frg sc pr = Some (False, [], if frg then [] else sc, r')"
  by (simp add: ReadRecord_loop_step [OF assms(1)] switch_end [OF assms(3,2)] run_step_def)

lemma frag_cut:
  assumes at: "reader_at rest F P r"
    and F: "drop P F = take k (replicate (block_pad rc P) 0 @ physical_record rc num t p)"
    and k: "k < block_pad rc P + length (physical_record rc num t p)"
    and frg: "frg \<Longrightarrow> block_pad rc P = 0"
    and fit: "P + block_pad rc P + length (physical_record rc num t p) \<le> next_block (P + block_pad rc P)"
    and t: "t = fragment_type rc b e" and len: "length p < 65536" and num: "reads_number rc num r"
    and mode: "mode \<noteq> kAbsoluteConsistency \<or> k = 0 \<and> \<not> frg"
  shows "\<exists>sc' r'. ReadRecord_loop rd mode r frg sc pr = Some (False, [], sc', r') \<and> same_reader r r'"
proof -
  let ?z = "block_pad rc P" and ?ph = "physical_record rc num t p"
  have rec: "\<exists>dd r'. ReadPhysicalRecord rd q 0 = Some (if k - ?z = 0 then kEof else kBadHeader, [], dd, r') \<and>
      same_reader r r'"
    if kz: "?z \<le> k" and q: "reader_at rest F (P + ?z) q" "same_reader r q" for q
  proof -
    have "drop P F = replicate ?z 0 @ take (k - ?z) ?ph" using F kz by simp
    then have F': "drop (P + ?z) F = take (k - ?z) ?ph"
      by (metis add.commute drop_append_length drop_drop length_replicate)
    have k': "k - ?z < length ?ph" using k kz by simp
    obtain dd r' where "ReadPhysicalRecord rd q 0 = Some (if k - ?z = 0 then kEof else kBadHeader, [], dd, r')"
      "same_reader q r'"
      by (rule phys_cut_at [OF q(1) F' k' fit t len reads_number_same [OF q(2) num]])
    then show ?thesis using same_reader_trans [OF q(2)] by blast
  qed
  have m: "mode \<noteq> kAbsoluteConsistency \<or> (if k - ?z = 0 then kEof else kBadHeader) = kEof \<and> \<not> frg"
    using mode by auto
  have kz: "?z \<le> k \<Longrightarrow> drop P F = replicate ?z 0 @ take (k - ?z) ?ph" using F by simp
  consider (none) "?z = 0" | (small) "0 < ?z" "?z < 7" "?z \<le> k" | (big) "7 \<le> ?z" "?z \<le> k"
    | (cut) "k < ?z" "k < 7" | (cutbig) "k < ?z" "7 \<le> k"
    by linarith
  then show ?thesis
  proof cases
    case none
    then show ?thesis
      using rec [of r] at same_reader_refl loop_ends [OF _ _ m] by fastforce
  next
    case small
    then have nz: "?z \<noteq> 0" by simp
    obtain q where q: "ReadPhysicalRecord rd r 0 = ReadPhysicalRecord rd q 0"
      "reader_at rest F (P + ?z) q" "same_reader r q"
      by (rule phys_pad_small [OF at kz [OF small(3)] block_pad_next(1) [OF nz] small(1,2)])
    then show ?thesis
      using rec [of q] small(3) loop_ends [OF _ _ m] by fastforce
  next
    case big
    then have nz: "?z \<noteq> 0" and ni: "\<not> frg" using frg by auto
    obtain q where q: "ReadPhysicalRecord rd r 0 = Some (kBadRecord, [], 0, q)"
      "reader_at rest F (P + ?z) q" "same_reader r q"
      by (rule phys_pad_big [OF at kz [OF big(2)] block_pad_next(1,3) [OF nz] disjI1 [OF refl] order_refl big(1)])
    have "ReadRecord_loop rd mode r frg sc pr = ReadRecord_loop rd mode q frg sc pr"
      by (simp add: ReadRecord_loop_step [OF q(1)] switch_bad_record [OF ni] run_step_def)
    then show ?thesis
      using rec [of q] q(2,3) big(2) loop_ends [OF _ _ m] by fastforce
  next
    case cut
    then have nz: "?z \<noteq> 0" and ni: "\<not> frg" using frg by auto
    have F': "drop P F = replicate k 0" using F cut by simp
    obtain dd r' where "ReadPhysicalRecord rd r 0 = Some (if k = 0 then kEof else kBadHeader, [], dd, r')"
      "same_reader r r'"
      by (rule phys_pad_cut [OF at F' block_pad_next(1,3) [OF nz] cut])
    then show ?thesis
      using loop_ends [of r _ _ _ r' mode frg sc pr] mode ni by (cases "k = 0") auto
  next
    case cutbig
    then have nz: "?z \<noteq> 0" and ni: "\<not> frg" using frg by auto
    have F': "drop P F = replicate k 0 @ []" using F cutbig by simp
    obtain q where q: "ReadPhysicalRecord rd r 0 = Some (kBadRecord, [], 0, q)"
      "reader_at rest F (P + k) q" "same_reader r q"
      by (rule phys_pad_big [OF at F' block_pad_next(1,3) [OF nz] disjI2 [OF refl] less_imp_le [OF cutbig(1)] cutbig(2)])
    have "P + k = length F" using arg_cong [OF F', of length] cutbig by simp
    then obtain r' where r': "ReadPhysicalRecord rd q 0 = Some (kEof, [], 0, r')" "same_reader q r'"
      using phys_at_end [of F q 0] q(2) by auto
    have "ReadRecord_loop rd mode r frg sc pr = ReadRecord_loop rd mode q frg sc pr"
      by (simp add: ReadRecord_loop_step [OF q(1)] switch_bad_record [OF ni] run_step_def)
    then show ?thesis
      using loop_ends [OF r'(1), of mode frg sc pr] ni same_reader_trans [OF q(3) r'(2)] by auto
  qed
qed

end

section \<open>Reading what was written\<close>

lemma block_pad_start: "P mod kBlockSize = 0 \<Longrightarrow> block_pad rc P = 0"
  using header_size_bounds(3) [of rc] by (simp add: block_pad_def)

text \<open>The first fragment of a record at position \<open>P\<close>, unfolded once for both lemmas.\<close>

lemma record_bytes_first:
  assumes z_def: "z = block_pad rc P"
    and n_def: "n = min (length data) (fragment_room rc (P + z))"
    and t_def: "t = fragment_type rc b (n = length data)"
    and ph_def: "ph = physical_record rc num t (take n data)"
  shows "record_bytes rc num P b data = replicate z 0 @ ph @
      (if n < length data then record_bytes rc num (P + z + log_header_size rc + n) False (drop n data) else [])"
    and "P + z + length ph \<le> next_block (P + z)"
    and "length (take n data) < 65536"
    and "P + z + log_header_size rc + n = P + z + length ph"
    and "n < length data \<Longrightarrow> (P + z + length ph) mod kBlockSize = 0"
proof -
  have n: "n \<le> length data" by (simp add: n_def)
  show "record_bytes rc num P b data = replicate z 0 @ ph @
      (if n < length data then record_bytes rc num (P + z + log_header_size rc + n) False (drop n data) else [])"
    by (simp add: record_bytes.simps [of rc num P b data] Let_def z_def n_def t_def ph_def)
  show len: "P + z + log_header_size rc + n = P + z + length ph"
    using n by (simp add: ph_def length_physical_record)
  have fit: "(P + z) mod kBlockSize + (log_header_size rc + n) \<le> kBlockSize"
    using block_pad_mod(2) [of P rc] by (simp add: n_def z_def fragment_room_def)
  then show "P + z + length ph \<le> next_block (P + z)"
    using len next_block_within [of "P + z" "log_header_size rc + n"] by simp
  have "n \<le> kBlockSize" by (simp add: n_def fragment_room_def)
  then show "length (take n data) < 65536" by (simp add: kBlockSize_def)
  show "(P + z + length ph) mod kBlockSize = 0" if "n < length data"
  proof -
    have "n = fragment_room rc (P + z)" using that by (simp add: n_def)
    then have "(P + z) mod kBlockSize + (log_header_size rc + n) = kBlockSize"
      using block_pad_mod(2) [of P rc] by (simp add: fragment_room_def z_def)
    then show ?thesis using advance_mod [OF fit] len by simp
  qed
qed

context seq_source
begin

lemma read_record:
  assumes "reader_at rest F P r" and "drop P F = record_bytes rc num P b data @ S"
    and "\<not> b \<Longrightarrow> P mod kBlockSize = 0" and "reads_number rc num r"
  shows "\<exists>sc' r'. ReadRecord_loop rd mode r (\<not> b) sc pr = Some (True, (if b then [] else sc) @ data, sc', r') \<and>
    reader_at rest F (P + length (record_bytes rc num P b data)) r' \<and> same_reader r r'"
  using assms
proof (induction rc num P b data arbitrary: r sc pr rule: record_bytes.induct)
  case (1 rc num P b data r sc pr)
  define z where "z = block_pad rc P"
  define n where "n = min (length data) (fragment_room rc (P + z))"
  define t where "t = fragment_type rc b (n = length data)"
  define ph where "ph = physical_record rc num t (take n data)"
  define more where "more = (if n < length data
    then record_bytes rc num (P + z + log_header_size rc + n) False (drop n data) else [])"
  note first = record_bytes_first [OF z_def n_def t_def ph_def, folded more_def]
  have F: "drop P F = replicate z 0 @ ph @ more @ S" using 1(3) first(1) by simp
  have frg: "\<not> b \<Longrightarrow> z = 0" using 1(4) block_pad_start by (simp add: z_def)
  obtain r' po where r': "ReadRecord_loop rd mode r (\<not> b) sc pr =
      run_step rd mode (ReadRecord_switch mode (\<not> b) sc pr po t (take n data) 0 r')"
    "reader_at rest F (P + z + length ph) r'" "same_reader r r'"
    by (rule frag_step [OF 1(2) F [unfolded z_def ph_def] frg [unfolded z_def] first(2) [unfolded z_def ph_def]
          t_def first(3) 1(5), folded z_def, folded ph_def])
  show ?case
  proof (cases "n < length data")
    case False
    then have n: "n = length data" "take n data = data" "more = []"
      using n_def by (auto simp: more_def)
    have t: "t = fragment_type rc b True" by (simp add: t_def n)
    have step: "ReadRecord_loop rd mode r (\<not> b) sc pr = Some (True, (if b then [] else sc) @ data,
        if b then [] else sc @ data, r'\<lparr>last_record_offset := if b then po else pr\<rparr>)"
      unfolding r'(1) t by (cases b) (simp_all add: n run_step_def switch_fragment)
    show ?thesis
      using r'(2,3) unfolding step first(1) n(3)
      by (simp add: reader_at_last_offset same_reader_last_offset add.assoc)
  next
    case True
    have F': "drop (P + z + log_header_size rc + n) F =
        record_bytes rc num (P + z + log_header_size rc + n) False (drop n data) @ S"
    proof -
      have "drop (length (replicate z 0 @ ph)) (drop P F) = more @ S"
        unfolding F by simp
      then have "drop (P + z + length ph) F = more @ S" by (simp add: add.commute add.left_commute)
      then show ?thesis using True by (simp only: more_def first(4) if_True)
    qed
    have at': "reader_at rest F (P + z + log_header_size rc + n) r'" using r'(2) by (simp only: first(4))
    have m0: "(P + z + log_header_size rc + n) mod kBlockSize = 0" using first(5) [OF True] by (simp only: first(4))
    note IH = 1(1) [OF z_def n_def ph_def [unfolded t_def] True at' F' m0 reads_number_same [OF r'(3) 1(5)]]
    have t: "t = fragment_type rc b False" using True by (simp add: t_def)
    have len: "length (record_bytes rc num P b data) = z + length ph +
        length (record_bytes rc num (P + z + log_header_size rc + n) False (drop n data))"
      using first(1) True by (simp add: more_def)
    have step: "ReadRecord_loop rd mode r (\<not> b) sc pr = ReadRecord_loop rd mode r' True
        ((if b then [] else sc) @ take n data) (if b then po else pr)"
      unfolding r'(1) t by (cases b) (simp_all add: run_step_def switch_fragment)
    obtain sc' q where q: "ReadRecord_loop rd mode r' True ((if b then [] else sc) @ take n data) (if b then po else pr) =
        Some (True, ((if b then [] else sc) @ take n data) @ drop n data, sc', q)"
      "reader_at rest F (P + z + log_header_size rc + n +
        length (record_bytes rc num (P + z + log_header_size rc + n) False (drop n data))) q" "same_reader r' q"
      using IH [of "(if b then [] else sc) @ take n data" "if b then po else pr"] by auto
    moreover have "P + z + log_header_size rc + n +
        length (record_bytes rc num (P + z + log_header_size rc + n) False (drop n data)) =
        P + length (record_bytes rc num P b data)"
      using first(4) len by linarith
    ultimately show ?thesis
      using same_reader_trans [OF r'(3) q(3)] by (simp add: step)
  qed
qed

lemma cut_record:
  assumes "reader_at rest F P r" and "drop P F = take k (record_bytes rc num P b data)"
    and "k < length (record_bytes rc num P b data)"
    and "\<not> b \<Longrightarrow> P mod kBlockSize = 0" and "reads_number rc num r"
    and "mode \<noteq> kAbsoluteConsistency \<or> k = 0 \<and> b"
  shows "\<exists>sc' r'. ReadRecord_loop rd mode r (\<not> b) sc pr = Some (False, [], sc', r') \<and> same_reader r r'"
  using assms
proof (induction rc num P b data arbitrary: k r sc pr rule: record_bytes.induct)
  case (1 rc num P b data k r sc pr)
  define z where "z = block_pad rc P"
  define n where "n = min (length data) (fragment_room rc (P + z))"
  define t where "t = fragment_type rc b (n = length data)"
  define ph where "ph = physical_record rc num t (take n data)"
  define more where "more = (if n < length data
    then record_bytes rc num (P + z + log_header_size rc + n) False (drop n data) else [])"
  note first = record_bytes_first [OF z_def n_def t_def ph_def, folded more_def]
  have frg: "\<not> b \<Longrightarrow> z = 0" using 1(5) block_pad_start by (simp add: z_def)
  have F: "drop P F = take k ((replicate z 0 @ ph) @ more)" using 1(3) first(1) by simp
  show ?case
  proof (cases "k < z + length ph")
    case True
    then have F1: "drop P F = take k (replicate z 0 @ ph)" using F by simp
    show ?thesis
      using frag_cut [OF 1(2) F1 [unfolded z_def ph_def] True [unfolded z_def ph_def] frg [unfolded z_def]
          first(2) [unfolded z_def ph_def] t_def first(3) 1(6), where mode = mode and sc = sc and pr = pr] 1(7) by blast
  next
    case False
    let ?k = "k - (z + length ph)"
    have F1: "drop P F = replicate z 0 @ ph @ take ?k more" using F False by simp
    have k: "?k < length more" using 1(4) first(1) False by simp
    then have n: "n < length data" by (auto simp: more_def split: if_splits)
    have mode: "mode \<noteq> kAbsoluteConsistency"
    proof -
      have "0 < length ph" using header_size_bounds(1) [of rc] by (simp add: ph_def length_physical_record)
      then show ?thesis using 1(7) False by auto
    qed
    obtain r' po where r': "ReadRecord_loop rd mode r (\<not> b) sc pr =
        run_step rd mode (ReadRecord_switch mode (\<not> b) sc pr po t (take n data) 0 r')"
      "reader_at rest F (P + z + length ph) r'" "same_reader r r'"
      by (rule frag_step [OF 1(2) F1 [unfolded z_def ph_def] frg [unfolded z_def] first(2) [unfolded z_def ph_def]
            t_def first(3) 1(6), folded z_def, folded ph_def])
    have F': "drop (P + z + log_header_size rc + n) F =
        take ?k (record_bytes rc num (P + z + log_header_size rc + n) False (drop n data))"
    proof -
      have "drop (length (replicate z 0 @ ph)) (drop P F) = take ?k more"
        unfolding F1 by simp
      then have "drop (P + z + length ph) F = take ?k more" by (simp add: add.commute add.left_commute)
      then show ?thesis using n by (simp only: more_def first(4) if_True)
    qed
    have at': "reader_at rest F (P + z + log_header_size rc + n) r'" using r'(2) by (simp only: first(4))
    have m0: "(P + z + log_header_size rc + n) mod kBlockSize = 0" using first(5) [OF n] by (simp only: first(4))
    have k': "?k < length (record_bytes rc num (P + z + log_header_size rc + n) False (drop n data))"
      using k n by (simp add: more_def)
    have t: "t = fragment_type rc b False" using n by (simp add: t_def)
    have step: "ReadRecord_loop rd mode r (\<not> b) sc pr = ReadRecord_loop rd mode r' (\<not> False)
        ((if b then [] else sc) @ take n data) (if b then po else pr)"
      unfolding r'(1) t by (cases b) (simp_all add: run_step_def switch_fragment)
    show ?thesis
      using 1(1) [OF z_def n_def ph_def [unfolded t_def] n at' F' k' m0 reads_number_same [OF r'(3) 1(6)] disjI1 [OF mode],
          of "(if b then [] else sc) @ take n data" "if b then po else pr"]
        same_reader_trans [OF r'(3)] unfolding step by blast
  qed
qed

end

text \<open>The loop of a client that replays a log: every record, until \<open>ReadRecord\<close> returns false.\<close>

partial_function (option) ReadAll ::
    "('f \<Rightarrow> nat \<Rightarrow> status \<times> slice \<times> 'f) \<Rightarrow> WALRecoveryMode \<Rightarrow> 'f log_reader \<Rightarrow> slice list \<Rightarrow>
     (slice list \<times> 'f log_reader) option" where
  "ReadAll rd mode r acc =
    (case ReadRecord rd mode r of
       None \<Rightarrow> None
     | Some (b, rec, scratch, r1) \<Rightarrow> if b then ReadAll rd mode r1 (acc @ [rec]) else Some (acc, r1))"

lemma log_bytes_append:
  "log_bytes rc num P (xs @ ys) = log_bytes rc num P xs @ log_bytes rc num (P + length (log_bytes rc num P xs)) ys"
  by (induction xs arbitrary: P) (simp_all add: Let_def add.assoc)

context seq_source
begin

lemma read_all:
  assumes "reader_at rest F P r" and "drop P F = take k (log_bytes rc num P ds)" and "reads_number rc num r"
    and "mode \<noteq> kAbsoluteConsistency \<or> length (log_bytes rc num P ds) \<le> k"
  shows "\<exists>j r'. ReadAll rd mode r acc = Some (acc @ take j ds, r') \<and> same_reader r r' \<and> j \<le> length ds \<and>
    length (log_bytes rc num P (take j ds)) \<le> k \<and>
    (j < length ds \<longrightarrow> k < length (log_bytes rc num P (take (Suc j) ds)))"
  using assms
proof (induction ds arbitrary: P k r acc)
  case Nil
  have "P = length F" by (rule reader_at_all [OF Nil(1)]) (simp add: Nil(2))
  with Nil(1) have "reader_at rest F (length F) r" by simp
  then obtain r' where "ReadPhysicalRecord rd r 0 = Some (kEof, [], 0, r')" "same_reader r r'"
    by (rule phys_at_end [of F r 0])
  then show ?case
    using loop_ends [of r kEof "[]" 0 r' mode False "[]" 0]
    by (simp add: ReadAll.simps [of rd mode r acc] ReadRecord_def)
next
  case (Cons d ds)
  let ?b = "record_bytes rc num P True d"
  show ?case
  proof (cases "length ?b \<le> k")
    case True
    have F: "drop P F = ?b @ take (k - length ?b) (log_bytes rc num (P + length ?b) ds)"
      using Cons.prems(2) True by (simp add: Let_def)
    obtain sc q where q: "ReadRecord rd mode r = Some (True, d, sc, q)" "reader_at rest F (P + length ?b) q" "same_reader r q"
      using read_record [OF Cons.prems(1) F _ Cons.prems(3), of mode "[]" 0] by (auto simp: ReadRecord_def)
    have F': "drop (P + length ?b) F = take (k - length ?b) (log_bytes rc num (P + length ?b) ds)"
      using arg_cong [OF F, of "drop (length ?b)"] by (simp add: add.commute)
    have m: "mode \<noteq> kAbsoluteConsistency \<or> length (log_bytes rc num (P + length ?b) ds) \<le> k - length ?b"
      using Cons.prems(4) True by (auto simp: Let_def)
    obtain j r' where j: "ReadAll rd mode q (acc @ [d]) = Some ((acc @ [d]) @ take j ds, r')" "same_reader q r'"
      "j \<le> length ds" "length (log_bytes rc num (P + length ?b) (take j ds)) \<le> k - length ?b"
      "j < length ds \<longrightarrow> k - length ?b < length (log_bytes rc num (P + length ?b) (take (Suc j) ds))"
      using Cons.IH [OF q(2) F' reads_number_same [OF q(3) Cons.prems(3)] m, of "acc @ [d]"] by (elim exE conjE)
    have "ReadAll rd mode r acc = Some (acc @ take (Suc j) (d # ds), r')"
      by (simp add: ReadAll.simps [of rd mode r acc] q(1) j(1))
    then show ?thesis
      using True same_reader_trans [OF q(3) j(2)] j(3-5)
      by (intro exI [of _ "Suc j"] exI [of _ r']) (simp add: Let_def, linarith)
  next
    case False
    have F: "drop P F = take k ?b" using Cons.prems(2) False by (simp add: Let_def)
    have m: "mode \<noteq> kAbsoluteConsistency \<or> k = 0 \<and> True"
      using Cons.prems(4) False by (auto simp: Let_def)
    obtain sc r' where "ReadRecord rd mode r = Some (False, [], sc, r')" "same_reader r r'"
      using cut_record [OF Cons.prems(1) F _ _ Cons.prems(3) m, of "[]" 0] False by (auto simp: ReadRecord_def)
    then show ?thesis
      using False by (intro exI [of _ 0] exI [of _ r']) (simp add: ReadAll.simps [of rd mode r acc] Let_def)
  qed
qed

lemma read_all_complete:
  assumes "reader_at rest F P r" and "drop P F = log_bytes rc num P ds" and "reads_number rc num r"
  shows "\<exists>r'. ReadAll rd mode r acc = Some (acc @ ds, r') \<and> same_reader r r'"
proof -
  let ?k = "length (log_bytes rc num P ds)"
  have F: "drop P F = take ?k (log_bytes rc num P ds)" using assms(2) by simp
  obtain j r' where j: "ReadAll rd mode r acc = Some (acc @ take j ds, r')" "same_reader r r'" "j \<le> length ds"
      "j < length ds \<longrightarrow> ?k < length (log_bytes rc num P (take (Suc j) ds))"
    using read_all [OF assms(1) F assms(3), of mode acc] by auto
  have "length (log_bytes rc num P (take (Suc j) ds)) \<le> ?k"
    using log_bytes_append [of rc num P "take (Suc j) ds" "drop (Suc j) ds"] by simp
  then show ?thesis using j by auto
qed

end

section \<open>Damaged and stale records\<close>

text \<open>
  The buffer starts with a recyclable record of another log number: what the file held
  before it was recycled.
\<close>

definition stale_record :: "'f log_reader \<Rightarrow> bool" where
  "stale_record r \<longleftrightarrow> kRecyclableHeaderSize \<le> length (rbuffer r) \<and>
    is_recyclable_type (header_type (rbuffer r)) \<and>
    ucast (DecodeFixed32 (drop 7 (rbuffer r))) \<noteq> rlog_number r"

lemma ReadPhysicalRecord_stale:
  assumes "stale_record r"
  obtains x where "ReadPhysicalRecord rd r d = Some (kOldRecord, [], d, r\<lparr>recycled := x\<rparr>)"
proof -
  have a: "\<not> length (rbuffer r) < kHeaderSize" "\<not> length (rbuffer r) < kRecyclableHeaderSize"
    "ucast (DecodeFixed32 (drop 7 (rbuffer r))) \<noteq> rlog_number r"
    "is_recyclable_type (header_type (rbuffer r)) = True"
    using assms by (auto simp: stale_record_def log_size_defs)
  show ?thesis
    by (rule ReadPhysicalRecord_parse [OF a(1) refl refl a(4), of rd d])
      (simp only: a simp_thms if_True if_False that)
qed

lemma stale_record_recycled: "stale_record (r\<lparr>recycled := x\<rparr>) = stale_record r"
  by (simp add: stale_record_def)

lemma switch_old_skip:
  "ReadRecord_switch kSkipAnyCorruptedRecords frg sc pr po kOldRecord p d r =
    (if frg then Continue (ReportCorruption r (length sc) ''error in middle of record'') False [] pr
     else Continue r frg sc pr)"
  by (simp add: ReadRecord_switch_def record_type_defs special_type_defs)

lemma stale_record_report: "stale_record (ReportCorruption r n s) = stale_record r"
  by (simp add: stale_record_def ReportCorruption_def ReportDrop_def)

lemma switch_old:
  "mode \<noteq> kSkipAnyCorruptedRecords \<Longrightarrow> \<not> frg \<Longrightarrow>
    ReadRecord_switch mode frg sc pr po kOldRecord p d r = Return False [] sc r"
  by (simp add: ReadRecord_switch_def record_type_defs special_type_defs)

lemma skip_never_returns:
  assumes "ReadRecord_loop rd mode r frg sc pr = Some y"
  shows "mode = kSkipAnyCorruptedRecords \<longrightarrow> \<not> stale_record r"
proof (rule ReadRecord_loop.raw_induct [OF _ assms], intro impI notI)
  fix loop and rd :: "'b \<Rightarrow> nat \<Rightarrow> status \<times> slice \<times> 'b" and mode r frg sc pr y
  assume IH: "\<And>rd mode r frg sc pr y. loop rd mode r frg sc pr = Some y \<Longrightarrow>
      mode = kSkipAnyCorruptedRecords \<longrightarrow> \<not> stale_record r"
    and body: "(case ReadPhysicalRecord rd r 0 of None \<Rightarrow> None
      | Some (typ, fragment, drop_size, r1) \<Rightarrow>
          case ReadRecord_switch mode frg sc pr (end_of_buffer_offset r - length (rbuffer r)) typ fragment drop_size r1 of
            Return b rec sc1 r2 \<Rightarrow> Some (b, rec, sc1, r2)
          | Continue r2 frg1 sc1 pr1 \<Rightarrow> loop rd mode r2 frg1 sc1 pr1) = Some y"
    and mode: "mode = kSkipAnyCorruptedRecords" and stale: "stale_record r"
  obtain x where x: "ReadPhysicalRecord rd r 0 = Some (kOldRecord, [], 0, r\<lparr>recycled := x\<rparr>)"
    by (rule ReadPhysicalRecord_stale [OF stale])
  show False
    using body stale
    by (auto simp: x mode switch_old_skip stale_record_recycled stale_record_report split: if_splits
        dest!: IH)
qed

lemma header_view:
  assumes t: "t = fragment_type rc b e" and n: "n < 65536"
    and B: "B = EncodeFixed32 c @ [of_nat (n mod 256), of_nat (n div 256), ucast t] @ q"
  shows "header_type B = t" and "header_length B = n" and "DecodeFixed32 B = c"
    and "drop 7 B = q" and "drop 6 B = ucast t # q"
proof -
  have nths: "(EncodeFixed32 c @ x # y # z # q) ! 4 = x" "(EncodeFixed32 c @ x # y # z # q) ! 5 = y"
    "(EncodeFixed32 c @ x # y # z # q) ! 6 = z" for x y z :: byte
    by (simp_all add: nth_append length_EncodeFixed)
  have tcast: "scast (ucast t :: byte) = t"
    unfolding t fragment_type_def record_type_defs by simp
  show "header_type B = t" by (simp add: header_type_def B nths tcast)
  show "header_length B = n"
    using n by (simp add: header_length_def B nths unsigned_of_nat take_bit_nat_eq_self)
  show "DecodeFixed32 B = c" "drop 7 B = q" "drop 6 B = ucast t # q"
    by (simp_all add: B DecodeFixed32_Encode length_EncodeFixed)
qed

text \<open>A record of this log whose payload has been damaged within four consecutive bytes.\<close>

lemma ReadPhysicalRecord_damaged:
  assumes buf: "rbuffer r = take (log_header_size rc) (physical_record rc num t (a @ w @ s)) @ (a @ w' @ s) @ S"
    and w: "w \<noteq> w'" "length w = length w'" "length w \<le> 4"
    and t: "t = fragment_type rc b e" and len: "length (a @ w @ s) < 65536" and num: "reads_number rc num r"
    and chk: "verify_checksum r"
  obtains x where "ReadPhysicalRecord rd r d =
    Some (kBadRecordChecksum, [], length (rbuffer r), r\<lparr>recycled := x, rbuffer := []\<rparr>)"
proof -
  let ?p = "a @ w @ s" and ?p' = "a @ w' @ s"
  let ?h = "EncodeFixed32 (Mask (Value (ucast t # numb rc num @ ?p))) @
    [of_nat (length ?p mod 256), of_nat (length ?p div 256), ucast t] @ numb rc num"
  have lp: "length ?p' = length ?p" using w(2) by simp
  have ln: "length (numb rc num) + 7 = log_header_size rc"
    by (simp add: numb_def log_header_size_def log_size_defs length_EncodeFixed)
  have ph: "physical_record rc num t ?p = ?h @ ?p" by (simp add: physical_record_def numb_def Let_def)
  have hl: "length ?h = log_header_size rc" by (simp add: length_EncodeFixed flip: ln)
  have th: "take (log_header_size rc) (physical_record rc num t ?p) = ?h"
    unfolding ph by (rule take_append_length) (rule hl)
  have buf': "rbuffer r = ?h @ ?p' @ S" unfolding buf th ..
  have view: "rbuffer r = EncodeFixed32 (Mask (Value (ucast t # numb rc num @ ?p))) @
      [of_nat (length ?p mod 256), of_nat (length ?p div 256), ucast t] @ (numb rc num @ ?p' @ S)"
    by (simp add: buf')
  note view = header_view [OF t len view]
  have hd: "header_type (rbuffer r) = t" "header_length (rbuffer r) = length ?p"
    "Unmask (DecodeFixed32 (rbuffer r)) = Value (ucast t # numb rc num @ ?p)"
    "rc \<Longrightarrow> DecodeFixed32 (drop 7 (rbuffer r)) = ucast num"
    using view by (simp_all add: Unmask_Mask numb_def DecodeFixed32_Encode)
  have dr: "take (length ?p + log_header_size rc - 6) (drop 6 (rbuffer r)) = ucast t # numb rc num @ ?p'"
    using lp unfolding view(5) by (simp flip: ln)
  have neq: "Value (ucast t # numb rc num @ ?p') \<noteq> Value (ucast t # numb rc num @ ?p)"
    using Value_window [of "ucast t # numb rc num @ a" w' s w] w by auto
  have ty: "is_recyclable_type t = rc" "t \<noteq> kZeroType" by (simp_all add: t fragment_type_view)
  have size: "length (rbuffer r) = log_header_size rc + length ?p + length S"
    using hl lp by (simp add: buf')
  have nlt: "\<not> length (rbuffer r) < kHeaderSize"
    using size header_size_bounds(1) [of rc] by (simp add: kHeaderSize_def)
  have nrl: "\<not> (rc \<and> length (rbuffer r) < kRecyclableHeaderSize)"
    using size by (auto simp: log_header_size_def)
  have nold: "\<not> (rc \<and> ucast (DecodeFixed32 (drop 7 (rbuffer r))) \<noteq> rlog_number r)"
    using hd(4) num by (auto simp: reads_number_def)
  have nlong: "\<not> log_header_size rc + length ?p > length (rbuffer r)" by (simp add: size)
  have bad: "verify_checksum r \<and> Value (ucast t # numb rc num @ ?p') \<noteq> Value (ucast t # numb rc num @ ?p)"
    using chk neq by simp
  show ?thesis
    by (rule ReadPhysicalRecord_parse [OF nlt hd(1,2) ty(1), of rd d])
      (simp only: nrl nold nlong hd(3) dr ty(2) bad simp_thms if_False if_True that)
qed

text \<open>A whole physical record of another log number is stale.\<close>

lemma stale_physical_record:
  assumes "rbuffer r = physical_record True num (fragment_type True b e) p @ S" and "length p < 65536"
    and "ucast (ucast num :: u32) \<noteq> rlog_number r"
  shows "stale_record r"
  using assms physical_record_view(1,3) [OF refl assms(2), of True num b e S]
  by (simp add: stale_record_def length_physical_record log_header_size_def fragment_type_view)

context seq_source
begin

lemma phys_stale_at:
  assumes at: "reader_at rest F P r" and F: "drop P F = physical_record True num t p @ S"
    and fit: "P + length (physical_record True num t p) \<le> next_block P"
    and t: "t = fragment_type True b e" and len: "length p < 65536"
    and num: "ucast (ucast num :: u32) \<noteq> rlog_number r"
  obtains r' where "ReadPhysicalRecord rd r d = Some (kOldRecord, [], d, r')" and "same_reader r r'"
proof -
  let ?ph = "physical_record True num t p"
  have "0 < length ?ph" using header_size_bounds(1) [of True] by (simp add: length_physical_record)
  then have lt: "P < length F" using F by (cases "P < length F") simp_all
  obtain q where q: "ReadPhysicalRecord rd r d = ReadPhysicalRecord rd q d" "reader_at rest F P q"
    "P < end_of_buffer_offset q" "same_reader r q"
    by (rule phys_ready [OF at lt, of d])
  have "rbuffer q = ?ph @ take (next_block P - P - length ?ph) S"
    using reader_at_buffer(1) [OF q(2,3)] F fit by simp
  then have stale: "stale_record q"
    using stale_physical_record [of q num b e p] len num t q(4) by (simp add: same_reader_def)
  obtain x where "ReadPhysicalRecord rd q d = Some (kOldRecord, [], d, q\<lparr>recycled := x\<rparr>)"
    by (rule ReadPhysicalRecord_stale [OF stale])
  moreover have "same_reader r (q\<lparr>recycled := x\<rparr>)" using q(4) by (simp add: same_reader_def)
  ultimately show ?thesis using that q(1) by simp
qed

lemma read_foreign_log:
  assumes at: "reader_at rest F 0 r" and F: "F = log_bytes True num 0 (d # ds)"
    and num: "ucast (ucast num :: u32) \<noteq> rlog_number r" and mode: "mode \<noteq> kSkipAnyCorruptedRecords"
  shows "\<exists>r'. ReadAll rd mode r acc = Some (acc, r') \<and> same_reader r r'"
proof -
  define n where "n = min (length d) (fragment_room True (0 + 0))"
  define t where "t = fragment_type True True (n = length d)"
  define ph where "ph = physical_record True num t (take n d)"
  have z: "0 = block_pad True 0" using block_pad_start [of 0 True] by simp
  note first = record_bytes_first [OF z n_def t_def ph_def]
  obtain S where S: "drop 0 F = ph @ S" using first(1) by (simp add: F Let_def)
  obtain r' where r': "ReadPhysicalRecord rd r 0 = Some (kOldRecord, [], 0, r')" "same_reader r r'"
    using phys_stale_at [OF at S [unfolded ph_def] _ t_def first(3) num, of 0] first(2) by (auto simp: ph_def)
  have "ReadRecord rd mode r = Some (False, [], [], r')"
    by (simp add: ReadRecord_def ReadRecord_loop_step [OF r'(1)] switch_old [OF mode] run_step_def)
  then show ?thesis using r'(2) by (simp add: ReadAll.simps [of rd mode r acc])
qed

end

section \<open>Properties\<close>

text \<open>A file that holds the given bytes, opened for sequential reading.\<close>

definition mock_seq_file :: "bytes \<Rightarrow> MockSequentialFile" where
  "mock_seq_file data = \<lparr>sf_file = \<lparr>mf_data = data, mf_fsynced_bytes = 0\<rparr>, sf_pos = 0\<rparr>"

lemma reader_at_new:
  "reader_at (\<lambda>sf. drop (sf_pos sf) (mf_data (sf_file sf))) F 0 (Reader_new (mock_seq_file F) rep chk num False)"
  by (simp add: reader_at_def Reader_new_def mock_seq_file_def)

lemma reads_number_new:
  assumes "rc \<longrightarrow> unat num < 2 ^ 32"
  shows "reads_number rc num (Reader_new f rep chk num retry)"
proof -
  have "ucast (ucast num :: u32) = num" if "unat num < 2 ^ 32"
    using that by (intro word_unat_eq_iff [THEN iffD2]) (simp add: unsigned_ucast_eq unsigned_take_bit_eq take_bit_nat_eq_self)
  then show ?thesis using assms by (auto simp: reads_number_def Reader_new_def)
qed

text \<open>
  C8: every sequence of records written to a new log, whatever their sizes, is read
  back exactly, in order, in every recovery mode, with or without checksums, and no
  corruption is reported. In the recyclable format the log number must fit in 32 bits.
\<close>

theorem log_roundtrip:
  assumes "rc \<longrightarrow> unat num < 2 ^ 32"
  shows "\<exists>r'. ReadAll MockSequentialFile_Read mode
      (Reader_new (mock_seq_file (snd (snd (written_log mb bps num rc manual recs)))) rep chk num False) [] =
      Some (recs, r') \<and> reporter r' = rep"
  using mock_seq.read_all_complete [OF reader_at_new [of "log_bytes rc num 0 recs" rep chk num] _
      reads_number_new [OF assms], of recs mode "[]"]
  by (auto simp: written_log_bytes same_reader_def Reader_new_def)

theorem log_roundtrip_witness:
  "\<exists>r'. ReadAll MockSequentialFile_Read kPointInTimeRecovery
      (Reader_new (mock_seq_file (snd (snd (written_log 65536 0 7 True False [[1, 2], []])))) (Some []) True 7 False) [] =
      Some ([[1, 2], []], r') \<and> reporter r' = Some []"
  by (rule log_roundtrip) simp

text \<open>
  C7: a log cut off at any byte, as a crash leaves it, is read back as the longest
  sequence of records that are wholly in the file, and outside the mode of absolute
  consistency no corruption is reported.
\<close>

theorem log_prefix_recovery:
  assumes "rc \<longrightarrow> unat num < 2 ^ 32" and "mode \<noteq> kAbsoluteConsistency"
  shows "\<exists>j r'. ReadAll MockSequentialFile_Read mode
      (Reader_new (mock_seq_file (take k (snd (snd (written_log mb bps num rc manual recs))))) rep chk num False) [] =
      Some (take j recs, r') \<and> reporter r' = rep \<and> j \<le> length recs \<and>
    length (log_bytes rc num 0 (take j recs)) \<le> k \<and>
    (j < length recs \<longrightarrow> k < length (log_bytes rc num 0 (take (Suc j) recs)))"
proof -
  let ?F = "take k (log_bytes rc num 0 recs)"
  have F: "drop 0 ?F = take k (log_bytes rc num 0 recs)" by simp
  show ?thesis
    using mock_seq.read_all [OF reader_at_new [of ?F rep chk num] F reads_number_new [OF assms(1)] disjI1 [OF assms(2)], of "[]"]
    unfolding written_log_bytes by (auto simp: same_reader_def Reader_new_def)
qed

theorem log_prefix_recovery_witness:
  "\<exists>j r'. ReadAll MockSequentialFile_Read kTolerateCorruptedTailRecords
      (Reader_new (mock_seq_file (take 12 (snd (snd (written_log 65536 0 7 False False [[1, 2], [3]])))))
        (Some []) True 7 False) [] =
      Some (take j [[1, 2], [3]], r') \<and> reporter r' = Some [] \<and> j \<le> length [[1, 2], [3 :: byte]] \<and>
    length (log_bytes False 7 0 (take j [[1, 2], [3]])) \<le> 12 \<and>
    (j < length [[1, 2], [3 :: byte]] \<longrightarrow> 12 < length (log_bytes False 7 0 (take (Suc j) [[1, 2], [3]])))"
  by (rule log_prefix_recovery) simp_all

text \<open>
  C19: with checksums on, a physical record whose payload has been changed within four
  consecutive bytes is not returned: the reader reports a checksum mismatch and drops the
  rest of the block.
\<close>

theorem damaged_record_detected:
  assumes "rbuffer r = take (log_header_size rc) (physical_record rc num (fragment_type rc b e) (a @ w @ s)) @ (a @ w' @ s) @ S"
    and "w \<noteq> w'" and "length w = length w'" and "length w \<le> 4" and "length (a @ w @ s) < 65536"
    and "reads_number rc num r" and "verify_checksum r"
  shows "\<exists>x. ReadPhysicalRecord rd r d =
    Some (kBadRecordChecksum, [], length (rbuffer r), r\<lparr>recycled := x, rbuffer := []\<rparr>)"
  using ReadPhysicalRecord_damaged [OF assms(1-4) refl assms(5-7)] by metis

definition demo_reader :: "bytes \<Rightarrow> MockSequentialFile log_reader" where
  "demo_reader b = (Reader_new (mock_seq_file b) (Some []) True 7 False)\<lparr>rbuffer := b\<rparr>"

theorem damaged_record_detected_witness:
  "\<exists>x. ReadPhysicalRecord MockSequentialFile_Read
      (demo_reader (take (log_header_size False) (physical_record False 7 (fragment_type False True True) ([1] @ [2] @ [3])) @
        ([1] @ [9] @ [3]) @ [])) 0 =
    Some (kBadRecordChecksum, [], 10,
      (demo_reader (take (log_header_size False) (physical_record False 7 (fragment_type False True True) ([1] @ [2] @ [3])) @
        ([1] @ [9] @ [3]) @ []))\<lparr>recycled := x, rbuffer := []\<rparr>)"
proof -
  let ?b = "take (log_header_size False) (physical_record False 7 (fragment_type False True True) ([1] @ [2] @ [3])) @
    ([1] @ [9] @ [3]) @ []"
  have len: "length (rbuffer (demo_reader ?b)) = 10"
    by (simp add: demo_reader_def length_physical_record log_header_size_def log_size_defs)
  show ?thesis
    unfolding len [symmetric]
    by (rule damaged_record_detected [of _ False 7 True True "[1]" "[2]" "[3]" "[9]" "[]"])
      (simp_all add: demo_reader_def reads_number_def Reader_new_def)
qed

text \<open>
  C23: where a recycled file still holds a record of its previous use, reading ends
  without a record and without a report, in every mode but the one that skips corruption.
\<close>

theorem stale_record_ends_log:
  assumes "stale_record r" and "mode \<noteq> kSkipAnyCorruptedRecords"
  shows "\<exists>r'. ReadRecord rd mode r = Some (False, [], [], r') \<and> reporter r' = reporter r \<and> rbuffer r' = rbuffer r"
proof -
  obtain x where x: "ReadPhysicalRecord rd r 0 = Some (kOldRecord, [], 0, r\<lparr>recycled := x\<rparr>)"
    by (rule ReadPhysicalRecord_stale [OF assms(1)])
  show ?thesis
    by (simp add: ReadRecord_def ReadRecord_loop_step [OF x] switch_old [OF assms(2)] run_step_def)
qed

definition demo_stale :: "MockSequentialFile log_reader" where
  "demo_stale = demo_reader (physical_record True 6 (fragment_type True True True) [1, 2])"

lemma demo_stale_is_stale: "stale_record demo_stale"
  by (rule stale_physical_record [of _ 6 True True "[1, 2]" "[]"])
    (simp_all add: demo_stale_def demo_reader_def Reader_new_def)

theorem stale_record_ends_log_witness:
  "\<exists>r'. ReadRecord MockSequentialFile_Read kPointInTimeRecovery demo_stale = Some (False, [], [], r') \<and>
    reporter r' = reporter demo_stale \<and> rbuffer r' = rbuffer demo_stale"
  by (rule stale_record_ends_log) (simp_all add: demo_stale_is_stale)

text \<open>
  C24: in the mode that skips corrupted records the reader never returns once it meets a
  record of another log number: it neither consumes the record nor stops.
\<close>

theorem skip_mode_diverges_on_stale_record:
  assumes "stale_record r"
  shows "ReadRecord rd kSkipAnyCorruptedRecords r = None"
  using skip_never_returns [of rd kSkipAnyCorruptedRecords r False "[]" 0] assms
  by (cases "ReadRecord rd kSkipAnyCorruptedRecords r") (auto simp: ReadRecord_def)

theorem skip_mode_diverges_on_stale_record_witness:
  "ReadRecord MockSequentialFile_Read kSkipAnyCorruptedRecords demo_stale = None"
  by (rule skip_mode_diverges_on_stale_record) (rule demo_stale_is_stale)

text \<open>
  C25: the writer stores the low 32 bits of the log number and the reader compares them
  with all 64, so a recyclable log whose number is \<open>2 ^ 32\<close> or more is read as empty.
\<close>

theorem large_log_number_reads_nothing:
  assumes "2 ^ 32 \<le> unat num" and "mode \<noteq> kSkipAnyCorruptedRecords"
  shows "\<exists>r'. ReadAll MockSequentialFile_Read mode
      (Reader_new (mock_seq_file (snd (snd (written_log mb bps num True manual (d # ds))))) rep chk num False) [] =
      Some ([], r') \<and> reporter r' = rep"
proof -
  let ?F = "log_bytes True num 0 (d # ds)"
  let ?r = "Reader_new (mock_seq_file ?F) rep chk num False"
  have "unat (ucast (ucast num :: u32) :: u64) < 2 ^ 32"
    using unsigned_less [of "ucast num :: u32", where ?'a = nat]
    by (simp add: unsigned_ucast_eq unsigned_take_bit_eq take_bit_nat_eq_self)
  then have "ucast (ucast num :: u32) \<noteq> rlog_number ?r"
    using assms(1) by (auto simp: Reader_new_def)
  then show ?thesis
    using mock_seq.read_foreign_log [OF reader_at_new [of ?F rep chk num] refl _ assms(2), of "[]"]
    unfolding written_log_bytes by (auto simp: same_reader_def Reader_new_def)
qed

theorem large_log_number_reads_nothing_witness:
  "\<exists>r'. ReadAll MockSequentialFile_Read kTolerateCorruptedTailRecords
      (Reader_new (mock_seq_file (snd (snd (written_log 65536 0 4294967297 True False [[1], [2]])))) (Some []) True
        4294967297 False) [] =
      Some ([], r') \<and> reporter r' = Some []"
  by (rule large_log_number_reads_nothing) simp_all

end
