(* ===== verification/WriteBatch.thy ===== *)
theory WriteBatch
  imports Coding "HOL-Library.Sublist"
begin

text \<open>
  Write batches: \<^verbatim>\<open>include/rocksdb/write_batch.h\<close>, \<^verbatim>\<open>db/write_batch.cc\<close> and
  \<^verbatim>\<open>db/write_batch_internal.h\<close>. A batch is a byte string: a sequence number, a count and a
  list of tagged records. \<open>Iterate\<close> decodes it and calls a handler, here a record of
  functions over the handler's state. \<open>enc_op\<close> is the abstract encoding of an operation;
  the builders append it, and \<open>Iterate\<close> delivers the operations in order.
\<close>

section \<open>Tags and content flags\<close>

definition kTypeDeletion :: byte where "kTypeDeletion = 0x0"
definition kTypeValue :: byte where "kTypeValue = 0x1"
definition kTypeMerge :: byte where "kTypeMerge = 0x2"
definition kTypeLogData :: byte where "kTypeLogData = 0x3"
definition kTypeColumnFamilyDeletion :: byte where "kTypeColumnFamilyDeletion = 0x4"
definition kTypeColumnFamilyValue :: byte where "kTypeColumnFamilyValue = 0x5"
definition kTypeColumnFamilyMerge :: byte where "kTypeColumnFamilyMerge = 0x6"
definition kTypeSingleDeletion :: byte where "kTypeSingleDeletion = 0x7"
definition kTypeColumnFamilySingleDeletion :: byte where "kTypeColumnFamilySingleDeletion = 0x8"
definition kTypeBeginPrepareXID :: byte where "kTypeBeginPrepareXID = 0x9"
definition kTypeEndPrepareXID :: byte where "kTypeEndPrepareXID = 0xA"
definition kTypeCommitXID :: byte where "kTypeCommitXID = 0xB"
definition kTypeRollbackXID :: byte where "kTypeRollbackXID = 0xC"
definition kTypeNoop :: byte where "kTypeNoop = 0xD"
definition kTypeColumnFamilyRangeDeletion :: byte where "kTypeColumnFamilyRangeDeletion = 0xE"
definition kTypeRangeDeletion :: byte where "kTypeRangeDeletion = 0xF"
definition kTypeColumnFamilyBlobIndex :: byte where "kTypeColumnFamilyBlobIndex = 0x10"
definition kTypeBlobIndex :: byte where "kTypeBlobIndex = 0x11"
definition kTypeBeginPersistedPrepareXID :: byte where "kTypeBeginPersistedPrepareXID = 0x12"
definition kTypeBeginUnprepareXID :: byte where "kTypeBeginUnprepareXID = 0x13"

lemmas value_type_defs =
  kTypeDeletion_def kTypeValue_def kTypeMerge_def kTypeLogData_def kTypeColumnFamilyDeletion_def
  kTypeColumnFamilyValue_def kTypeColumnFamilyMerge_def kTypeSingleDeletion_def
  kTypeColumnFamilySingleDeletion_def kTypeBeginPrepareXID_def kTypeEndPrepareXID_def
  kTypeCommitXID_def kTypeRollbackXID_def kTypeNoop_def kTypeColumnFamilyRangeDeletion_def
  kTypeRangeDeletion_def kTypeColumnFamilyBlobIndex_def kTypeBlobIndex_def
  kTypeBeginPersistedPrepareXID_def kTypeBeginUnprepareXID_def

definition DEFERRED :: u32 where "DEFERRED = 1"
definition HAS_PUT :: u32 where "HAS_PUT = 2"
definition HAS_DELETE :: u32 where "HAS_DELETE = 4"
definition HAS_SINGLE_DELETE :: u32 where "HAS_SINGLE_DELETE = 8"
definition HAS_MERGE :: u32 where "HAS_MERGE = 16"
definition HAS_BEGIN_PREPARE :: u32 where "HAS_BEGIN_PREPARE = 32"
definition HAS_END_PREPARE :: u32 where "HAS_END_PREPARE = 64"
definition HAS_COMMIT :: u32 where "HAS_COMMIT = 128"
definition HAS_ROLLBACK :: u32 where "HAS_ROLLBACK = 256"
definition HAS_DELETE_RANGE :: u32 where "HAS_DELETE_RANGE = 512"
definition HAS_BLOB_INDEX :: u32 where "HAS_BLOB_INDEX = 1024"
definition HAS_BEGIN_UNPREPARE :: u32 where "HAS_BEGIN_UNPREPARE = 2048"

section \<open>The batch\<close>

record SavePoint =
  sp_size :: nat
  sp_count :: u32
  sp_content_flags :: u32

definition SavePoint_cleared :: SavePoint where
  "SavePoint_cleared = \<lparr>sp_size = 0, sp_count = 0, sp_content_flags = 0\<rparr>"

definition is_cleared :: "SavePoint \<Rightarrow> bool" where
  "is_cleared p \<longleftrightarrow> sp_size p = 0 \<and> sp_count p = 0 \<and> sp_content_flags p = 0"

text \<open>The stack of save points has its top at the head; a null pointer is the empty stack.\<close>

record WriteBatch =
  rep :: bytes
  content_flags :: u32
  max_bytes :: nat
  save_points :: "SavePoint list"
  wal_term_point :: SavePoint
  is_latest_persistent_state :: bool

definition kHeader :: nat where
  "kHeader = 12"

definition WriteBatch_new :: "nat \<Rightarrow> WriteBatch" where
  "WriteBatch_new max_b =
    \<lparr>rep = replicate kHeader 0, content_flags = 0, max_bytes = max_b, save_points = [],
     wal_term_point = SavePoint_cleared, is_latest_persistent_state = False\<rparr>"

definition WriteBatch_of :: "bytes \<Rightarrow> WriteBatch" where
  "WriteBatch_of r =
    \<lparr>rep = r, content_flags = DEFERRED, max_bytes = 0, save_points = [],
     wal_term_point = SavePoint_cleared, is_latest_persistent_state = False\<rparr>"

definition WriteBatch_Clear :: "WriteBatch \<Rightarrow> WriteBatch" where
  "WriteBatch_Clear b =
    b\<lparr>rep := replicate kHeader 0, content_flags := 0, save_points := [], wal_term_point := SavePoint_cleared\<rparr>"

definition GetDataSize :: "WriteBatch \<Rightarrow> nat" where
  "GetDataSize b = length (rep b)"

definition WB_Count :: "WriteBatch \<Rightarrow> u32" where
  "WB_Count b = DecodeFixed32 (drop 8 (rep b))"

definition SetCount :: "WriteBatch \<Rightarrow> u32 \<Rightarrow> WriteBatch" where
  "SetCount b n = b\<lparr>rep := take 8 (rep b) @ EncodeFixed32 n @ drop 12 (rep b)\<rparr>"

definition WB_Sequence :: "WriteBatch \<Rightarrow> u64" where
  "WB_Sequence b = DecodeFixed64 (rep b)"

definition SetSequence :: "WriteBatch \<Rightarrow> u64 \<Rightarrow> WriteBatch" where
  "SetSequence b seq = b\<lparr>rep := EncodeFixed64 seq @ drop 8 (rep b)\<rparr>"

definition GetFirstOffset :: nat where
  "GetFirstOffset = kHeader"

definition SetContents :: "WriteBatch \<Rightarrow> slice \<Rightarrow> WriteBatch" where
  "SetContents b contents = b\<lparr>rep := contents, content_flags := DEFERRED\<rparr>"

definition MarkWalTerminationPoint :: "WriteBatch \<Rightarrow> WriteBatch" where
  "MarkWalTerminationPoint b =
    b\<lparr>wal_term_point := \<lparr>sp_size = GetDataSize b, sp_count = WB_Count b, sp_content_flags = content_flags b\<rparr>\<rparr>"

definition SetAsLastestPersistentState :: "WriteBatch \<Rightarrow> WriteBatch" where
  "SetAsLastestPersistentState b = b\<lparr>is_latest_persistent_state := True\<rparr>"

section \<open>Adding records\<close>

text \<open>\<^verbatim>\<open>LocalSavePoint\<close>: taken before a change, and committed after it.\<close>

definition LocalSavePoint :: "WriteBatch \<Rightarrow> SavePoint" where
  "LocalSavePoint b = \<lparr>sp_size = GetDataSize b, sp_count = WB_Count b, sp_content_flags = content_flags b\<rparr>"

definition LocalSavePoint_commit :: "SavePoint \<Rightarrow> WriteBatch \<Rightarrow> status \<times> WriteBatch" where
  "LocalSavePoint_commit sp b =
    (if max_bytes b \<noteq> 0 \<and> length (rep b) > max_bytes b then
       (MemoryLimit,
        (SetCount (b\<lparr>rep := take (sp_size sp) (rep b)\<rparr>) (sp_count sp))\<lparr>content_flags := sp_content_flags sp\<rparr>)
     else (Status_OK, b))"

definition push_tag :: "bytes \<Rightarrow> u32 \<Rightarrow> byte \<Rightarrow> byte \<Rightarrow> bytes" where
  "push_tag r cf tag cf_tag = (if cf = 0 then r @ [tag] else PutVarint32 (r @ [cf_tag]) cf)"

text \<open>
  What \<^verbatim>\<open>Put\<close>, \<^verbatim>\<open>Delete\<close> and the others do alike: count the record, push its tag
  with the column family, append its slices, set the flag and commit.
\<close>

definition add_record ::
    "WriteBatch \<Rightarrow> u32 \<Rightarrow> byte \<Rightarrow> byte \<Rightarrow> (bytes \<Rightarrow> bytes) \<Rightarrow> u32 \<Rightarrow> status \<times> WriteBatch" where
  "add_record b cf tag cf_tag slices flag =
    (let save = LocalSavePoint b;
         b1 = SetCount b (WB_Count b + 1);
         b2 = b1\<lparr>rep := slices (push_tag (rep b1) cf tag cf_tag)\<rparr>;
         b3 = b2\<lparr>content_flags := content_flags b2 OR flag\<rparr>
     in LocalSavePoint_commit save b3)"

definition kMaxUint32 :: nat where
  "kMaxUint32 = 2 ^ 32 - 1"

definition WB_Put :: "WriteBatch \<Rightarrow> u32 \<Rightarrow> slice \<Rightarrow> slice \<Rightarrow> status \<times> WriteBatch" where
  "WB_Put b cf key value =
    (if length key > kMaxUint32 then (InvalidArgument ''key is too large'', b)
     else if length value > kMaxUint32 then (InvalidArgument ''value is too large'', b)
     else add_record b cf kTypeValue kTypeColumnFamilyValue
            (\<lambda>r. PutLengthPrefixedSlice (PutLengthPrefixedSlice r key) value) HAS_PUT)"

definition CheckSlicePartsLength :: "slice list \<Rightarrow> slice list \<Rightarrow> status" where
  "CheckSlicePartsLength key value =
    (if sum_list (map length key) \<ge> kMaxUint32 then InvalidArgument ''key is too large''
     else if sum_list (map length value) \<ge> kMaxUint32 then InvalidArgument ''value is too large''
     else Status_OK)"

definition WB_PutParts :: "WriteBatch \<Rightarrow> u32 \<Rightarrow> slice list \<Rightarrow> slice list \<Rightarrow> status \<times> WriteBatch" where
  "WB_PutParts b cf key value =
    (let s = CheckSlicePartsLength key value
     in if \<not> ok s then (s, b)
        else add_record b cf kTypeValue kTypeColumnFamilyValue
               (\<lambda>r. PutLengthPrefixedSliceParts (PutLengthPrefixedSliceParts r key) value) HAS_PUT)"

definition InsertNoop :: "WriteBatch \<Rightarrow> status \<times> WriteBatch" where
  "InsertNoop b = (Status_OK, b\<lparr>rep := rep b @ [kTypeNoop]\<rparr>)"

definition MarkEndPrepare :: "WriteBatch \<Rightarrow> slice \<Rightarrow> bool \<Rightarrow> bool \<Rightarrow> status \<times> WriteBatch" where
  "MarkEndPrepare b xid write_after_commit unprepared_batch =
    (let marker = (if write_after_commit then kTypeBeginPrepareXID
                   else if unprepared_batch then kTypeBeginUnprepareXID
                   else kTypeBeginPersistedPrepareXID);
         r = (rep b)[12 := marker];
         b1 = b\<lparr>save_points := [],
                rep := PutLengthPrefixedSlice (r @ [kTypeEndPrepareXID]) xid,
                content_flags := content_flags b OR HAS_END_PREPARE OR HAS_BEGIN_PREPARE\<rparr>
     in (Status_OK,
         if unprepared_batch then b1\<lparr>content_flags := content_flags b1 OR HAS_BEGIN_UNPREPARE\<rparr> else b1))"

definition MarkCommit :: "WriteBatch \<Rightarrow> slice \<Rightarrow> status \<times> WriteBatch" where
  "MarkCommit b xid =
    (Status_OK, b\<lparr>rep := PutLengthPrefixedSlice (rep b @ [kTypeCommitXID]) xid,
                  content_flags := content_flags b OR HAS_COMMIT\<rparr>)"

definition MarkRollback :: "WriteBatch \<Rightarrow> slice \<Rightarrow> status \<times> WriteBatch" where
  "MarkRollback b xid =
    (Status_OK, b\<lparr>rep := PutLengthPrefixedSlice (rep b @ [kTypeRollbackXID]) xid,
                  content_flags := content_flags b OR HAS_ROLLBACK\<rparr>)"

definition WB_Delete :: "WriteBatch \<Rightarrow> u32 \<Rightarrow> slice \<Rightarrow> status \<times> WriteBatch" where
  "WB_Delete b cf key =
    add_record b cf kTypeDeletion kTypeColumnFamilyDeletion (\<lambda>r. PutLengthPrefixedSlice r key) HAS_DELETE"

definition WB_DeleteParts :: "WriteBatch \<Rightarrow> u32 \<Rightarrow> slice list \<Rightarrow> status \<times> WriteBatch" where
  "WB_DeleteParts b cf key =
    add_record b cf kTypeDeletion kTypeColumnFamilyDeletion (\<lambda>r. PutLengthPrefixedSliceParts r key) HAS_DELETE"

definition WB_SingleDelete :: "WriteBatch \<Rightarrow> u32 \<Rightarrow> slice \<Rightarrow> status \<times> WriteBatch" where
  "WB_SingleDelete b cf key =
    add_record b cf kTypeSingleDeletion kTypeColumnFamilySingleDeletion
      (\<lambda>r. PutLengthPrefixedSlice r key) HAS_SINGLE_DELETE"

definition WB_SingleDeleteParts :: "WriteBatch \<Rightarrow> u32 \<Rightarrow> slice list \<Rightarrow> status \<times> WriteBatch" where
  "WB_SingleDeleteParts b cf key =
    add_record b cf kTypeSingleDeletion kTypeColumnFamilySingleDeletion
      (\<lambda>r. PutLengthPrefixedSliceParts r key) HAS_SINGLE_DELETE"

definition WB_DeleteRange :: "WriteBatch \<Rightarrow> u32 \<Rightarrow> slice \<Rightarrow> slice \<Rightarrow> status \<times> WriteBatch" where
  "WB_DeleteRange b cf begin_key end_key =
    add_record b cf kTypeRangeDeletion kTypeColumnFamilyRangeDeletion
      (\<lambda>r. PutLengthPrefixedSlice (PutLengthPrefixedSlice r begin_key) end_key) HAS_DELETE_RANGE"

definition WB_DeleteRangeParts :: "WriteBatch \<Rightarrow> u32 \<Rightarrow> slice list \<Rightarrow> slice list \<Rightarrow> status \<times> WriteBatch" where
  "WB_DeleteRangeParts b cf begin_key end_key =
    add_record b cf kTypeRangeDeletion kTypeColumnFamilyRangeDeletion
      (\<lambda>r. PutLengthPrefixedSliceParts (PutLengthPrefixedSliceParts r begin_key) end_key) HAS_DELETE_RANGE"

definition WB_Merge :: "WriteBatch \<Rightarrow> u32 \<Rightarrow> slice \<Rightarrow> slice \<Rightarrow> status \<times> WriteBatch" where
  "WB_Merge b cf key value =
    (if length key > kMaxUint32 then (InvalidArgument ''key is too large'', b)
     else if length value > kMaxUint32 then (InvalidArgument ''value is too large'', b)
     else add_record b cf kTypeMerge kTypeColumnFamilyMerge
            (\<lambda>r. PutLengthPrefixedSlice (PutLengthPrefixedSlice r key) value) HAS_MERGE)"

definition WB_MergeParts :: "WriteBatch \<Rightarrow> u32 \<Rightarrow> slice list \<Rightarrow> slice list \<Rightarrow> status \<times> WriteBatch" where
  "WB_MergeParts b cf key value =
    (let s = CheckSlicePartsLength key value
     in if \<not> ok s then (s, b)
        else add_record b cf kTypeMerge kTypeColumnFamilyMerge
               (\<lambda>r. PutLengthPrefixedSliceParts (PutLengthPrefixedSliceParts r key) value) HAS_MERGE)"

definition PutBlobIndex :: "WriteBatch \<Rightarrow> u32 \<Rightarrow> slice \<Rightarrow> slice \<Rightarrow> status \<times> WriteBatch" where
  "PutBlobIndex b cf key value =
    add_record b cf kTypeBlobIndex kTypeColumnFamilyBlobIndex
      (\<lambda>r. PutLengthPrefixedSlice (PutLengthPrefixedSlice r key) value) HAS_BLOB_INDEX"

definition PutLogData :: "WriteBatch \<Rightarrow> slice \<Rightarrow> status \<times> WriteBatch" where
  "PutLogData b blob =
    LocalSavePoint_commit (LocalSavePoint b)
      (b\<lparr>rep := PutLengthPrefixedSlice (rep b @ [kTypeLogData]) blob\<rparr>)"

definition SetSavePoint :: "WriteBatch \<Rightarrow> WriteBatch" where
  "SetSavePoint b =
    b\<lparr>save_points := \<lparr>sp_size = GetDataSize b, sp_count = WB_Count b, sp_content_flags = content_flags b\<rparr>
                     # save_points b\<rparr>"

definition RollbackToSavePoint :: "WriteBatch \<Rightarrow> status \<times> WriteBatch" where
  "RollbackToSavePoint b =
    (case save_points b of
       [] \<Rightarrow> (NotFound [], b)
     | sp # rest \<Rightarrow>
         let b1 = b\<lparr>save_points := rest\<rparr>
         in if sp_size sp = length (rep b1) then (Status_OK, b1)
            else if sp_size sp = 0 then (Status_OK, WriteBatch_Clear b1)
            else (Status_OK,
                  (SetCount (b1\<lparr>rep := take (sp_size sp) (rep b1)\<rparr>) (sp_count sp))
                    \<lparr>content_flags := sp_content_flags sp\<rparr>))"

definition PopSavePoint :: "WriteBatch \<Rightarrow> status \<times> WriteBatch" where
  "PopSavePoint b =
    (case save_points b of [] \<Rightarrow> (NotFound [], b) | sp # rest \<Rightarrow> (Status_OK, b\<lparr>save_points := rest\<rparr>))"

definition WB_Append :: "WriteBatch \<Rightarrow> WriteBatch \<Rightarrow> bool \<Rightarrow> status \<times> WriteBatch" where
  "WB_Append dst src wal_only =
    (let batch_end = wal_term_point src;
         (src_len, src_count, src_flags) =
           (if wal_only \<and> \<not> is_cleared batch_end
            then (sp_size batch_end - kHeader, sp_count batch_end, sp_content_flags batch_end)
            else (length (rep src) - kHeader, WB_Count src, content_flags src));
         dst1 = SetCount dst (WB_Count dst + src_count)
     in (Status_OK, dst1\<lparr>rep := rep dst1 @ take src_len (drop kHeader (rep src)),
                         content_flags := content_flags dst1 OR src_flags\<rparr>))"

definition AppendedByteSize :: "nat \<Rightarrow> nat \<Rightarrow> nat" where
  "AppendedByteSize left right = (if left = 0 \<or> right = 0 then left + right else left + right - kHeader)"

section \<open>Handlers\<close>

text \<open>
  \<^verbatim>\<open>WriteBatch::Handler\<close>: its virtual functions over the handler's own state \<open>'s\<close>.
\<close>

record 's Handler =
  h_PutCF :: "u32 \<Rightarrow> slice \<Rightarrow> slice \<Rightarrow> 's \<Rightarrow> status \<times> 's"
  h_DeleteCF :: "u32 \<Rightarrow> slice \<Rightarrow> 's \<Rightarrow> status \<times> 's"
  h_SingleDeleteCF :: "u32 \<Rightarrow> slice \<Rightarrow> 's \<Rightarrow> status \<times> 's"
  h_DeleteRangeCF :: "u32 \<Rightarrow> slice \<Rightarrow> slice \<Rightarrow> 's \<Rightarrow> status \<times> 's"
  h_MergeCF :: "u32 \<Rightarrow> slice \<Rightarrow> slice \<Rightarrow> 's \<Rightarrow> status \<times> 's"
  h_PutBlobIndexCF :: "u32 \<Rightarrow> slice \<Rightarrow> slice \<Rightarrow> 's \<Rightarrow> status \<times> 's"
  h_LogData :: "slice \<Rightarrow> 's \<Rightarrow> 's"
  h_MarkBeginPrepare :: "bool \<Rightarrow> 's \<Rightarrow> status \<times> 's"
  h_MarkEndPrepare :: "slice \<Rightarrow> 's \<Rightarrow> status \<times> 's"
  h_MarkNoop :: "bool \<Rightarrow> 's \<Rightarrow> status \<times> 's"
  h_MarkRollback :: "slice \<Rightarrow> 's \<Rightarrow> status \<times> 's"
  h_MarkCommit :: "slice \<Rightarrow> 's \<Rightarrow> status \<times> 's"
  h_Continue :: "'s \<Rightarrow> bool \<times> 's"
  h_WriteAfterCommit :: "'s \<Rightarrow> bool"
  h_WriteBeforePrepare :: "'s \<Rightarrow> bool"

text \<open>
  The base class, given the four functions without column family that its defaults call
  (\<^verbatim>\<open>Put\<close>, \<^verbatim>\<open>Delete\<close>, \<^verbatim>\<open>SingleDelete\<close>, \<^verbatim>\<open>Merge\<close>; in the base class they do nothing).
\<close>

definition Handler_base ::
    "(slice \<Rightarrow> slice \<Rightarrow> 's \<Rightarrow> 's) \<Rightarrow> (slice \<Rightarrow> 's \<Rightarrow> 's) \<Rightarrow> (slice \<Rightarrow> 's \<Rightarrow> 's) \<Rightarrow>
     (slice \<Rightarrow> slice \<Rightarrow> 's \<Rightarrow> 's) \<Rightarrow> 's Handler" where
  "Handler_base put del single_del mrg =
    \<lparr>h_PutCF = (\<lambda>cf k v s. if cf = 0 then (Status_OK, put k v s)
                 else (InvalidArgument ''non-default column family and PutCF not implemented'', s)),
     h_DeleteCF = (\<lambda>cf k s. if cf = 0 then (Status_OK, del k s)
                 else (InvalidArgument ''non-default column family and DeleteCF not implemented'', s)),
     h_SingleDeleteCF = (\<lambda>cf k s. if cf = 0 then (Status_OK, single_del k s)
                 else (InvalidArgument ''non-default column family and SingleDeleteCF not implemented'', s)),
     h_DeleteRangeCF = (\<lambda>cf k v s. (InvalidArgument ''DeleteRangeCF not implemented'', s)),
     h_MergeCF = (\<lambda>cf k v s. if cf = 0 then (Status_OK, mrg k v s)
                 else (InvalidArgument ''non-default column family and MergeCF not implemented'', s)),
     h_PutBlobIndexCF = (\<lambda>cf k v s. (InvalidArgument ''PutBlobIndexCF not implemented'', s)),
     h_LogData = (\<lambda>blob s. s),
     h_MarkBeginPrepare = (\<lambda>u s. (InvalidArgument ''MarkBeginPrepare() handler not defined.'', s)),
     h_MarkEndPrepare = (\<lambda>xid s. (InvalidArgument ''MarkEndPrepare() handler not defined.'', s)),
     h_MarkNoop = (\<lambda>e s. (InvalidArgument ''MarkNoop() handler not defined.'', s)),
     h_MarkRollback = (\<lambda>xid s. (InvalidArgument ''MarkRollbackPrepare() handler not defined.'', s)),
     h_MarkCommit = (\<lambda>xid s. (InvalidArgument ''MarkCommit() handler not defined.'', s)),
     h_Continue = (\<lambda>s. (True, s)),
     h_WriteAfterCommit = (\<lambda>s. True),
     h_WriteBeforePrepare = (\<lambda>s. False)\<rparr>"

definition Handler_default :: "'s Handler" where
  "Handler_default = Handler_base (\<lambda>k v s. s) (\<lambda>k s. s) (\<lambda>k s. s) (\<lambda>k v s. s)"

text \<open>\<^verbatim>\<open>BatchContentClassifier\<close>: its state is the flags it has collected.\<close>

definition BatchContentClassifier :: "u32 Handler" where
  "BatchContentClassifier = Handler_default\<lparr>
     h_PutCF := (\<lambda>cf k v f. (Status_OK, f OR HAS_PUT)),
     h_DeleteCF := (\<lambda>cf k f. (Status_OK, f OR HAS_DELETE)),
     h_SingleDeleteCF := (\<lambda>cf k f. (Status_OK, f OR HAS_SINGLE_DELETE)),
     h_DeleteRangeCF := (\<lambda>cf k v f. (Status_OK, f OR HAS_DELETE_RANGE)),
     h_MergeCF := (\<lambda>cf k v f. (Status_OK, f OR HAS_MERGE)),
     h_PutBlobIndexCF := (\<lambda>cf k v f. (Status_OK, f OR HAS_BLOB_INDEX)),
     h_MarkBeginPrepare := (\<lambda>unprepare f.
       (Status_OK, if unprepare then (f OR HAS_BEGIN_PREPARE) OR HAS_BEGIN_UNPREPARE
                   else f OR HAS_BEGIN_PREPARE)),
     h_MarkEndPrepare := (\<lambda>xid f. (Status_OK, f OR HAS_END_PREPARE)),
     h_MarkRollback := (\<lambda>xid f. (Status_OK, f OR HAS_ROLLBACK)),
     h_MarkCommit := (\<lambda>xid f. (Status_OK, f OR HAS_COMMIT))\<rparr>"

section \<open>Iterating over a batch\<close>

text \<open>The local variables that \<^verbatim>\<open>ReadRecordFromWriteBatch\<close> fills.\<close>

record wb_cursor =
  cur_input :: slice
  cur_tag :: byte
  cur_cf :: u32
  cur_key :: slice
  cur_value :: slice
  cur_blob :: slice
  cur_xid :: slice

definition cur_GetVarint32_cf :: "wb_cursor \<Rightarrow> wb_cursor option" where
  "cur_GetVarint32_cf c = (case GetVarint32 (cur_input c) of
     None \<Rightarrow> None | Some (v, r) \<Rightarrow> Some (c\<lparr>cur_input := r, cur_cf := v\<rparr>))"

definition cur_GetSlice :: "(slice \<Rightarrow> wb_cursor \<Rightarrow> wb_cursor) \<Rightarrow> wb_cursor \<Rightarrow> wb_cursor option" where
  "cur_GetSlice put c = (case GetLengthPrefixedSlice (cur_input c) of
     None \<Rightarrow> None | Some (x, r) \<Rightarrow> Some (put x (c\<lparr>cur_input := r\<rparr>)))"

definition set_key :: "slice \<Rightarrow> wb_cursor \<Rightarrow> wb_cursor" where "set_key x c = c\<lparr>cur_key := x\<rparr>"
definition set_value :: "slice \<Rightarrow> wb_cursor \<Rightarrow> wb_cursor" where "set_value x c = c\<lparr>cur_value := x\<rparr>"
definition set_blob :: "slice \<Rightarrow> wb_cursor \<Rightarrow> wb_cursor" where "set_blob x c = c\<lparr>cur_blob := x\<rparr>"
definition set_xid :: "slice \<Rightarrow> wb_cursor \<Rightarrow> wb_cursor" where "set_xid x c = c\<lparr>cur_xid := x\<rparr>"

text \<open>
  The bodies of the switch: a column family when the tag carries one, then the slices; when one
  of them cannot be read the record is corrupt (the caller then drops the cursor).
\<close>

definition read_fields ::
    "string \<Rightarrow> bool \<Rightarrow> (slice \<Rightarrow> wb_cursor \<Rightarrow> wb_cursor) list \<Rightarrow> wb_cursor \<Rightarrow> status \<times> wb_cursor" where
  "read_fields msg has_cf puts c =
    (case fold (\<lambda>put r. Option.bind r (cur_GetSlice put)) puts
            (if has_cf then cur_GetVarint32_cf c else Some c) of
       None \<Rightarrow> (Corruption msg, c)
     | Some c' \<Rightarrow> (Status_OK, c'))"

definition ReadRecordFromWriteBatch :: "wb_cursor \<Rightarrow> status \<times> wb_cursor" where
  "ReadRecordFromWriteBatch c =
    (let tag = hd (cur_input c);
         c = c\<lparr>cur_input := tl (cur_input c), cur_tag := tag, cur_cf := 0\<rparr>
     in if tag = kTypeColumnFamilyValue \<or> tag = kTypeValue then
          read_fields ''bad WriteBatch Put'' (tag = kTypeColumnFamilyValue) [set_key, set_value] c
        else if tag = kTypeColumnFamilyDeletion \<or> tag = kTypeColumnFamilySingleDeletion
             \<or> tag = kTypeDeletion \<or> tag = kTypeSingleDeletion then
          read_fields ''bad WriteBatch Delete''
            (tag = kTypeColumnFamilyDeletion \<or> tag = kTypeColumnFamilySingleDeletion) [set_key] c
        else if tag = kTypeColumnFamilyRangeDeletion \<or> tag = kTypeRangeDeletion then
          read_fields ''bad WriteBatch DeleteRange'' (tag = kTypeColumnFamilyRangeDeletion) [set_key, set_value] c
        else if tag = kTypeColumnFamilyMerge \<or> tag = kTypeMerge then
          read_fields ''bad WriteBatch Merge'' (tag = kTypeColumnFamilyMerge) [set_key, set_value] c
        else if tag = kTypeColumnFamilyBlobIndex \<or> tag = kTypeBlobIndex then
          read_fields ''bad WriteBatch BlobIndex'' (tag = kTypeColumnFamilyBlobIndex) [set_key, set_value] c
        else if tag = kTypeLogData then read_fields ''bad WriteBatch Blob'' False [set_blob] c
        else if tag = kTypeNoop \<or> tag = kTypeBeginPrepareXID
             \<or> tag = kTypeBeginPersistedPrepareXID \<or> tag = kTypeBeginUnprepareXID then (Status_OK, c)
        else if tag = kTypeEndPrepareXID then read_fields ''bad EndPrepare XID'' False [set_xid] c
        else if tag = kTypeCommitXID then read_fields ''bad Commit XID'' False [set_xid] c
        else if tag = kTypeRollbackXID then read_fields ''bad Rollback XID'' False [set_xid] c
        else (Corruption ''unknown WriteBatch tag'', c))"

definition ReadKeyFromWriteBatchEntry :: "slice \<Rightarrow> bool \<Rightarrow> (slice \<times> slice) option" where
  "ReadKeyFromWriteBatchEntry input cf_record =
    (let input = drop 1 input
     in if cf_record then (case GetVarint32 input of None \<Rightarrow> None | Some (cf, r) \<Rightarrow> GetLengthPrefixedSlice r)
        else GetLengthPrefixedSlice input)"

text \<open>
  The switch of \<^verbatim>\<open>Iterate\<close>: the call for the record in the cursor, with the status, the flag
  \<^verbatim>\<open>empty_batch\<close>, the counter \<^verbatim>\<open>found\<close> and the handler's state after it. The status of
  the \<^verbatim>\<open>Mark...\<close> calls is dropped, as in the source.
\<close>

definition counted_call ::
    "(status \<times> 's) \<Rightarrow> bool \<Rightarrow> bool \<Rightarrow> u32 \<Rightarrow> status \<times> bool \<times> u32 \<times> 's" where
  "counted_call r empty_after empty_batch found =
    (if ok (fst r) then (fst r, empty_after, found + 1, snd r) else (fst r, empty_batch, found, snd r))"

definition Iterate_switch ::
    "'s Handler \<Rightarrow> wb_cursor \<Rightarrow> status \<Rightarrow> bool \<Rightarrow> u32 \<Rightarrow> 's \<Rightarrow> status \<times> bool \<times> u32 \<times> 's" where
  "Iterate_switch h c s empty_batch found st =
    (let tag = cur_tag c; cf = cur_cf c; key = cur_key c; value = cur_value c
     in if tag = kTypeColumnFamilyValue \<or> tag = kTypeValue then
          counted_call (h_PutCF h cf key value st) False empty_batch found
        else if tag = kTypeColumnFamilyDeletion \<or> tag = kTypeDeletion then
          counted_call (h_DeleteCF h cf key st) False empty_batch found
        else if tag = kTypeColumnFamilySingleDeletion \<or> tag = kTypeSingleDeletion then
          counted_call (h_SingleDeleteCF h cf key st) False empty_batch found
        else if tag = kTypeColumnFamilyRangeDeletion \<or> tag = kTypeRangeDeletion then
          counted_call (h_DeleteRangeCF h cf key value st) False empty_batch found
        else if tag = kTypeColumnFamilyMerge \<or> tag = kTypeMerge then
          counted_call (h_MergeCF h cf key value st) False empty_batch found
        else if tag = kTypeColumnFamilyBlobIndex \<or> tag = kTypeBlobIndex then
          counted_call (h_PutBlobIndexCF h cf key value st) empty_batch empty_batch found
        else if tag = kTypeLogData then (s, False, found, h_LogData h (cur_blob c) st)
        else if tag = kTypeBeginPrepareXID then
          (let st = snd (h_MarkBeginPrepare h False st);
               s = (if \<not> h_WriteAfterCommit h st then
                      NotSupported ''WriteCommitted txn tag when write_after_commit_ is disabled (in WritePrepared/WriteUnprepared mode). If it is not due to corruption, the WAL must be emptied before changing the WritePolicy.''
                    else s);
               s = (if h_WriteBeforePrepare h st then
                      NotSupported ''WriteCommitted txn tag when write_before_prepare_ is enabled (in WriteUnprepared mode). If it is not due to corruption, the WAL must be emptied before changing the WritePolicy.''
                    else s)
           in (s, False, found, st))
        else if tag = kTypeBeginPersistedPrepareXID then
          (let st = snd (h_MarkBeginPrepare h False st);
               s = (if h_WriteAfterCommit h st then
                      NotSupported ''WritePrepared/WriteUnprepared txn tag when write_after_commit_ is enabled (in default WriteCommitted mode). If it is not due to corruption, the WAL must be emptied before changing the WritePolicy.''
                    else s)
           in (s, False, found, st))
        else if tag = kTypeBeginUnprepareXID then
          (let st = snd (h_MarkBeginPrepare h True st);
               s = (if h_WriteAfterCommit h st then
                      NotSupported ''WriteUnprepared txn tag when write_after_commit_ is enabled (in default WriteCommitted mode). If it is not due to corruption, the WAL must be emptied before changing the WritePolicy.''
                    else s);
               s = (if \<not> h_WriteBeforePrepare h st then
                      NotSupported ''WriteUnprepared txn tag when write_before_prepare_ is disabled (in WriteCommitted/WritePrepared mode). If it is not due to corruption, the WAL must be emptied before changing the WritePolicy.''
                    else s)
           in (s, False, found, st))
        else if tag = kTypeEndPrepareXID then (s, True, found, snd (h_MarkEndPrepare h (cur_xid c) st))
        else if tag = kTypeCommitXID then (s, True, found, snd (h_MarkCommit h (cur_xid c) st))
        else if tag = kTypeRollbackXID then (s, True, found, snd (h_MarkRollback h (cur_xid c) st))
        else if tag = kTypeNoop then (s, True, found, snd (h_MarkNoop h empty_batch st))
        else (Corruption ''unknown WriteBatch tag'', empty_batch, found, st))"

lemma fold_bind_None [simp]: "fold (\<lambda>put r. Option.bind r (cur_GetSlice put)) puts None = None"
  by (induction puts) auto

lemma cur_GetSlice_shrinks:
  assumes "\<And>x c. cur_input (put x c) = cur_input c" "cur_GetSlice put c = Some c'"
  shows "length (cur_input c') \<le> length (cur_input c)"
  using assms by (auto simp: cur_GetSlice_def split: option.splits dest: GetLengthPrefixedSlice_shrinks)

lemma fold_GetSlice_shrinks:
  assumes "\<And>put x c. put \<in> set puts \<Longrightarrow> cur_input (put x c) = cur_input c"
    and "fold (\<lambda>put r. Option.bind r (cur_GetSlice put)) puts (Some c) = Some c'"
  shows "length (cur_input c') \<le> length (cur_input c)"
  using assms
proof (induction puts arbitrary: c)
  case (Cons put puts)
  then obtain c1 where 1: "cur_GetSlice put c = Some c1"
    by (cases "cur_GetSlice put c") auto
  have "length (cur_input c1) \<le> length (cur_input c)"
    using cur_GetSlice_shrinks 1 Cons.prems(1) by (metis list.set_intros(1))
  moreover have "length (cur_input c') \<le> length (cur_input c1)"
    by (rule Cons.IH) (use Cons.prems 1 in auto)
  ultimately show ?case by simp
qed simp

lemma set_field_input [simp]:
  "cur_input (set_key x c) = cur_input c" "cur_input (set_value x c) = cur_input c"
  "cur_input (set_blob x c) = cur_input c" "cur_input (set_xid x c) = cur_input c"
  by (simp_all add: set_key_def set_value_def set_blob_def set_xid_def)

lemma read_fields_shrinks:
  assumes "\<And>put x c. put \<in> set puts \<Longrightarrow> cur_input (put x c) = cur_input c"
    and "read_fields msg has_cf puts c = (s, c')" "ok s"
  shows "length (cur_input c') \<le> length (cur_input c)"
proof -
  obtain c1 where c1: "(if has_cf then cur_GetVarint32_cf c else Some c) = Some c1"
    and f: "fold (\<lambda>put r. Option.bind r (cur_GetSlice put)) puts (Some c1) = Some c'"
    using assms(2,3)
    by (cases "if has_cf then cur_GetVarint32_cf c else Some c")
      (auto simp: read_fields_def split: option.splits)
  have "length (cur_input c1) \<le> length (cur_input c)"
    using c1 by (auto simp: cur_GetVarint32_cf_def split: if_splits option.splits dest!: GetVarint32_shrinks)
  moreover have "length (cur_input c') \<le> length (cur_input c1)"
    by (rule fold_GetSlice_shrinks [OF _ f]) (rule assms(1))
  ultimately show ?thesis by simp
qed

lemma ReadRecord_shrinks:
  assumes "ReadRecordFromWriteBatch c = (s, c')" "ok s" "cur_input c \<noteq> []"
  shows "length (cur_input c') < length (cur_input c)"
proof -
  have *: "length (cur_input c') \<le> length (tl (cur_input c))"
    using assms(1) unfolding ReadRecordFromWriteBatch_def Let_def
    by (auto split: if_splits dest!: read_fields_shrinks [rotated, OF _ assms(2)])
  show ?thesis using * assms(3) by (cases "cur_input c") auto
qed

text \<open>
  The loop of \<^verbatim>\<open>Iterate\<close> gives the status, \<^verbatim>\<open>handler_continue\<close>, \<^verbatim>\<open>found\<close> and the
  handler's state. A \<^verbatim>\<open>return\<close> from its middle is a status that is not ok, which the code
  after the loop returns. The counter is 32 bits wide, as the count it is compared with.
\<close>

function Iterate_loop ::
    "'s Handler \<Rightarrow> wb_cursor \<Rightarrow> bool \<Rightarrow> u32 \<Rightarrow> status \<Rightarrow> bool \<Rightarrow> 's \<Rightarrow> status \<times> bool \<times> u32 \<times> 's" where
  "Iterate_loop h c empty_batch found s last_was_try_again st =
    (if (ok s \<and> cur_input c \<noteq> []) \<or> IsTryAgain s then
       case h_Continue h st of (cont, st) \<Rightarrow>
       if \<not> cont then (s, False, found, st)
       else if \<not> IsTryAgain s then
         case ReadRecordFromWriteBatch (c\<lparr>cur_tag := 0, cur_cf := 0\<rparr>) of (s, c') \<Rightarrow>
         if \<not> ok s then (s, True, found, st)
         else case Iterate_switch h c' s empty_batch found st of (s, empty_batch, found, st) \<Rightarrow>
              Iterate_loop h c' empty_batch found s False st
       else if last_was_try_again then
         (Corruption ''two consecutive TryAgain in WriteBatch handler; this is either a software bug or data corruption.'',
          True, found, st)
       else case Iterate_switch h c Status_OK empty_batch found st of (s, empty_batch, found, st) \<Rightarrow>
            Iterate_loop h c empty_batch found s True st
     else (s, True, found, st))"
  by pat_completeness auto
termination
  by (relation "measure (\<lambda>(h, c, e, f, s, last, st). 2 * length (cur_input c) + (if last then 0 else 1))")
    (auto dest!: ReadRecord_shrinks [OF sym])

declare Iterate_loop.simps [simp del]

definition Iterate :: "'s Handler \<Rightarrow> WriteBatch \<Rightarrow> 's \<Rightarrow> status \<times> 's" where
  "Iterate h b st =
    (if length (rep b) < kHeader then (Corruption ''malformed WriteBatch (too small)'', st)
     else case Iterate_loop h
                 \<lparr>cur_input = drop kHeader (rep b), cur_tag = 0, cur_cf = 0, cur_key = [], cur_value = [],
                  cur_blob = [], cur_xid = []\<rparr> True 0 Status_OK False st of
       (s, handler_continue, found, st) \<Rightarrow>
         if \<not> ok s then (s, st)
         else if handler_continue \<and> found \<noteq> WB_Count b then (Corruption ''WriteBatch has wrong count'', st)
         else (Status_OK, st))"

text \<open>\<^verbatim>\<open>ComputeContentFlags\<close> stores the flags it computes: it also gives the batch after it.\<close>

definition ComputeContentFlags :: "WriteBatch \<Rightarrow> u32 \<times> WriteBatch" where
  "ComputeContentFlags b =
    (if content_flags b AND DEFERRED \<noteq> 0 then
       let rv = snd (Iterate BatchContentClassifier b 0) in (rv, b\<lparr>content_flags := rv\<rparr>)
     else (content_flags b, b))"

definition HasPut :: "WriteBatch \<Rightarrow> bool" where
  "HasPut b = (fst (ComputeContentFlags b) AND HAS_PUT \<noteq> 0)"
definition HasDelete :: "WriteBatch \<Rightarrow> bool" where
  "HasDelete b = (fst (ComputeContentFlags b) AND HAS_DELETE \<noteq> 0)"
definition HasSingleDelete :: "WriteBatch \<Rightarrow> bool" where
  "HasSingleDelete b = (fst (ComputeContentFlags b) AND HAS_SINGLE_DELETE \<noteq> 0)"
definition HasDeleteRange :: "WriteBatch \<Rightarrow> bool" where
  "HasDeleteRange b = (fst (ComputeContentFlags b) AND HAS_DELETE_RANGE \<noteq> 0)"
definition HasMerge :: "WriteBatch \<Rightarrow> bool" where
  "HasMerge b = (fst (ComputeContentFlags b) AND HAS_MERGE \<noteq> 0)"
definition HasBeginPrepare :: "WriteBatch \<Rightarrow> bool" where
  "HasBeginPrepare b = (fst (ComputeContentFlags b) AND HAS_BEGIN_PREPARE \<noteq> 0)"
definition HasEndPrepare :: "WriteBatch \<Rightarrow> bool" where
  "HasEndPrepare b = (fst (ComputeContentFlags b) AND HAS_END_PREPARE \<noteq> 0)"
definition HasCommit :: "WriteBatch \<Rightarrow> bool" where
  "HasCommit b = (fst (ComputeContentFlags b) AND HAS_COMMIT \<noteq> 0)"
definition HasRollback :: "WriteBatch \<Rightarrow> bool" where
  "HasRollback b = (fst (ComputeContentFlags b) AND HAS_ROLLBACK \<noteq> 0)"

section \<open>The records of a batch\<close>

text \<open>An operation of a batch, and its encoding: the format the comment at the head of
  \<^verbatim>\<open>db/write_batch.cc\<close> describes.\<close>

datatype wb_op =
    OpPut u32 slice slice
  | OpDelete u32 slice
  | OpSingleDelete u32 slice
  | OpDeleteRange u32 slice slice
  | OpMerge u32 slice slice
  | OpBlobIndex u32 slice slice
  | OpLogData slice
  | OpNoop
  | OpBeginPrepare
  | OpBeginPersistedPrepare
  | OpBeginUnprepare
  | OpEndPrepare slice
  | OpCommit slice
  | OpRollback slice

definition enc_tag :: "u32 \<Rightarrow> byte \<Rightarrow> byte \<Rightarrow> bytes" where
  "enc_tag cf tag cf_tag = (if cf = 0 then [tag] else cf_tag # EncodeVarint32 cf)"

abbreviation enc_slice :: "slice \<Rightarrow> bytes" where
  "enc_slice s \<equiv> PutLengthPrefixedSlice [] s"

fun enc_op :: "wb_op \<Rightarrow> bytes" where
  "enc_op (OpPut cf k v) = enc_tag cf kTypeValue kTypeColumnFamilyValue @ enc_slice k @ enc_slice v"
| "enc_op (OpDelete cf k) = enc_tag cf kTypeDeletion kTypeColumnFamilyDeletion @ enc_slice k"
| "enc_op (OpSingleDelete cf k) = enc_tag cf kTypeSingleDeletion kTypeColumnFamilySingleDeletion @ enc_slice k"
| "enc_op (OpDeleteRange cf k v) =
     enc_tag cf kTypeRangeDeletion kTypeColumnFamilyRangeDeletion @ enc_slice k @ enc_slice v"
| "enc_op (OpMerge cf k v) = enc_tag cf kTypeMerge kTypeColumnFamilyMerge @ enc_slice k @ enc_slice v"
| "enc_op (OpBlobIndex cf k v) = enc_tag cf kTypeBlobIndex kTypeColumnFamilyBlobIndex @ enc_slice k @ enc_slice v"
| "enc_op (OpLogData x) = kTypeLogData # enc_slice x"
| "enc_op OpNoop = [kTypeNoop]"
| "enc_op OpBeginPrepare = [kTypeBeginPrepareXID]"
| "enc_op OpBeginPersistedPrepare = [kTypeBeginPersistedPrepareXID]"
| "enc_op OpBeginUnprepare = [kTypeBeginUnprepareXID]"
| "enc_op (OpEndPrepare x) = kTypeEndPrepareXID # enc_slice x"
| "enc_op (OpCommit x) = kTypeCommitXID # enc_slice x"
| "enc_op (OpRollback x) = kTypeRollbackXID # enc_slice x"

abbreviation enc_ops :: "wb_op list \<Rightarrow> bytes" where
  "enc_ops ops \<equiv> concat (map enc_op ops)"

fun op_ok :: "wb_op \<Rightarrow> bool" where
  "op_ok (OpPut cf k v) \<longleftrightarrow> length k < 2 ^ 32 \<and> length v < 2 ^ 32"
| "op_ok (OpDelete cf k) \<longleftrightarrow> length k < 2 ^ 32"
| "op_ok (OpSingleDelete cf k) \<longleftrightarrow> length k < 2 ^ 32"
| "op_ok (OpDeleteRange cf k v) \<longleftrightarrow> length k < 2 ^ 32 \<and> length v < 2 ^ 32"
| "op_ok (OpMerge cf k v) \<longleftrightarrow> length k < 2 ^ 32 \<and> length v < 2 ^ 32"
| "op_ok (OpBlobIndex cf k v) \<longleftrightarrow> length k < 2 ^ 32 \<and> length v < 2 ^ 32"
| "op_ok (OpLogData x) \<longleftrightarrow> length x < 2 ^ 32"
| "op_ok (OpEndPrepare x) \<longleftrightarrow> length x < 2 ^ 32"
| "op_ok (OpCommit x) \<longleftrightarrow> length x < 2 ^ 32"
| "op_ok (OpRollback x) \<longleftrightarrow> length x < 2 ^ 32"
| "op_ok _ \<longleftrightarrow> True"

fun op_counted :: "wb_op \<Rightarrow> bool" where
  "op_counted (OpPut cf k v) \<longleftrightarrow> True"
| "op_counted (OpDelete cf k) \<longleftrightarrow> True"
| "op_counted (OpSingleDelete cf k) \<longleftrightarrow> True"
| "op_counted (OpDeleteRange cf k v) \<longleftrightarrow> True"
| "op_counted (OpMerge cf k v) \<longleftrightarrow> True"
| "op_counted (OpBlobIndex cf k v) \<longleftrightarrow> True"
| "op_counted _ \<longleftrightarrow> False"

fun op_flag :: "wb_op \<Rightarrow> u32" where
  "op_flag (OpPut cf k v) = HAS_PUT"
| "op_flag (OpDelete cf k) = HAS_DELETE"
| "op_flag (OpSingleDelete cf k) = HAS_SINGLE_DELETE"
| "op_flag (OpDeleteRange cf k v) = HAS_DELETE_RANGE"
| "op_flag (OpMerge cf k v) = HAS_MERGE"
| "op_flag (OpBlobIndex cf k v) = HAS_BLOB_INDEX"
| "op_flag OpBeginPrepare = HAS_BEGIN_PREPARE"
| "op_flag OpBeginPersistedPrepare = HAS_BEGIN_PREPARE"
| "op_flag OpBeginUnprepare = HAS_BEGIN_PREPARE OR HAS_BEGIN_UNPREPARE"
| "op_flag (OpEndPrepare x) = HAS_END_PREPARE"
| "op_flag (OpCommit x) = HAS_COMMIT"
| "op_flag (OpRollback x) = HAS_ROLLBACK"
| "op_flag _ = 0"

definition count_ops :: "wb_op list \<Rightarrow> u32" where
  "count_ops ops = of_nat (length (filter op_counted ops))"

definition flags_of :: "wb_op list \<Rightarrow> u32" where
  "flags_of ops = fold (\<lambda>op f. f OR op_flag op) ops 0"

text \<open>Whether the batch boundary flag is set after an operation.\<close>

fun empty_after :: "wb_op \<Rightarrow> bool \<Rightarrow> bool" where
  "empty_after (OpBlobIndex cf k v) e = e"
| "empty_after OpNoop e = True"
| "empty_after (OpEndPrepare x) e = True"
| "empty_after (OpCommit x) e = True"
| "empty_after (OpRollback x) e = True"
| "empty_after _ e = False"

text \<open>The transaction markers that a handler with the given write policy accepts.\<close>

fun op_policy :: "bool \<Rightarrow> bool \<Rightarrow> wb_op \<Rightarrow> bool" where
  "op_policy after_commit before_prepare OpBeginPrepare \<longleftrightarrow> after_commit \<and> \<not> before_prepare"
| "op_policy after_commit before_prepare OpBeginPersistedPrepare \<longleftrightarrow> \<not> after_commit"
| "op_policy after_commit before_prepare OpBeginUnprepare \<longleftrightarrow> \<not> after_commit \<and> before_prepare"
| "op_policy after_commit before_prepare _ \<longleftrightarrow> True"

text \<open>The cursor after reading the record of an operation.\<close>

definition at_record :: "byte \<Rightarrow> u32 \<Rightarrow> slice \<Rightarrow> wb_cursor \<Rightarrow> wb_cursor" where
  "at_record tag cf r c = c\<lparr>cur_input := r, cur_tag := tag, cur_cf := cf\<rparr>"

fun op_cursor :: "wb_op \<Rightarrow> slice \<Rightarrow> wb_cursor \<Rightarrow> wb_cursor" where
  "op_cursor (OpPut cf k v) r c =
     set_value v (set_key k (at_record (if cf = 0 then kTypeValue else kTypeColumnFamilyValue) cf r c))"
| "op_cursor (OpDelete cf k) r c =
     set_key k (at_record (if cf = 0 then kTypeDeletion else kTypeColumnFamilyDeletion) cf r c)"
| "op_cursor (OpSingleDelete cf k) r c =
     set_key k (at_record (if cf = 0 then kTypeSingleDeletion else kTypeColumnFamilySingleDeletion) cf r c)"
| "op_cursor (OpDeleteRange cf k v) r c =
     set_value v (set_key k (at_record (if cf = 0 then kTypeRangeDeletion else kTypeColumnFamilyRangeDeletion) cf r c))"
| "op_cursor (OpMerge cf k v) r c =
     set_value v (set_key k (at_record (if cf = 0 then kTypeMerge else kTypeColumnFamilyMerge) cf r c))"
| "op_cursor (OpBlobIndex cf k v) r c =
     set_value v (set_key k (at_record (if cf = 0 then kTypeBlobIndex else kTypeColumnFamilyBlobIndex) cf r c))"
| "op_cursor (OpLogData x) r c = set_blob x (at_record kTypeLogData 0 r c)"
| "op_cursor OpNoop r c = at_record kTypeNoop 0 r c"
| "op_cursor OpBeginPrepare r c = at_record kTypeBeginPrepareXID 0 r c"
| "op_cursor OpBeginPersistedPrepare r c = at_record kTypeBeginPersistedPrepareXID 0 r c"
| "op_cursor OpBeginUnprepare r c = at_record kTypeBeginUnprepareXID 0 r c"
| "op_cursor (OpEndPrepare x) r c = set_xid x (at_record kTypeEndPrepareXID 0 r c)"
| "op_cursor (OpCommit x) r c = set_xid x (at_record kTypeCommitXID 0 r c)"
| "op_cursor (OpRollback x) r c = set_xid x (at_record kTypeRollbackXID 0 r c)"

lemma PutLengthPrefixedSlice_append:
  "PutLengthPrefixedSlice r s = r @ enc_slice s"
  by (simp add: PutLengthPrefixedSlice_def PutVarint32_def)

lemma GetLengthPrefixedSlice_enc [simp]:
  "length s < 2 ^ 32 \<Longrightarrow> GetLengthPrefixedSlice (enc_slice s @ r) = Some (s, r)"
  using lps.dec_enc by simp

lemmas set_field_defs = set_key_def set_value_def set_blob_def set_xid_def

lemma cur_GetSlice_enc:
  "length s < 2 ^ 32 \<Longrightarrow> cur_input c = enc_slice s @ r \<Longrightarrow>
   cur_GetSlice put c = Some (put s (c\<lparr>cur_input := r\<rparr>))"
  by (simp add: cur_GetSlice_def)

lemma read_fields_1:
  "length x < 2 ^ 32 \<Longrightarrow> cur_input c = (if has_cf then EncodeVarint32 cf else []) @ enc_slice x @ r \<Longrightarrow>
   read_fields msg has_cf [put] c
     = (Status_OK, put x (if has_cf then c\<lparr>cur_cf := cf, cur_input := r\<rparr> else c\<lparr>cur_input := r\<rparr>))"
  by (simp add: read_fields_def cur_GetVarint32_cf_def GetVarint32_Encode cur_GetSlice_def)

lemma read_fields_2:
  assumes "length x < 2 ^ 32" "length y < 2 ^ 32"
    and "cur_input c = (if has_cf then EncodeVarint32 cf else []) @ enc_slice x @ enc_slice y @ r"
  shows "read_fields msg has_cf [set_key, set_value] c
     = (Status_OK, set_value y (set_key x (if has_cf then c\<lparr>cur_cf := cf, cur_input := r\<rparr> else c\<lparr>cur_input := r\<rparr>)))"
  using assms
  by (simp add: read_fields_def cur_GetVarint32_cf_def GetVarint32_Encode cur_GetSlice_def set_field_defs)

lemma ReadRecord_enc:
  assumes "op_ok op" "cur_input c = enc_op op @ r"
  shows "ReadRecordFromWriteBatch c = (Status_OK, op_cursor op r c)"
  using assms
  by (cases op; cases c)
    (simp_all add: ReadRecordFromWriteBatch_def enc_tag_def value_type_defs at_record_def Let_def
       read_fields_1 [where cf = 0] read_fields_2 [where cf = 0] set_field_defs
       read_fields_1 [where has_cf = True] read_fields_2 [where has_cf = True] split: if_splits)

text \<open>The handler's state after a list of operations, and the boundary flag.\<close>

fun run_ops :: "(wb_op \<Rightarrow> bool \<Rightarrow> 's \<Rightarrow> 's) \<Rightarrow> wb_op list \<Rightarrow> bool \<Rightarrow> 's \<Rightarrow> 's" where
  "run_ops step [] e st = st"
| "run_ops step (op # ops) e st = run_ops step ops (empty_after op e) (step op e st)"

fun empty_run :: "wb_op list \<Rightarrow> bool \<Rightarrow> bool" where
  "empty_run [] e = e"
| "empty_run (op # ops) e = empty_run ops (empty_after op e)"

lemma count_ops_simps [simp]: "count_ops [] = 0"
  "count_ops (xs @ ys) = count_ops xs + count_ops ys"
  by (simp_all add: count_ops_def)

lemma count_ops_Cons: "count_ops (op # ops) = (if op_counted op then 1 else 0) + count_ops ops"
  by (simp add: count_ops_def)

lemma fold_or_flags: "fold (\<lambda>op f. f OR op_flag op) ops f = f OR flags_of ops"
proof (induction ops arbitrary: f)
  case (Cons op ops)
  show ?case using Cons.IH [of "f OR op_flag op"] Cons.IH [of "op_flag op"]
    by (simp add: flags_of_def or.assoc)
qed (simp add: flags_of_def)

lemma flags_of_simps [simp]: "flags_of [] = 0" "flags_of (op # ops) = op_flag op OR flags_of ops"
  "flags_of (xs @ ys) = flags_of xs OR flags_of ys"
  using fold_or_flags [of "[]" 0] fold_or_flags [of ops "op_flag op"] fold_or_flags [of ys "flags_of xs"]
  by (simp_all add: flags_of_def)

lemma cur_input_op_cursor [simp]: "cur_input (op_cursor op r c) = r"
  by (cases op) (simp_all add: at_record_def)

lemma enc_op_nonempty [simp]: "enc_op op \<noteq> []"
  by (cases op) (simp_all add: enc_tag_def)

section \<open>A handler that accepts every record\<close>

text \<open>
  The contract of a handler whose calls all succeed: \<open>step\<close> is what a call does to its state.
  The statuses of the marker calls are free, \<^verbatim>\<open>Iterate\<close> drops them.
\<close>

locale wb_handler =
  fixes h :: "'s Handler" and step :: "wb_op \<Rightarrow> bool \<Rightarrow> 's \<Rightarrow> 's" and after_commit before_prepare :: bool
  assumes continue: "h_Continue h st = (True, st)"
    and put: "h_PutCF h cf k v st = (Status_OK, step (OpPut cf k v) e st)"
    and delete: "h_DeleteCF h cf k st = (Status_OK, step (OpDelete cf k) e st)"
    and single_delete: "h_SingleDeleteCF h cf k st = (Status_OK, step (OpSingleDelete cf k) e st)"
    and delete_range: "h_DeleteRangeCF h cf k v st = (Status_OK, step (OpDeleteRange cf k v) e st)"
    and merge: "h_MergeCF h cf k v st = (Status_OK, step (OpMerge cf k v) e st)"
    and blob_index: "h_PutBlobIndexCF h cf k v st = (Status_OK, step (OpBlobIndex cf k v) e st)"
    and log_data: "h_LogData h x st = step (OpLogData x) e st"
    and begin_prepare: "after_commit \<Longrightarrow> snd (h_MarkBeginPrepare h False st) = step OpBeginPrepare e st"
    and begin_persisted: "\<not> after_commit \<Longrightarrow> snd (h_MarkBeginPrepare h False st) = step OpBeginPersistedPrepare e st"
    and begin_unprepare: "snd (h_MarkBeginPrepare h True st) = step OpBeginUnprepare e st"
    and end_prepare: "snd (h_MarkEndPrepare h x st) = step (OpEndPrepare x) e st"
    and noop: "snd (h_MarkNoop h e st) = step OpNoop e st"
    and rollback: "snd (h_MarkRollback h x st) = step (OpRollback x) e st"
    and commit: "snd (h_MarkCommit h x st) = step (OpCommit x) e st"
    and policy: "h_WriteAfterCommit h st = after_commit" "h_WriteBeforePrepare h st = before_prepare"
begin

lemma Iterate_switch_op:
  assumes "op_policy after_commit before_prepare op"
  shows "Iterate_switch h (op_cursor op r c) Status_OK e found st
    = (Status_OK, empty_after op e, (if op_counted op then found + 1 else found), step op e st)"
  using assms
  by (cases op)
    (simp_all add: Iterate_switch_def Let_def value_type_defs at_record_def set_field_defs counted_call_def policy
       put [where e = e] delete [where e = e] single_delete [where e = e] delete_range [where e = e]
       merge [where e = e] blob_index [where e = e] log_data [where e = e] begin_prepare [where e = e]
       begin_persisted [where e = e] begin_unprepare [where e = e] end_prepare [where e = e] noop
       rollback [where e = e] commit [where e = e])

lemma Iterate_loop_op:
  assumes "op_ok op" "op_policy after_commit before_prepare op" "cur_input c = enc_op op @ r"
  shows "\<exists>c'. cur_input c' = r \<and> Iterate_loop h c e found Status_OK lw st
    = Iterate_loop h c' (empty_after op e) (if op_counted op then found + 1 else found) Status_OK False (step op e st)"
proof -
  let ?c = "c\<lparr>cur_tag := 0, cur_cf := 0\<rparr>"
  have 1: "ReadRecordFromWriteBatch ?c = (Status_OK, op_cursor op r ?c)"
    by (rule ReadRecord_enc) (use assms in simp_all)
  have 2: "cur_input c \<noteq> []" using assms(3) by simp
  show ?thesis
    by (rule exI [of _ "op_cursor op r ?c"], subst Iterate_loop.simps)
      (simp add: 1 2 continue Iterate_switch_op [OF assms(2)])
qed

lemma Iterate_loop_ops:
  assumes "\<forall>op \<in> set ops. op_ok op \<and> op_policy after_commit before_prepare op"
    and "cur_input c = enc_ops ops @ r"
  shows "\<exists>c' l. cur_input c' = r \<and> Iterate_loop h c e found Status_OK lw st
    = Iterate_loop h c' (empty_run ops e) (found + count_ops ops) Status_OK l (run_ops step ops e st)"
  using assms
proof (induction ops arbitrary: c e found lw st)
  case Nil
  then show ?case by auto
next
  case (Cons op ops)
  obtain c1 where c1: "cur_input c1 = enc_ops ops @ r"
    and eq1: "Iterate_loop h c e found Status_OK lw st
      = Iterate_loop h c1 (empty_after op e) (if op_counted op then found + 1 else found) Status_OK False (step op e st)"
    using Iterate_loop_op [of op c "enc_ops ops @ r" e found lw st] Cons.prems
    by (auto simp del: Iterate_loop.simps)
  obtain c2 l where "cur_input c2 = r"
    and "Iterate_loop h c1 (empty_after op e) (if op_counted op then found + 1 else found) Status_OK False (step op e st)
      = Iterate_loop h c2 (empty_run ops (empty_after op e))
          ((if op_counted op then found + 1 else found) + count_ops ops) Status_OK l
          (run_ops step ops (empty_after op e) (step op e st))"
    using Cons.IH [OF _ c1, of "empty_after op e" "if op_counted op then found + 1 else found" False "step op e st"]
      Cons.prems(1) by (meson list.set_intros(2))
  moreover have "(if op_counted op then found + 1 else found) + count_ops ops = found + count_ops (op # ops)"
    by (simp add: count_ops_Cons)
  ultimately show ?case unfolding eq1 by (intro exI [of _ c2] exI [of _ l]) (simp only: run_ops.simps empty_run.simps)
qed

lemma Iterate_ops:
  assumes "\<forall>op \<in> set ops. op_ok op \<and> op_policy after_commit before_prepare op"
    and "rep b = hdr @ enc_ops ops" "length hdr = kHeader"
  shows "Iterate h b st
    = (if count_ops ops = WB_Count b then Status_OK else Corruption ''WriteBatch has wrong count'',
       run_ops step ops True st)"
proof -
  let ?c = "\<lparr>cur_input = drop kHeader (rep b), cur_tag = 0, cur_cf = 0, cur_key = [], cur_value = [],
    cur_blob = [], cur_xid = []\<rparr>"
  have "cur_input ?c = enc_ops ops @ []" using assms(2,3) by simp
  from Iterate_loop_ops [OF assms(1) this, of True 0 False st] obtain c l where "cur_input c = []"
    and eq: "Iterate_loop h ?c True 0 Status_OK False st
      = Iterate_loop h c (empty_run ops True) (count_ops ops) Status_OK l (run_ops step ops True st)"
    by auto
  then have "Iterate_loop h ?c True 0 Status_OK False st
      = (Status_OK, True, count_ops ops, run_ops step ops True st)"
    by (subst eq, subst Iterate_loop.simps) simp
  moreover have "\<not> length (rep b) < kHeader" using assms(2,3) by simp
  ultimately show ?thesis unfolding Iterate_def by (simp only: if_False prod.case ok_OK) simp
qed

text \<open>A record that cannot be read ends the iteration; the handler has seen what came before it.\<close>

lemma Iterate_bad_record:
  assumes "\<forall>op \<in> set ops. op_ok op \<and> op_policy after_commit before_prepare op"
    and "rep b = hdr @ enc_ops ops @ r" "length hdr = kHeader" "r \<noteq> []"
    and "\<And>c. cur_input c = r \<Longrightarrow> \<exists>m. fst (ReadRecordFromWriteBatch c) = Corruption m"
  shows "\<exists>m. Iterate h b st = (Corruption m, run_ops step ops True st)"
proof -
  let ?c = "\<lparr>cur_input = drop kHeader (rep b), cur_tag = 0, cur_cf = 0, cur_key = [], cur_value = [],
    cur_blob = [], cur_xid = []\<rparr>"
  have "cur_input ?c = enc_ops ops @ r" using assms(2,3) by simp
  from Iterate_loop_ops [OF assms(1) this, of True 0 False st] obtain c l where c: "cur_input c = r"
    and eq: "Iterate_loop h ?c True 0 Status_OK False st
      = Iterate_loop h c (empty_run ops True) (count_ops ops) Status_OK l (run_ops step ops True st)"
    by auto
  have "\<exists>m. fst (ReadRecordFromWriteBatch (c\<lparr>cur_tag := 0, cur_cf := 0\<rparr>)) = Corruption m"
    by (rule assms(5)) (simp add: c)
  then obtain m where "fst (ReadRecordFromWriteBatch (c\<lparr>cur_tag := 0, cur_cf := 0\<rparr>)) = Corruption m" ..
  then have "Iterate_loop h ?c True 0 Status_OK False st
      = (Corruption m, True, count_ops ops, run_ops step ops True st)"
    using c assms(4) by (subst eq, subst Iterate_loop.simps)
      (cases "ReadRecordFromWriteBatch (c\<lparr>cur_tag := 0, cur_cf := 0\<rparr>)", simp add: continue)
  moreover have "\<not> length (rep b) < kHeader" using assms(2,3) by simp
  ultimately have "Iterate h b st = (Corruption m, run_ops step ops True st)"
    unfolding Iterate_def by (simp only: if_False prod.case) simp
  then show ?thesis by blast
qed

end

interpretation classifier: wb_handler BatchContentClassifier "\<lambda>op e f. f OR op_flag op" True False
  by unfold_locales
    (simp_all add: BatchContentClassifier_def Handler_default_def Handler_base_def or.assoc)

text \<open>A handler that lists the calls it gets, under a given write policy.\<close>

definition wb_recorder :: "bool \<Rightarrow> bool \<Rightarrow> wb_op list Handler" where
  "wb_recorder after_commit before_prepare =
    \<lparr>h_PutCF = (\<lambda>cf k v ops. (Status_OK, ops @ [OpPut cf k v])),
     h_DeleteCF = (\<lambda>cf k ops. (Status_OK, ops @ [OpDelete cf k])),
     h_SingleDeleteCF = (\<lambda>cf k ops. (Status_OK, ops @ [OpSingleDelete cf k])),
     h_DeleteRangeCF = (\<lambda>cf k v ops. (Status_OK, ops @ [OpDeleteRange cf k v])),
     h_MergeCF = (\<lambda>cf k v ops. (Status_OK, ops @ [OpMerge cf k v])),
     h_PutBlobIndexCF = (\<lambda>cf k v ops. (Status_OK, ops @ [OpBlobIndex cf k v])),
     h_LogData = (\<lambda>x ops. ops @ [OpLogData x]),
     h_MarkBeginPrepare = (\<lambda>u ops. (Status_OK, ops @ [if u then OpBeginUnprepare
        else if after_commit then OpBeginPrepare else OpBeginPersistedPrepare])),
     h_MarkEndPrepare = (\<lambda>x ops. (Status_OK, ops @ [OpEndPrepare x])),
     h_MarkNoop = (\<lambda>e ops. (Status_OK, ops @ [OpNoop])),
     h_MarkRollback = (\<lambda>x ops. (Status_OK, ops @ [OpRollback x])),
     h_MarkCommit = (\<lambda>x ops. (Status_OK, ops @ [OpCommit x])),
     h_Continue = (\<lambda>ops. (True, ops)),
     h_WriteAfterCommit = (\<lambda>ops. after_commit),
     h_WriteBeforePrepare = (\<lambda>ops. before_prepare)\<rparr>"

interpretation recorder: wb_handler "wb_recorder ac bp" "\<lambda>op e ops. ops @ [op]" ac bp for ac bp
  by unfold_locales (simp_all add: wb_recorder_def)

lemma run_ops_record [simp]: "run_ops (\<lambda>op e ops. ops @ [op]) ops e acc = acc @ ops"
  by (induction ops arbitrary: e acc) auto

lemma run_ops_flags [simp]: "run_ops (\<lambda>op e f. f OR op_flag op) ops e f = f OR flags_of ops"
  by (induction ops arbitrary: e f) (auto simp: or.assoc)

section \<open>The abstract batch\<close>

text \<open>
  What a batch stands for: its operations, the operations at each save point (the newest first)
  and the byte limit. \<open>abs_cmd\<close> says what each call does to it.
\<close>

record abs_batch =
  a_ops :: "wb_op list"
  a_saved :: "wb_op list list"
  a_max :: nat

definition abs_add :: "wb_op \<Rightarrow> abs_batch \<Rightarrow> status \<times> abs_batch" where
  "abs_add op a =
    (if a_max a \<noteq> 0 \<and> kHeader + length (enc_ops (a_ops a @ [op])) > a_max a then (MemoryLimit, a)
     else (Status_OK, a\<lparr>a_ops := a_ops a @ [op]\<rparr>))"

definition abs_push :: "wb_op \<Rightarrow> abs_batch \<Rightarrow> status \<times> abs_batch" where
  "abs_push op a = (Status_OK, a\<lparr>a_ops := a_ops a @ [op]\<rparr>)"

datatype wb_cmd =
    CPut u32 slice slice | CPutParts u32 "slice list" "slice list"
  | CDelete u32 slice | CDeleteParts u32 "slice list"
  | CSingleDelete u32 slice | CSingleDeleteParts u32 "slice list"
  | CDeleteRange u32 slice slice | CDeleteRangeParts u32 "slice list" "slice list"
  | CMerge u32 slice slice | CMergeParts u32 "slice list" "slice list"
  | CPutBlobIndex u32 slice slice | CPutLogData slice | CInsertNoop
  | CMarkCommit slice | CMarkRollback slice
  | CSetSavePoint | CRollbackToSavePoint | CPopSavePoint | CClear

fun run_cmd :: "wb_cmd \<Rightarrow> WriteBatch \<Rightarrow> status \<times> WriteBatch" where
  "run_cmd (CPut cf k v) b = WB_Put b cf k v"
| "run_cmd (CPutParts cf k v) b = WB_PutParts b cf k v"
| "run_cmd (CDelete cf k) b = WB_Delete b cf k"
| "run_cmd (CDeleteParts cf k) b = WB_DeleteParts b cf k"
| "run_cmd (CSingleDelete cf k) b = WB_SingleDelete b cf k"
| "run_cmd (CSingleDeleteParts cf k) b = WB_SingleDeleteParts b cf k"
| "run_cmd (CDeleteRange cf k v) b = WB_DeleteRange b cf k v"
| "run_cmd (CDeleteRangeParts cf k v) b = WB_DeleteRangeParts b cf k v"
| "run_cmd (CMerge cf k v) b = WB_Merge b cf k v"
| "run_cmd (CMergeParts cf k v) b = WB_MergeParts b cf k v"
| "run_cmd (CPutBlobIndex cf k v) b = PutBlobIndex b cf k v"
| "run_cmd (CPutLogData x) b = PutLogData b x"
| "run_cmd CInsertNoop b = InsertNoop b"
| "run_cmd (CMarkCommit x) b = MarkCommit b x"
| "run_cmd (CMarkRollback x) b = MarkRollback b x"
| "run_cmd CSetSavePoint b = (Status_OK, SetSavePoint b)"
| "run_cmd CRollbackToSavePoint b = RollbackToSavePoint b"
| "run_cmd CPopSavePoint b = PopSavePoint b"
| "run_cmd CClear b = (Status_OK, WriteBatch_Clear b)"

definition abs_checked :: "nat \<Rightarrow> slice \<Rightarrow> slice \<Rightarrow> wb_op \<Rightarrow> abs_batch \<Rightarrow> status \<times> abs_batch" where
  "abs_checked limit k v op a =
    (if length k > limit then (InvalidArgument ''key is too large'', a)
     else if length v > limit then (InvalidArgument ''value is too large'', a)
     else abs_add op a)"

fun abs_cmd :: "wb_cmd \<Rightarrow> abs_batch \<Rightarrow> status \<times> abs_batch" where
  "abs_cmd (CPut cf k v) a = abs_checked (2 ^ 32 - 1) k v (OpPut cf k v) a"
| "abs_cmd (CPutParts cf k v) a = abs_checked (2 ^ 32 - 2) (concat k) (concat v) (OpPut cf (concat k) (concat v)) a"
| "abs_cmd (CDelete cf k) a = abs_add (OpDelete cf k) a"
| "abs_cmd (CDeleteParts cf k) a = abs_add (OpDelete cf (concat k)) a"
| "abs_cmd (CSingleDelete cf k) a = abs_add (OpSingleDelete cf k) a"
| "abs_cmd (CSingleDeleteParts cf k) a = abs_add (OpSingleDelete cf (concat k)) a"
| "abs_cmd (CDeleteRange cf k v) a = abs_add (OpDeleteRange cf k v) a"
| "abs_cmd (CDeleteRangeParts cf k v) a = abs_add (OpDeleteRange cf (concat k) (concat v)) a"
| "abs_cmd (CMerge cf k v) a = abs_checked (2 ^ 32 - 1) k v (OpMerge cf k v) a"
| "abs_cmd (CMergeParts cf k v) a = abs_checked (2 ^ 32 - 2) (concat k) (concat v) (OpMerge cf (concat k) (concat v)) a"
| "abs_cmd (CPutBlobIndex cf k v) a = abs_add (OpBlobIndex cf k v) a"
| "abs_cmd (CPutLogData x) a = abs_add (OpLogData x) a"
| "abs_cmd CInsertNoop a = abs_push OpNoop a"
| "abs_cmd (CMarkCommit x) a = abs_push (OpCommit x) a"
| "abs_cmd (CMarkRollback x) a = abs_push (OpRollback x) a"
| "abs_cmd CSetSavePoint a = (Status_OK, a\<lparr>a_saved := a_ops a # a_saved a\<rparr>)"
| "abs_cmd CRollbackToSavePoint a = (case a_saved a of [] \<Rightarrow> (NotFound [], a)
     | ops # rest \<Rightarrow> (Status_OK, a\<lparr>a_ops := ops, a_saved := rest\<rparr>))"
| "abs_cmd CPopSavePoint a = (case a_saved a of [] \<Rightarrow> (NotFound [], a)
     | ops # rest \<Rightarrow> (Status_OK, a\<lparr>a_saved := rest\<rparr>))"
| "abs_cmd CClear a = (Status_OK, a\<lparr>a_ops := [], a_saved := []\<rparr>)"

definition savepoint_of :: "wb_op list \<Rightarrow> SavePoint" where
  "savepoint_of ops =
    \<lparr>sp_size = kHeader + length (enc_ops ops), sp_count = count_ops ops, sp_content_flags = flags_of ops\<rparr>"

definition wb_rel :: "WriteBatch \<Rightarrow> abs_batch \<Rightarrow> bool" where
  "wb_rel b a \<longleftrightarrow>
     rep b = take 8 (rep b) @ EncodeFixed32 (count_ops (a_ops a)) @ enc_ops (a_ops a) \<and>
     content_flags b = flags_of (a_ops a) \<and> max_bytes b = a_max a \<and>
     save_points b = map savepoint_of (a_saved a) \<and>
     sorted_wrt (\<lambda>newer older. prefix older newer) (a_ops a # a_saved a)"

lemma wb_relE:
  assumes "wb_rel b a"
  obtains s where "length s = 8" "rep b = s @ EncodeFixed32 (count_ops (a_ops a)) @ enc_ops (a_ops a)"
    "content_flags b = flags_of (a_ops a)" "max_bytes b = a_max a"
    "save_points b = map savepoint_of (a_saved a)"
    "sorted_wrt (\<lambda>newer older. prefix older newer) (a_ops a # a_saved a)"
proof -
  have r: "rep b = take 8 (rep b) @ EncodeFixed32 (count_ops (a_ops a)) @ enc_ops (a_ops a)"
    using assms by (simp add: wb_rel_def)
  have "length (take 8 (rep b)) = 8"
    using arg_cong [OF r, of length] by (auto simp del: length_take simp: length_take)
  then show ?thesis using that r assms unfolding wb_rel_def by blast
qed

lemma wb_relI:
  assumes "length s = 8" "rep b = s @ EncodeFixed32 (count_ops (a_ops a)) @ enc_ops (a_ops a)"
    "content_flags b = flags_of (a_ops a)" "max_bytes b = a_max a"
    "save_points b = map savepoint_of (a_saved a)"
    "sorted_wrt (\<lambda>newer older. prefix older newer) (a_ops a # a_saved a)"
  shows "wb_rel b a"
  using assms by (simp add: wb_rel_def)

lemma WB_Count_rep:
  "length s = 8 \<Longrightarrow> rep b = s @ EncodeFixed32 n @ r \<Longrightarrow> WB_Count b = n"
  by (simp add: WB_Count_def DecodeFixed32_Encode)

lemma SetCount_rep:
  "length s = 8 \<Longrightarrow> rep b = s @ EncodeFixed32 n @ r \<Longrightarrow> SetCount b k = b\<lparr>rep := s @ EncodeFixed32 k @ r\<rparr>"
  by (simp add: SetCount_def)

lemma LocalSavePoint_rel: "wb_rel b a \<Longrightarrow> LocalSavePoint b = savepoint_of (a_ops a)"
  by (erule wb_relE) (simp add: LocalSavePoint_def savepoint_of_def GetDataSize_def WB_Count_rep kHeader_def)

lemma MemoryLimit_not_OK [simp]: "MemoryLimit \<noteq> Status_OK"
  by (simp add: status_simps)

text \<open>Adding a record commits it, or the byte limit is passed and the batch is as it was.\<close>

lemma LocalSavePoint_commit_rel:
  assumes "wb_rel b a" "length s = 8"
    and rep: "rep b = s @ EncodeFixed32 (count_ops (a_ops a)) @ enc_ops (a_ops a)"
    and b1: "b1 = b\<lparr>rep := s @ EncodeFixed32 (count_ops (a_ops a @ [op])) @ enc_ops (a_ops a @ [op]),
                    content_flags := flags_of (a_ops a @ [op])\<rparr>"
  shows "fst (LocalSavePoint_commit (LocalSavePoint b) b1) = fst (abs_add op a)"
    and "wb_rel (snd (LocalSavePoint_commit (LocalSavePoint b) b1)) (snd (abs_add op a))"
    and "fst (abs_add op a) \<noteq> Status_OK \<Longrightarrow> snd (LocalSavePoint_commit (LocalSavePoint b) b1) = b"
proof -
  have sp: "LocalSavePoint b = savepoint_of (a_ops a)" by (rule LocalSavePoint_rel [OF assms(1)])
  have max: "max_bytes b = a_max a" and fl: "content_flags b = flags_of (a_ops a)"
    and saved: "save_points b = map savepoint_of (a_saved a)"
    and sorted: "sorted_wrt (\<lambda>newer older. prefix older newer) (a_ops a # a_saved a)"
    using assms(1) by (simp_all add: wb_rel_def)
  have len: "length (rep b1) = kHeader + length (enc_ops (a_ops a @ [op]))"
    using assms(2) by (simp add: b1 kHeader_def)
  let ?over = "a_max a \<noteq> 0 \<and> kHeader + length (enc_ops (a_ops a @ [op])) > a_max a"
  have undo: "(SetCount (b1\<lparr>rep := take (sp_size (savepoint_of (a_ops a))) (rep b1)\<rparr>)
      (sp_count (savepoint_of (a_ops a))))\<lparr>content_flags := sp_content_flags (savepoint_of (a_ops a))\<rparr> = b"
    using rep fl assms(2) by (cases b) (simp add: b1 SetCount_def savepoint_of_def kHeader_def)
  have commit: "LocalSavePoint_commit (LocalSavePoint b) b1 = (if ?over then (MemoryLimit, b) else (Status_OK, b1))"
    unfolding LocalSavePoint_commit_def sp undo len by (simp add: b1 max)
  have new: "wb_rel b1 (a\<lparr>a_ops := a_ops a @ [op]\<rparr>)"
    by (rule wb_relI [OF assms(2)]) (use max saved sorted in \<open>auto simp: b1\<close>)
  show "fst (LocalSavePoint_commit (LocalSavePoint b) b1) = fst (abs_add op a)"
    "wb_rel (snd (LocalSavePoint_commit (LocalSavePoint b) b1)) (snd (abs_add op a))"
    "fst (abs_add op a) \<noteq> Status_OK \<Longrightarrow> snd (LocalSavePoint_commit (LocalSavePoint b) b1) = b"
    unfolding commit abs_add_def using new assms(1) by auto
qed

lemma push_tag_enc: "push_tag r cf tag cf_tag = r @ enc_tag cf tag cf_tag"
  by (simp add: push_tag_def enc_tag_def PutVarint32_def)

lemma add_record_rel:
  assumes "wb_rel b a" "op_counted op" "op_flag op = flag"
    and "\<And>r. slices r = r @ body" "enc_op op = enc_tag cf tag cf_tag @ body"
  shows "fst (add_record b cf tag cf_tag slices flag) = fst (abs_add op a)"
    and "wb_rel (snd (add_record b cf tag cf_tag slices flag)) (snd (abs_add op a))"
    and "fst (abs_add op a) \<noteq> Status_OK \<Longrightarrow> snd (add_record b cf tag cf_tag slices flag) = b"
proof -
  obtain s where s: "length s = 8" "rep b = s @ EncodeFixed32 (count_ops (a_ops a)) @ enc_ops (a_ops a)"
    "content_flags b = flags_of (a_ops a)" by (rule wb_relE [OF assms(1)])
  let ?b1 = "b\<lparr>rep := s @ EncodeFixed32 (count_ops (a_ops a @ [op])) @ enc_ops (a_ops a @ [op]),
                content_flags := flags_of (a_ops a @ [op])\<rparr>"
  have eq: "add_record b cf tag cf_tag slices flag = LocalSavePoint_commit (LocalSavePoint b) ?b1"
    using s assms(2-5)
    by (simp add: add_record_def Let_def WB_Count_rep SetCount_rep [OF s(1,2)] push_tag_enc count_ops_Cons)
  show "fst (add_record b cf tag cf_tag slices flag) = fst (abs_add op a)"
    "wb_rel (snd (add_record b cf tag cf_tag slices flag)) (snd (abs_add op a))"
    "fst (abs_add op a) \<noteq> Status_OK \<Longrightarrow> snd (add_record b cf tag cf_tag slices flag) = b"
    unfolding eq by (rule LocalSavePoint_commit_rel [OF assms(1) s(1,2) refl], assumption?)+
qed

text \<open>The two results of a call agree.\<close>

definition wb_sim :: "status \<times> WriteBatch \<Rightarrow> status \<times> abs_batch \<Rightarrow> bool" where
  "wb_sim r r' \<longleftrightarrow> fst r = fst r' \<and> wb_rel (snd r) (snd r')"

lemma add_record_sim:
  assumes "wb_rel b a" "op_counted op" "op_flag op = flag"
    and "\<And>r. slices r = r @ body" "enc_op op = enc_tag cf tag cf_tag @ body"
  shows "wb_sim (add_record b cf tag cf_tag slices flag) (abs_add op a)"
  unfolding wb_sim_def using add_record_rel(1,2) [OF assms] by blast

lemma push_sim:
  assumes "wb_rel b a" "\<not> op_counted op"
    and "b' = b\<lparr>rep := rep b @ enc_op op, content_flags := content_flags b OR op_flag op\<rparr>"
  shows "wb_sim (Status_OK, b') (abs_push op a)"
proof -
  obtain s where "length s = 8" "rep b = s @ EncodeFixed32 (count_ops (a_ops a)) @ enc_ops (a_ops a)"
    "content_flags b = flags_of (a_ops a)" "max_bytes b = a_max a"
    "save_points b = map savepoint_of (a_saved a)"
    "sorted_wrt (\<lambda>newer older. prefix older newer) (a_ops a # a_saved a)" by (rule wb_relE [OF assms(1)])
  then show ?thesis using assms(2,3)
    by (auto simp: wb_sim_def abs_push_def count_ops_Cons intro!: wb_relI [of s])
qed

lemma PutLogData_sim:
  assumes "wb_rel b a"
  shows "wb_sim (PutLogData b x) (abs_add (OpLogData x) a)"
proof -
  obtain s where s: "length s = 8" "rep b = s @ EncodeFixed32 (count_ops (a_ops a)) @ enc_ops (a_ops a)"
    "content_flags b = flags_of (a_ops a)" by (rule wb_relE [OF assms])
  have "PutLogData b x = LocalSavePoint_commit (LocalSavePoint b)
     (b\<lparr>rep := s @ EncodeFixed32 (count_ops (a_ops a @ [OpLogData x])) @ enc_ops (a_ops a @ [OpLogData x]),
        content_flags := flags_of (a_ops a @ [OpLogData x])\<rparr>)"
    using s PutLengthPrefixedSlice_append [of "rep b @ [kTypeLogData]" x]
    by (cases b) (simp add: PutLogData_def count_ops_Cons)
  then show ?thesis
    unfolding wb_sim_def using LocalSavePoint_commit_rel(1,2) [OF assms s(1,2) refl, of "OpLogData x"] by simp
qed

lemma enc_ops_prefix_eq:
  "prefix xs ys \<Longrightarrow> length (enc_ops xs) = length (enc_ops ys) \<Longrightarrow> xs = ys"
  by (auto simp: prefix_def)

lemma RollbackToSavePoint_sim:
  assumes "wb_rel b a"
  shows "wb_sim (RollbackToSavePoint b) (abs_cmd CRollbackToSavePoint a)"
proof -
  obtain s where s: "length s = 8" "rep b = s @ EncodeFixed32 (count_ops (a_ops a)) @ enc_ops (a_ops a)"
    "content_flags b = flags_of (a_ops a)" "max_bytes b = a_max a"
    "save_points b = map savepoint_of (a_saved a)"
    "sorted_wrt (\<lambda>newer older. prefix older newer) (a_ops a # a_saved a)" by (rule wb_relE [OF assms])
  show ?thesis
  proof (cases "a_saved a")
    case Nil
    then show ?thesis using s assms by (simp add: wb_sim_def RollbackToSavePoint_def)
  next
    case (Cons ops rest)
    then have pre: "prefix ops (a_ops a)" and rest: "sorted_wrt (\<lambda>newer older. prefix older newer) (ops # rest)"
      using s(6) by simp_all
    obtain more where more: "a_ops a = ops @ more" using pre by (auto simp: prefix_def)
    show ?thesis
    proof (cases "more = []")
      case True
      then show ?thesis using s Cons more
        by (auto simp: wb_sim_def RollbackToSavePoint_def savepoint_of_def kHeader_def Let_def intro!: wb_relI [of s])
    next
      case False
      then have "enc_ops more \<noteq> []" by simp
      then show ?thesis using s Cons more rest
        by (auto simp: wb_sim_def RollbackToSavePoint_def savepoint_of_def kHeader_def Let_def SetCount_def
            simp del: concat_eq_Nil_conv intro!: wb_relI [of s])
    qed
  qed
qed

lemma SetSavePoint_sim: "wb_rel b a \<Longrightarrow> wb_sim (Status_OK, SetSavePoint b) (abs_cmd CSetSavePoint a)"
  using LocalSavePoint_rel [of b a]
  by (auto simp: wb_sim_def SetSavePoint_def wb_rel_def LocalSavePoint_def)

lemma PopSavePoint_sim: "wb_rel b a \<Longrightarrow> wb_sim (PopSavePoint b) (abs_cmd CPopSavePoint a)"
  by (auto simp: wb_sim_def PopSavePoint_def wb_rel_def split: list.splits)

lemma Clear_sim: "wb_rel b a \<Longrightarrow> wb_sim (Status_OK, WriteBatch_Clear b) (abs_cmd CClear a)"
  by (auto simp: wb_sim_def WriteBatch_Clear_def wb_rel_def kHeader_def EncodeFixed32_def numeral_eq_Suc)

lemma WriteBatch_new_rel: "wb_rel (WriteBatch_new m) \<lparr>a_ops = [], a_saved = [], a_max = m\<rparr>"
  by (auto simp: WriteBatch_new_def wb_rel_def kHeader_def EncodeFixed32_def numeral_eq_Suc)

lemma CheckSlicePartsLength_cases:
  "CheckSlicePartsLength k v =
    (if length (concat k) > 2 ^ 32 - 2 then InvalidArgument ''key is too large''
     else if length (concat v) > 2 ^ 32 - 2 then InvalidArgument ''value is too large'' else Status_OK)"
  by (auto simp: CheckSlicePartsLength_def kMaxUint32_def length_concat)

lemma ok_InvalidArgument [simp]: "\<not> ok (InvalidArgument m)"
  by (simp add: status_simps)

lemma two_slices: "PutLengthPrefixedSlice (PutLengthPrefixedSlice r k) v = r @ enc_slice k @ enc_slice v"
  by (subst PutLengthPrefixedSlice_append, subst PutLengthPrefixedSlice_append [of r]) simp

lemma add_record_1_sim:
  assumes "wb_rel b a" "op_counted op" "op_flag op = flag" "enc_op op = enc_tag cf tag cf_tag @ enc_slice k"
  shows "wb_sim (add_record b cf tag cf_tag (\<lambda>r. PutLengthPrefixedSlice r k) flag) (abs_add op a)"
  by (rule add_record_sim [OF assms(1-3) PutLengthPrefixedSlice_append assms(4)])

lemma add_record_2_sim:
  assumes "wb_rel b a" "op_counted op" "op_flag op = flag" "enc_op op = enc_tag cf tag cf_tag @ enc_slice k @ enc_slice v"
  shows "wb_sim (add_record b cf tag cf_tag (\<lambda>r. PutLengthPrefixedSlice (PutLengthPrefixedSlice r k) v) flag)
    (abs_add op a)"
  by (rule add_record_sim [OF assms(1-3) two_slices assms(4)])

lemma wb_sim_refl_error: "wb_rel b a \<Longrightarrow> wb_sim (s, b) (s, a)"
  by (simp add: wb_sim_def)

lemma run_cmd_sim:
  assumes "wb_rel b a"
  shows "wb_sim (run_cmd c b) (abs_cmd c a)"
proof -
  note sims = add_record_1_sim [OF assms] add_record_2_sim [OF assms] wb_sim_refl_error [OF assms]
  note defs = abs_checked_def kMaxUint32_def PutLengthPrefixedSliceParts_concat CheckSlicePartsLength_cases Let_def
  show ?thesis
  proof (cases c)
    case CInsertNoop
    show ?thesis using assms unfolding CInsertNoop run_cmd.simps abs_cmd.simps InsertNoop_def
      by (intro push_sim) simp_all
  next
    case (CMarkCommit x)
    show ?thesis using assms PutLengthPrefixedSlice_append [of "rep b @ [kTypeCommitXID]" x]
      unfolding CMarkCommit run_cmd.simps abs_cmd.simps MarkCommit_def
      by (intro push_sim) simp_all
  next
    case (CMarkRollback x)
    show ?thesis using assms PutLengthPrefixedSlice_append [of "rep b @ [kTypeRollbackXID]" x]
      unfolding CMarkRollback run_cmd.simps abs_cmd.simps MarkRollback_def
      by (intro push_sim) simp_all
  next
    case CSetSavePoint
    then show ?thesis using SetSavePoint_sim [OF assms] by simp
  next
    case CRollbackToSavePoint
    then show ?thesis using RollbackToSavePoint_sim [OF assms] by simp
  next
    case CPopSavePoint
    then show ?thesis using PopSavePoint_sim [OF assms] by simp
  next
    case CClear
    then show ?thesis using Clear_sim [OF assms] by simp
  next
    case (CPutLogData x)
    then show ?thesis using PutLogData_sim [OF assms] by simp
  next
    case (CPut cf k v)
    show ?thesis unfolding CPut run_cmd.simps abs_cmd.simps WB_Put_def defs
      by (auto intro!: sims)
  next
    case (CPutParts cf k v)
    show ?thesis unfolding CPutParts run_cmd.simps abs_cmd.simps WB_PutParts_def defs
      by (auto intro!: sims)
  next
    case (CDelete cf k)
    show ?thesis unfolding CDelete run_cmd.simps abs_cmd.simps WB_Delete_def defs
      by (auto intro!: sims)
  next
    case (CDeleteParts cf k)
    show ?thesis unfolding CDeleteParts run_cmd.simps abs_cmd.simps WB_DeleteParts_def defs
      by (auto intro!: sims)
  next
    case (CSingleDelete cf k)
    show ?thesis unfolding CSingleDelete run_cmd.simps abs_cmd.simps WB_SingleDelete_def defs
      by (auto intro!: sims)
  next
    case (CSingleDeleteParts cf k)
    show ?thesis unfolding CSingleDeleteParts run_cmd.simps abs_cmd.simps WB_SingleDeleteParts_def defs
      by (auto intro!: sims)
  next
    case (CDeleteRange cf k v)
    show ?thesis unfolding CDeleteRange run_cmd.simps abs_cmd.simps WB_DeleteRange_def defs
      by (auto intro!: sims)
  next
    case (CDeleteRangeParts cf k v)
    show ?thesis unfolding CDeleteRangeParts run_cmd.simps abs_cmd.simps WB_DeleteRangeParts_def defs
      by (auto intro!: sims)
  next
    case (CMerge cf k v)
    show ?thesis unfolding CMerge run_cmd.simps abs_cmd.simps WB_Merge_def defs
      by (auto intro!: sims)
  next
    case (CMergeParts cf k v)
    show ?thesis unfolding CMergeParts run_cmd.simps abs_cmd.simps WB_MergeParts_def defs
      by (auto intro!: sims)
  next
    case (CPutBlobIndex cf k v)
    show ?thesis unfolding CPutBlobIndex run_cmd.simps abs_cmd.simps PutBlobIndex_def defs
      by (auto intro!: sims)
  qed
qed

section \<open>Truncated batches\<close>

lemma cur_GetVarint32_cf_append:
  "cur_GetVarint32_cf c = Some c' \<Longrightarrow>
   cur_GetVarint32_cf (c\<lparr>cur_input := cur_input c @ r\<rparr>) = Some (c'\<lparr>cur_input := cur_input c' @ r\<rparr>)"
  by (auto simp: cur_GetVarint32_cf_def GetVarint32_append split: option.splits)

text \<open>The setters of the other fields leave the input alone and do not look at it.\<close>

definition field_setter :: "(slice \<Rightarrow> wb_cursor \<Rightarrow> wb_cursor) \<Rightarrow> bool" where
  "field_setter put \<longleftrightarrow> put \<in> {set_key, set_value, set_blob, set_xid}"

lemma field_setter_simps:
  "field_setter put \<Longrightarrow> put x (c\<lparr>cur_input := r\<rparr>) = (put x c)\<lparr>cur_input := r\<rparr>"
  "field_setter put \<Longrightarrow> cur_input (put x c) = cur_input c"
  "field_setter set_key" "field_setter set_value" "field_setter set_blob" "field_setter set_xid"
  by (auto simp: field_setter_def set_field_defs)

lemma cur_GetSlice_append:
  assumes "field_setter put" "cur_GetSlice put c = Some c'"
  shows "cur_GetSlice put (c\<lparr>cur_input := cur_input c @ r\<rparr>) = Some (c'\<lparr>cur_input := cur_input c' @ r\<rparr>)"
proof -
  obtain x q where x: "GetLengthPrefixedSlice (cur_input c) = Some (x, q)" "c' = put x (c\<lparr>cur_input := q\<rparr>)"
    using assms(2) by (auto simp: cur_GetSlice_def split: option.splits)
  show ?thesis using GetLengthPrefixedSlice_append [OF x(1), of r] x(2)
    by (simp add: cur_GetSlice_def field_setter_simps assms(1))
qed

lemma fold_GetSlice_append:
  assumes "\<forall>put \<in> set puts. field_setter put"
    and "fold (\<lambda>put r. Option.bind r (cur_GetSlice put)) puts (Some c) = Some c'"
  shows "fold (\<lambda>put r. Option.bind r (cur_GetSlice put)) puts (Some (c\<lparr>cur_input := cur_input c @ r\<rparr>))
    = Some (c'\<lparr>cur_input := cur_input c' @ r\<rparr>)"
  using assms
proof (induction puts arbitrary: c)
  case (Cons put puts)
  then obtain c1 where 1: "cur_GetSlice put c = Some c1" by (cases "cur_GetSlice put c") auto
  have "cur_GetSlice put (c\<lparr>cur_input := cur_input c @ r\<rparr>) = Some (c1\<lparr>cur_input := cur_input c1 @ r\<rparr>)"
    by (rule cur_GetSlice_append) (use Cons.prems 1 in auto)
  then show ?case using Cons.IH [of c1] Cons.prems 1 by simp
qed simp

lemma read_fields_append:
  assumes "\<forall>put \<in> set puts. field_setter put" "read_fields msg has_cf puts c = (Status_OK, c')"
  shows "read_fields msg has_cf puts (c\<lparr>cur_input := cur_input c @ r\<rparr>)
    = (Status_OK, c'\<lparr>cur_input := cur_input c' @ r\<rparr>)"
proof -
  obtain c1 where c1: "(if has_cf then cur_GetVarint32_cf c else Some c) = Some c1"
    and f: "fold (\<lambda>put r. Option.bind r (cur_GetSlice put)) puts (Some c1) = Some c'"
    using assms(2)
    by (cases "if has_cf then cur_GetVarint32_cf c else Some c")
      (auto simp: read_fields_def status_simps split: option.splits)
  have "(if has_cf then cur_GetVarint32_cf (c\<lparr>cur_input := cur_input c @ r\<rparr>) else Some (c\<lparr>cur_input := cur_input c @ r\<rparr>))
    = Some (c1\<lparr>cur_input := cur_input c1 @ r\<rparr>)"
    using c1 cur_GetVarint32_cf_append [of c c1 r] by (cases has_cf) simp_all
  then show ?thesis using fold_GetSlice_append [OF assms(1) f, of r] by (simp add: read_fields_def)
qed

text \<open>Which fields are read depends on the tag alone.\<close>

definition rec_start :: "wb_cursor \<Rightarrow> wb_cursor" where
  "rec_start c = c\<lparr>cur_input := tl (cur_input c), cur_tag := hd (cur_input c), cur_cf := 0\<rparr>"

lemma ReadRecord_parametric:
  assumes "hd (cur_input c) = hd (cur_input d)"
    and fields: "\<And>msg has_cf puts. \<forall>put \<in> set puts. field_setter put \<Longrightarrow>
      Q (read_fields msg has_cf puts (rec_start c)) (read_fields msg has_cf puts (rec_start d))"
    and none: "Q (Status_OK, rec_start c) (Status_OK, rec_start d)"
    and unknown: "\<And>m. Q (Corruption m, rec_start c) (Corruption m, rec_start d)"
  shows "Q (ReadRecordFromWriteBatch c) (ReadRecordFromWriteBatch d)"
proof -
  have if_rel: "Q (if b then x else x') (if b then y else y')" if "Q x y" "Q x' y'" for b x y x' y'
    using that by simp
  show ?thesis
    unfolding ReadRecordFromWriteBatch_def Let_def assms(1) rec_start_def [symmetric] rec_start_def [of c, unfolded assms(1), symmetric]
    by (intro if_rel fields none unknown) (simp_all add: field_setter_simps)
qed

lemma read_fields_status: "fst (read_fields msg has_cf puts c) \<in> insert Status_OK (range Corruption)"
  by (simp add: read_fields_def split: option.splits)

lemma ReadRecord_status: "fst (ReadRecordFromWriteBatch c) \<in> insert Status_OK (range Corruption)"
  by (rule ReadRecord_parametric [of c c "\<lambda>r _. fst r \<in> insert Status_OK (range Corruption)"])
    (simp_all only: read_fields_status, auto)

lemma ReadRecord_append:
  assumes "ReadRecordFromWriteBatch c = (Status_OK, c')" "cur_input c \<noteq> []"
  shows "ReadRecordFromWriteBatch (c\<lparr>cur_input := cur_input c @ r\<rparr>) = (Status_OK, c'\<lparr>cur_input := cur_input c' @ r\<rparr>)"
proof -
  let ?d = "c\<lparr>cur_input := cur_input c @ r\<rparr>"
  have start: "rec_start ?d = (rec_start c)\<lparr>cur_input := cur_input (rec_start c) @ r\<rparr>"
    using assms(2) by (cases c) (simp add: rec_start_def)
  let ?Q = "\<lambda>x y. fst x = Status_OK \<longrightarrow> y = (Status_OK, (snd x)\<lparr>cur_input := cur_input (snd x) @ r\<rparr>)"
  have "?Q (ReadRecordFromWriteBatch c) (ReadRecordFromWriteBatch ?d)"
  proof (rule ReadRecord_parametric)
    fix msg has_cf puts
    assume p: "\<forall>put \<in> set puts. field_setter put"
    show "?Q (read_fields msg has_cf puts (rec_start c)) (read_fields msg has_cf puts (rec_start ?d))"
      unfolding start using read_fields_append [OF p, of msg has_cf "rec_start c" _ r]
      by (cases "read_fields msg has_cf puts (rec_start c)") simp
  qed (use assms(2) in \<open>simp_all add: start status_simps\<close>)
  then show ?thesis using assms(1) by simp
qed

lemma ReadRecord_truncated:
  assumes "op_ok op" "enc_op op = p @ q" "p \<noteq> []" "q \<noteq> []" "cur_input c = p"
  shows "\<exists>m. fst (ReadRecordFromWriteBatch c) = Corruption m"
proof (rule ccontr)
  assume "\<nexists>m. fst (ReadRecordFromWriteBatch c) = Corruption m"
  then obtain c' where c': "ReadRecordFromWriteBatch c = (Status_OK, c')"
    using ReadRecord_status [of c] by (cases "ReadRecordFromWriteBatch c") auto
  let ?d = "c\<lparr>cur_input := cur_input c @ q\<rparr>"
  have "ReadRecordFromWriteBatch ?d = (Status_OK, c'\<lparr>cur_input := cur_input c' @ q\<rparr>)"
    by (rule ReadRecord_append [OF c']) (use assms in simp)
  moreover have "ReadRecordFromWriteBatch ?d = (Status_OK, op_cursor op [] ?d)"
    by (rule ReadRecord_enc) (use assms in simp_all)
  ultimately have "cur_input c' @ q = cur_input (op_cursor op [] ?d)"
    by (metis prod.inject wb_cursor.select_convs(1) wb_cursor.surjective wb_cursor.update_convs(1))
  then show False using assms(4) by simp
qed

section \<open>Properties\<close>

fun run_cmds :: "wb_cmd list \<Rightarrow> WriteBatch \<Rightarrow> status list \<times> WriteBatch" where
  "run_cmds [] b = ([], b)"
| "run_cmds (c # cs) b =
    (case run_cmd c b of (s, b) \<Rightarrow> case run_cmds cs b of (ss, b) \<Rightarrow> (s # ss, b))"

fun abs_cmds :: "wb_cmd list \<Rightarrow> abs_batch \<Rightarrow> status list \<times> abs_batch" where
  "abs_cmds [] a = ([], a)"
| "abs_cmds (c # cs) a =
    (case abs_cmd c a of (s, a) \<Rightarrow> case abs_cmds cs a of (ss, a) \<Rightarrow> (s # ss, a))"

definition abs_new :: "nat \<Rightarrow> abs_batch" where
  "abs_new m = \<lparr>a_ops = [], a_saved = [], a_max = m\<rparr>"

lemma run_cmds_sim:
  "wb_rel b a \<Longrightarrow> fst (run_cmds cs b) = fst (abs_cmds cs a) \<and> wb_rel (snd (run_cmds cs b)) (snd (abs_cmds cs a))"
proof (induction cs arbitrary: b a)
  case (Cons c cs)
  have "wb_sim (run_cmd c b) (abs_cmd c a)" by (rule run_cmd_sim [OF Cons.prems])
  then show ?case using Cons.IH [of "snd (run_cmd c b)" "snd (abs_cmd c a)"]
    by (auto simp: wb_sim_def split: prod.splits)
qed simp

text \<open>
  C11: Any sequence of calls on a new batch (puts, deletes, merges, markers, save points,
  rollbacks, clears, with and without a byte limit) gives the statuses of the abstract batch, and the
  bytes, the count, the content flags and the stack of save points represent its state.
\<close>

theorem write_batch_refines:
  "fst (run_cmds cs (WriteBatch_new m)) = fst (abs_cmds cs (abs_new m)) \<and>
   wb_rel (snd (run_cmds cs (WriteBatch_new m))) (snd (abs_cmds cs (abs_new m)))"
  using run_cmds_sim [OF WriteBatch_new_rel] by (simp add: abs_new_def)

lemma built_rel: "wb_rel (snd (run_cmds cs (WriteBatch_new m))) (snd (abs_cmds cs (abs_new m)))"
  using run_cmds_sim [OF WriteBatch_new_rel] by (simp add: abs_new_def)

lemma SetSequence_rel: "wb_rel b a \<Longrightarrow> wb_rel (SetSequence b n) a"
  by (erule wb_relE) (rule wb_relI [where s = "EncodeFixed64 n"], auto simp: SetSequence_def)

lemma rel_header:
  assumes "wb_rel b a"
  obtains hdr where "length hdr = kHeader" "rep b = hdr @ enc_ops (a_ops a)"
  using assms
  by (elim wb_relE) (rule that [of "take 12 (rep b)"], auto simp: kHeader_def)

lemma rel_count: "wb_rel b a \<Longrightarrow> WB_Count b = count_ops (a_ops a)"
  by (erule wb_relE) (rule WB_Count_rep)

lemma WB_Count_of [simp]: "WB_Count (WriteBatch_of (rep b)) = WB_Count b"
  by (simp add: WB_Count_def WriteBatch_of_def)

text \<open>
  C12: A batch that was built by any sequence of calls, given a sequence number and reloaded from
  its bytes, has that sequence number, and iterating over it delivers the operations of the abstract
  batch, all of them, in order.
\<close>

theorem batch_roundtrip:
  assumes "ops = a_ops (snd (abs_cmds cs (abs_new m)))" "\<forall>op \<in> set ops. op_ok op \<and> op_policy ac bp op"
    and "b = WriteBatch_of (rep (SetSequence (snd (run_cmds cs (WriteBatch_new m))) n))"
  shows "WB_Sequence b = n \<and> Iterate (wb_recorder ac bp) b [] = (Status_OK, ops)"
proof
  let ?b = "SetSequence (snd (run_cmds cs (WriteBatch_new m))) n"
  have rel: "wb_rel ?b (snd (abs_cmds cs (abs_new m)))" by (rule SetSequence_rel [OF built_rel])
  show "WB_Sequence b = n"
    by (simp add: assms(3) WB_Sequence_def WriteBatch_of_def SetSequence_def DecodeFixed64_Encode)
  obtain hdr where hdr: "length hdr = kHeader" "rep ?b = hdr @ enc_ops ops"
    using rel_header [OF rel] assms(1) by blast
  have "rep b = hdr @ enc_ops ops" using hdr(2) by (simp add: assms(3) WriteBatch_of_def)
  from recorder.Iterate_ops [OF assms(2) this hdr(1), of "[]"]
  show "Iterate (wb_recorder ac bp) b [] = (Status_OK, ops)"
    using rel_count [OF rel] assms(1) by (simp add: assms(3))
qed

theorem batch_roundtrip_witness:
  "WB_Sequence (WriteBatch_of (rep (SetSequence
     (snd (run_cmds [CPut 0 [1] [2], CSetSavePoint, CDelete 3 [1], CRollbackToSavePoint, CMerge 7 [5] []] (WriteBatch_new 0))) 9))) = 9
   \<and> Iterate (wb_recorder True False) (WriteBatch_of (rep (SetSequence
     (snd (run_cmds [CPut 0 [1] [2], CSetSavePoint, CDelete 3 [1], CRollbackToSavePoint, CMerge 7 [5] []] (WriteBatch_new 0))) 9))) []
     = (Status_OK, [OpPut 0 [1] [2], OpMerge 7 [5] []])"
  by (rule batch_roundtrip [where cs = "[CPut 0 [1] [2], CSetSavePoint, CDelete 3 [1], CRollbackToSavePoint, CMerge 7 [5] []]" and m = 0])
    (simp_all add: abs_new_def abs_add_def abs_checked_def)

text \<open>
  C34: A batch that ends in the middle of a record is reported as corrupt; the handler has
  been given the complete records before it and nothing else.
\<close>

theorem truncated_batch_detected:
  assumes "\<forall>op \<in> set ops. op_ok op \<and> op_policy ac bp op" "op_ok op"
    and "enc_op op = p @ q" "p \<noteq> []" "q \<noteq> []"
    and "rep b = hdr @ enc_ops ops @ p" "length hdr = kHeader"
  shows "\<exists>m. Iterate (wb_recorder ac bp) b [] = (Corruption m, ops)"
  using recorder.Iterate_bad_record [OF assms(1,6,7,4), of "[]"] ReadRecord_truncated [OF assms(2-5)] by simp

theorem truncated_batch_detected_witness:
  "\<exists>m. Iterate (wb_recorder True False) (WriteBatch_of (replicate 12 0 @ [0, 1, 5, 1, 1, 7])) []
     = (Corruption m, [OpDelete 0 [5]])"
  by (rule truncated_batch_detected [where op = "OpPut 0 [7] []" and p = "[1, 1, 7]" and q = "[0]" and hdr = "replicate 12 0"])
    (simp_all add: WriteBatch_of_def kHeader_def enc_tag_def value_type_defs PutLengthPrefixedSlice_def
      PutVarint32_def EncodeVarint32_small)

text \<open>
  The content flags that a reloaded batch computes by iterating are the flags the builders
  had collected, whenever the batch has no marker of the write-prepared policies.
\<close>

theorem reloaded_flags:
  assumes "b = snd (run_cmds cs (WriteBatch_new m))"
    and "\<forall>op \<in> set (a_ops (snd (abs_cmds cs (abs_new m)))). op_ok op \<and> op_policy True False op"
  shows "fst (ComputeContentFlags (WriteBatch_of (rep b))) = content_flags b"
proof -
  have rel: "wb_rel b (snd (abs_cmds cs (abs_new m)))" using built_rel assms(1) by simp
  obtain hdr where hdr: "length hdr = kHeader" "rep b = hdr @ enc_ops (a_ops (snd (abs_cmds cs (abs_new m))))"
    using rel_header [OF rel] by blast
  have "rep (WriteBatch_of (rep b)) = hdr @ enc_ops (a_ops (snd (abs_cmds cs (abs_new m))))"
    using hdr(2) by (simp add: WriteBatch_of_def)
  from classifier.Iterate_ops [OF assms(2) this hdr(1), of 0] show ?thesis
    using rel by (simp add: ComputeContentFlags_def WriteBatch_of_def DEFERRED_def Let_def wb_rel_def)
qed

theorem reloaded_flags_witness:
  "fst (ComputeContentFlags (WriteBatch_of (rep (snd (run_cmds [CPut 0 [1] [2], CMarkCommit [3]] (WriteBatch_new 0))))))
    = content_flags (snd (run_cmds [CPut 0 [1] [2], CMarkCommit [3]] (WriteBatch_new 0)))"
  by (rule reloaded_flags [OF refl]) (simp add: abs_new_def abs_add_def abs_push_def abs_checked_def)

text \<open>
  \<^verbatim>\<open>MarkEndPrepare\<close> turns the leading no-op into the begin marker and closes the section.
\<close>

definition begin_marker :: "bool \<Rightarrow> bool \<Rightarrow> wb_op" where
  "begin_marker write_after_commit unprepared =
    (if write_after_commit then OpBeginPrepare
     else if unprepared then OpBeginUnprepare else OpBeginPersistedPrepare)"

lemma MarkEndPrepare_rep:
  assumes "wb_rel b a" "a_ops a = OpNoop # ops"
  obtains hdr where "length hdr = kHeader"
    "rep (snd (MarkEndPrepare b xid wac unprepared)) = hdr @ enc_ops (begin_marker wac unprepared # ops @ [OpEndPrepare xid])"
    "WB_Count (snd (MarkEndPrepare b xid wac unprepared)) = count_ops ops"
    "content_flags (snd (MarkEndPrepare b xid wac unprepared))
      = flags_of ops OR HAS_END_PREPARE OR HAS_BEGIN_PREPARE OR (if unprepared then HAS_BEGIN_UNPREPARE else 0)"
proof -
  obtain s where s: "length s = 8" "rep b = s @ EncodeFixed32 (count_ops (a_ops a)) @ enc_ops (a_ops a)"
    "content_flags b = flags_of (a_ops a)" by (rule wb_relE [OF assms(1)])
  let ?b = "snd (MarkEndPrepare b xid wac unprepared)"
  let ?hdr = "s @ EncodeFixed32 (count_ops ops)"
  have rep: "rep ?b = ?hdr @ enc_ops (begin_marker wac unprepared # ops @ [OpEndPrepare xid])"
    using s assms(2)
    by (simp add: MarkEndPrepare_def Let_def begin_marker_def count_ops_Cons list_update_append
        PutLengthPrefixedSlice_append [of "_ @ _"] split: nat.splits)
  moreover have "content_flags ?b
      = flags_of ops OR HAS_END_PREPARE OR HAS_BEGIN_PREPARE OR (if unprepared then HAS_BEGIN_UNPREPARE else 0)"
    using s(3) assms(2) by (simp add: MarkEndPrepare_def Let_def or.assoc)
  moreover have "WB_Count ?b = count_ops ops"
    by (rule WB_Count_rep [OF s(1)]) (use rep in simp)
  ultimately show ?thesis using that [of ?hdr] s(1) by (simp add: kHeader_def)
qed

lemma Iterate_loop_stop:
  "\<not> ok s \<Longrightarrow> \<not> IsTryAgain s \<Longrightarrow> Iterate_loop h c e found s l st = (s, True, found, st)"
  by (subst Iterate_loop.simps) simp

text \<open>
  C35: A batch prepared under the write-prepared policies does not keep its content flags:
  after a reload the classifier stops at the begin marker, since it has the write-committed policy
  of the base class, and only the flags of that marker are left.
\<close>

theorem prepared_reload_loses_flags:
  assumes "wb_rel b a" "a_ops a = OpNoop # ops" "b' = snd (MarkEndPrepare b xid False unprepared)"
  shows "content_flags b' = flags_of ops OR HAS_END_PREPARE OR HAS_BEGIN_PREPARE
           OR (if unprepared then HAS_BEGIN_UNPREPARE else 0) \<and>
         fst (ComputeContentFlags (WriteBatch_of (rep b')))
           = HAS_BEGIN_PREPARE OR (if unprepared then HAS_BEGIN_UNPREPARE else 0)"
proof
  obtain hdr where hdr: "length hdr = kHeader"
    "rep b' = hdr @ enc_ops (begin_marker False unprepared # ops @ [OpEndPrepare xid])"
    and flags: "content_flags b' = flags_of ops OR HAS_END_PREPARE OR HAS_BEGIN_PREPARE
           OR (if unprepared then HAS_BEGIN_UNPREPARE else 0)"
    using MarkEndPrepare_rep [OF assms(1,2)] assms(3) by metis
  show "content_flags b' = flags_of ops OR HAS_END_PREPARE OR HAS_BEGIN_PREPARE
           OR (if unprepared then HAS_BEGIN_UNPREPARE else 0)" by (rule flags)
  let ?c = "\<lparr>cur_input = enc_op (begin_marker False unprepared) @ enc_ops (ops @ [OpEndPrepare xid]), cur_tag = 0,
    cur_cf = 0, cur_key = [], cur_value = [], cur_blob = [], cur_xid = []\<rparr>"
  have read: "ReadRecordFromWriteBatch (?c\<lparr>cur_tag := 0, cur_cf := 0\<rparr>)
    = (Status_OK, op_cursor (begin_marker False unprepared) (enc_ops (ops @ [OpEndPrepare xid])) ?c)"
    by (subst ReadRecord_enc) (simp_all add: begin_marker_def)
  have nontry: "\<not> IsTryAgain (NotSupported m)" "\<not> ok (NotSupported m)" for m by (simp_all add: status_simps)
  have "\<exists>m. Iterate_switch BatchContentClassifier
      (op_cursor (begin_marker False unprepared) (enc_ops (ops @ [OpEndPrepare xid])) ?c) Status_OK True 0 0
    = (NotSupported m, False, 0, HAS_BEGIN_PREPARE OR (if unprepared then HAS_BEGIN_UNPREPARE else 0))"
    by (cases unprepared)
      (auto simp: Iterate_switch_def begin_marker_def at_record_def value_type_defs Let_def
         BatchContentClassifier_def Handler_default_def Handler_base_def)
  then obtain m where sw: "Iterate_switch BatchContentClassifier
      (op_cursor (begin_marker False unprepared) (enc_ops (ops @ [OpEndPrepare xid])) ?c) Status_OK True 0 0
    = (NotSupported m, False, 0, HAS_BEGIN_PREPARE OR (if unprepared then HAS_BEGIN_UNPREPARE else 0))" ..
  have loop: "Iterate_loop BatchContentClassifier ?c True 0 Status_OK False 0
    = (NotSupported m, True, 0, HAS_BEGIN_PREPARE OR (if unprepared then HAS_BEGIN_UNPREPARE else 0))"
    using read sw by (subst Iterate_loop.simps) (simp add: classifier.continue nontry Iterate_loop_stop)
  show "fst (ComputeContentFlags (WriteBatch_of (rep b')))
           = HAS_BEGIN_PREPARE OR (if unprepared then HAS_BEGIN_UNPREPARE else 0)"
    using hdr loop by (simp add: ComputeContentFlags_def WriteBatch_of_def DEFERRED_def Let_def Iterate_def nontry)
qed

theorem prepared_reload_loses_flags_witness:
  "HasPut (snd (MarkEndPrepare (snd (run_cmds [CInsertNoop, CPut 0 [1] [2]] (WriteBatch_new 0))) [9] False False)) \<and>
   \<not> HasPut (WriteBatch_of (rep (snd (MarkEndPrepare
       (snd (run_cmds [CInsertNoop, CPut 0 [1] [2]] (WriteBatch_new 0))) [9] False False))))"
proof -
  let ?b = "snd (run_cmds [CInsertNoop, CPut 0 [1] [2]] (WriteBatch_new 0))"
  let ?a = "snd (abs_cmds [CInsertNoop, CPut 0 [1] [2]] (abs_new 0))"
  have "a_ops ?a = OpNoop # [OpPut 0 [1] [2]]"
    by (simp add: abs_new_def abs_add_def abs_push_def abs_checked_def)
  from prepared_reload_loses_flags [OF built_rel this refl, of "[9]" False] show ?thesis
    by (simp add: HasPut_def ComputeContentFlags_def HAS_PUT_def HAS_END_PREPARE_def HAS_BEGIN_PREPARE_def DEFERRED_def
        WriteBatch_of_def Let_def)
qed

lemma WB_Append_rel:
  assumes "wb_rel dst a" "wb_rel src a2"
    and "ops = (if wal_only \<and> \<not> is_cleared (wal_term_point src) then marked else a_ops a2)"
    and "\<not> is_cleared (wal_term_point src) \<Longrightarrow> wal_term_point src = savepoint_of marked \<and> prefix marked (a_ops a2)"
  shows "wb_rel (snd (WB_Append dst src wal_only)) (a\<lparr>a_ops := a_ops a @ ops\<rparr>) \<and>
    (\<not> wal_only \<longrightarrow> GetDataSize (snd (WB_Append dst src wal_only)) = AppendedByteSize (GetDataSize dst) (GetDataSize src))"
proof -
  obtain s where s: "length s = 8" "rep dst = s @ EncodeFixed32 (count_ops (a_ops a)) @ enc_ops (a_ops a)"
    "content_flags dst = flags_of (a_ops a)" "max_bytes dst = a_max a"
    "save_points dst = map savepoint_of (a_saved a)"
    "sorted_wrt (\<lambda>newer older. prefix older newer) (a_ops a # a_saved a)" by (rule wb_relE [OF assms(1)])
  obtain s2 where s2: "length s2 = 8" "rep src = s2 @ EncodeFixed32 (count_ops (a_ops a2)) @ enc_ops (a_ops a2)"
    "content_flags src = flags_of (a_ops a2)" by (rule wb_relE [OF assms(2)])
  have eq: "snd (WB_Append dst src wal_only) = dst\<lparr>
      rep := s @ EncodeFixed32 (count_ops (a_ops a) + count_ops ops) @ enc_ops (a_ops a) @ enc_ops ops,
      content_flags := flags_of (a_ops a) OR flags_of ops\<rparr>"
  proof (cases "wal_only \<and> \<not> is_cleared (wal_term_point src)")
    case True
    then obtain rest where "a_ops a2 = marked @ rest" "wal_term_point src = savepoint_of marked" "ops = marked"
      using assms(3,4) by (auto simp: prefix_def)
    then show ?thesis using True s s2
      by (simp add: WB_Append_def Let_def WB_Count_rep [OF s(1,2)] SetCount_rep [OF s(1,2)] savepoint_of_def kHeader_def)
  next
    case False
    then show ?thesis using s s2 assms(3)
      by (auto simp: WB_Append_def Let_def WB_Count_rep [OF s(1,2)] WB_Count_rep [OF s2(1,2)] SetCount_rep [OF s(1,2)] kHeader_def)
  qed
  have "wb_rel (snd (WB_Append dst src wal_only)) (a\<lparr>a_ops := a_ops a @ ops\<rparr>)"
    unfolding eq by (rule wb_relI [OF s(1)]) (use s in \<open>auto intro: prefix_order.trans\<close>)
  then show ?thesis unfolding eq GetDataSize_def AppendedByteSize_def
    using s s2 assms(3) by (auto simp: kHeader_def)
qed

text \<open>
  C22: Appending one batch to another appends its operations (for the log: the operations up to
  the termination point, if one was marked), and adds the counts and the content flags; the size of
  the result is the one that \<^verbatim>\<open>AppendedByteSize\<close> predicts.
\<close>

theorem append_concatenates:
  assumes "wb_rel dst a" "wb_rel src a2"
    and "ops = (if wal_only \<and> \<not> is_cleared (wal_term_point src) then marked else a_ops a2)"
    and "\<not> is_cleared (wal_term_point src) \<Longrightarrow> wal_term_point src = savepoint_of marked \<and> prefix marked (a_ops a2)"
  shows "wb_rel (snd (WB_Append dst src wal_only)) (a\<lparr>a_ops := a_ops a @ ops\<rparr>) \<and>
    (\<not> wal_only \<longrightarrow> GetDataSize (snd (WB_Append dst src wal_only)) = AppendedByteSize (GetDataSize dst) (GetDataSize src))"
  by (rule WB_Append_rel [OF assms])

theorem append_concatenates_witness:
  "wb_rel (snd (WB_Append (snd (run_cmds [CPut 0 [1] [2]] (WriteBatch_new 0))) (snd (run_cmds [CDelete 0 [4]] (WriteBatch_new 0))) False))
     \<lparr>a_ops = [OpPut 0 [1] [2], OpDelete 0 [4]], a_saved = [], a_max = 0\<rparr>"
proof -
  have "wal_term_point (snd (run_cmds [CDelete 0 [4]] (WriteBatch_new 0))) = SavePoint_cleared"
    by (simp add: WB_Delete_def add_record_def Let_def LocalSavePoint_commit_def WriteBatch_new_def SetCount_def)
  then have "is_cleared (wal_term_point (snd (run_cmds [CDelete 0 [4]] (WriteBatch_new 0))))"
    by (simp add: is_cleared_def SavePoint_cleared_def)
  with append_concatenates [OF built_rel [of "[CPut 0 [1] [2]]" 0] built_rel [of "[CDelete 0 [4]]" 0] refl, where wal_only = False]
  show ?thesis by (simp add: abs_new_def abs_add_def abs_checked_def)
qed

text \<open>The calls that do not look at the byte limit: the markers.\<close>

fun limited_cmd :: "wb_cmd \<Rightarrow> bool" where
  "limited_cmd CInsertNoop \<longleftrightarrow> False"
| "limited_cmd (CMarkCommit x) \<longleftrightarrow> False"
| "limited_cmd (CMarkRollback x) \<longleftrightarrow> False"
| "limited_cmd _ \<longleftrightarrow> True"

definition within_limit :: "abs_batch \<Rightarrow> bool" where
  "within_limit a \<longleftrightarrow> (\<forall>ops \<in> set (a_ops a # a_saved a). kHeader + length (enc_ops ops) \<le> a_max a)"

lemma abs_add_within: "within_limit a \<Longrightarrow> 0 < a_max a \<Longrightarrow> within_limit (snd (abs_add op a)) \<and> a_max (snd (abs_add op a)) = a_max a"
  by (auto simp: abs_add_def within_limit_def)

lemma abs_cmd_within:
  assumes "within_limit a" "0 < a_max a" "limited_cmd c"
  shows "within_limit (snd (abs_cmd c a)) \<and> a_max (snd (abs_cmd c a)) = a_max a"
proof -
  note add = abs_add_within [OF assms(1,2)]
  have saved: "within_limit (a\<lparr>a_saved := a_ops a # a_saved a\<rparr>)"
    "within_limit (a\<lparr>a_ops := [], a_saved := []\<rparr>)"
    "a_saved a = ops # rest \<Longrightarrow> within_limit (a\<lparr>a_ops := ops, a_saved := rest\<rparr>)"
    "a_saved a = ops # rest \<Longrightarrow> within_limit (a\<lparr>a_saved := rest\<rparr>)" for ops rest
    using assms(1) by (auto simp: within_limit_def)
  show ?thesis using assms(1,3)
    by (cases c) (auto simp: abs_checked_def add saved split: list.splits)
qed

lemma abs_cmds_within:
  "within_limit a \<Longrightarrow> 0 < a_max a \<Longrightarrow> \<forall>c \<in> set cs. limited_cmd c \<Longrightarrow>
   within_limit (snd (abs_cmds cs a)) \<and> a_max (snd (abs_cmds cs a)) = a_max a"
proof (induction cs arbitrary: a)
  case (Cons c cs)
  have 1: "within_limit (snd (abs_cmd c a))" "a_max (snd (abs_cmd c a)) = a_max a"
    using abs_cmd_within [of a c] Cons.prems by simp_all
  have "within_limit (snd (abs_cmds cs (snd (abs_cmd c a))))" "a_max (snd (abs_cmds cs (snd (abs_cmd c a)))) = a_max a"
    using Cons.IH [OF 1(1)] Cons.prems 1(2) by simp_all
  then show ?case by (simp add: case_prod_unfold)
qed simp

text \<open>
  C36: A batch with a byte limit never grows past it: after any sequence of calls other than the
  transaction markers (which do not check the limit) it has at most the given number of bytes.
\<close>

theorem batch_within_max_bytes:
  assumes "kHeader \<le> m" "\<forall>c \<in> set cs. limited_cmd c"
  shows "GetDataSize (snd (run_cmds cs (WriteBatch_new m))) \<le> m"
proof -
  have "within_limit (abs_new m)" "0 < a_max (abs_new m)" using assms(1)
    by (auto simp: within_limit_def abs_new_def kHeader_def)
  from abs_cmds_within [OF this assms(2)]
  have "kHeader + length (enc_ops (a_ops (snd (abs_cmds cs (abs_new m))))) \<le> m"
    by (simp add: within_limit_def abs_new_def)
  moreover obtain hdr where "length hdr = kHeader"
    "rep (snd (run_cmds cs (WriteBatch_new m))) = hdr @ enc_ops (a_ops (snd (abs_cmds cs (abs_new m))))"
    by (rule rel_header [OF built_rel])
  ultimately show ?thesis by (simp add: GetDataSize_def)
qed

theorem batch_within_max_bytes_witness:
  "GetDataSize (snd (run_cmds [CPut 0 [1] [2], CDelete 0 [1], CSetSavePoint] (WriteBatch_new 18))) \<le> 18"
  by (rule batch_within_max_bytes) (simp_all add: kHeader_def)

end
