(* ===== verification/SpaceSaving.thy ===== *)
theory SpaceSaving
  imports Prelude "HOL-Library.Multiset"
begin

text \<open>
  The heavy-hitter summary of \<^verbatim>\<open>db/space_saving.cc\<close> that the modified database fills from its
  write-ahead log: the array version (\<^verbatim>\<open>ProcessKey\<close>, \<^verbatim>\<open>SetMin\<close>, \<^verbatim>\<open>ExtractTopK\<close>,
  \<^verbatim>\<open>ResetFreqArray\<close>). The invariant \<open>ss_inv\<close> relates the array to the stream that was processed:
  the space-saving guarantees follow from it. \<^verbatim>\<open>std::sort\<close> is a parameter with the contract
  of the standard; it may order entries of equal frequency in any way.
\<close>

section \<open>The summary\<close>

type_synonym entry = "u64 \<times> u64"

record space_saving =
  num_items :: nat
  min_key_index :: int
  freq_array :: "entry list"

definition ss_m :: nat where
  "ss_m = 30000"

text \<open>The capacity of a summary is the length of its array; the program's summary has \<open>ss_m\<close> entries.\<close>

definition ss_init :: "nat \<Rightarrow> space_saving" where
  "ss_init m = \<lparr>num_items = 0, min_key_index = - 1, freq_array = replicate m (0, 0)\<rparr>"

definition SpaceSaving_new :: space_saving where
  "SpaceSaving_new = ss_init ss_m"

abbreviation freq_at :: "space_saving \<Rightarrow> int \<Rightarrow> u64" where
  "freq_at s i \<equiv> snd (freq_array s ! nat i)"

abbreviation key_at :: "space_saving \<Rightarrow> int \<Rightarrow> u64" where
  "key_at s i \<equiv> fst (freq_array s ! nat i)"

function SetMin_loop :: "nat \<Rightarrow> space_saving \<Rightarrow> space_saving" where
  "SetMin_loop i s =
    (if i < num_items s then
       if freq_at s (int i) < freq_at s (min_key_index s) then s\<lparr>min_key_index := int i\<rparr>
       else SetMin_loop (i + 1) s
     else s)"
  by pat_completeness auto
termination by (relation "measure (\<lambda>(i, s). num_items s - i)") auto

definition SetMin :: "space_saving \<Rightarrow> space_saving" where
  "SetMin s = SetMin_loop 0 s"

text \<open>The first loop of \<^verbatim>\<open>ProcessKey\<close>: \<open>None\<close> when it ends without a return.\<close>

function ProcessKey_loop :: "nat \<Rightarrow> u64 \<Rightarrow> space_saving \<Rightarrow> space_saving option" where
  "ProcessKey_loop i key s =
    (if i < num_items s then
       if key_at s (int i) = key then
         let s = s\<lparr>freq_array := (freq_array s)[i := (key_at s (int i), freq_at s (int i) + 1)]\<rparr>
         in Some (if key = key_at s (min_key_index s) then SetMin s else s)
       else ProcessKey_loop (i + 1) key s
     else None)"
  by pat_completeness auto
termination by (relation "measure (\<lambda>(i, k, s). num_items s - i)") auto

declare SetMin_loop.simps [simp del] ProcessKey_loop.simps [simp del]

definition ProcessKey :: "space_saving \<Rightarrow> u64 \<Rightarrow> space_saving" where
  "ProcessKey s key =
    (case ProcessKey_loop 0 key s of
       Some s' \<Rightarrow> s'
     | None \<Rightarrow>
         if num_items s < length (freq_array s) then
           s\<lparr>num_items := num_items s + 1, min_key_index := int (num_items s),
             freq_array := (freq_array s)[num_items s := (key, 1)]\<rparr>
         else
           let new_freq = freq_at s (min_key_index s) + 1
           in SetMin (s\<lparr>freq_array := (freq_array s)[nat (min_key_index s) := (key, new_freq)]\<rparr>))"

definition ComparePair :: "entry \<Rightarrow> entry \<Rightarrow> bool" where
  "ComparePair p1 p2 \<longleftrightarrow> snd p1 > snd p2"

definition ResetFreqArray :: "space_saving \<Rightarrow> space_saving" where
  "ResetFreqArray s = s\<lparr>num_items := 0\<rparr>"

text \<open>
  \<open>None\<close> stands for an access outside the array: \<^verbatim>\<open>min_key_index_\<close> is still -1, or more entries
  are asked for than the array has.
\<close>

definition ExtractTopK ::
    "(entry list \<Rightarrow> entry list) \<Rightarrow> nat \<Rightarrow> space_saving \<Rightarrow> (entry list \<times> space_saving) option" where
  "ExtractTopK srt k s =
    (if 0 \<le> min_key_index s \<and> nat (min_key_index s) < length (freq_array s) then
       let s = s\<lparr>freq_array := (freq_array s)[nat (min_key_index s) := (key_at s (min_key_index s), 0)]\<rparr>;
           s = s\<lparr>freq_array := srt (freq_array s)\<rparr>
       in if k \<le> length (freq_array s) then
            Some (map (\<lambda>i. freq_array s ! i) [0..<k], ResetFreqArray s)
          else None
     else None)"

text \<open>What \<^verbatim>\<open>std::sort\<close> with \<^verbatim>\<open>ComparePair\<close> promises.\<close>

locale std_sort =
  fixes srt :: "entry list \<Rightarrow> entry list"
  assumes mset_srt: "mset (srt xs) = mset xs"
    and sorted_srt: "sorted_wrt (\<lambda>p q. \<not> ComparePair q p) (srt xs)"
begin

lemma length_srt [simp]: "length (srt xs) = length xs"
  by (metis mset_srt mset_eq_length)

lemma set_srt [simp]: "set (srt xs) = set xs"
  by (metis mset_srt mset_eq_setD)

lemma srt_antimono: "i \<le> j \<Longrightarrow> j < length xs \<Longrightarrow> snd (srt xs ! j) \<le> snd (srt xs ! i)"
  using sorted_srt [of xs] by (cases "i = j") (auto simp: sorted_wrt_iff_nth_less ComparePair_def not_less)

end

definition sort_desc :: "entry list \<Rightarrow> entry list" where
  "sort_desc xs = rev (sort_key snd xs)"

interpretation sort_desc: std_sort sort_desc
proof
  fix xs :: "entry list"
  show "mset (sort_desc xs) = mset xs" by (simp add: sort_desc_def)
  have "sorted (map snd (sort_key snd xs))" by simp
  then show "sorted_wrt (\<lambda>p q. \<not> ComparePair q p) (sort_desc xs)"
    by (simp only: sorted_map sort_desc_def sorted_wrt_rev ComparePair_def not_less)
qed

section \<open>The invariant\<close>

definition entries :: "space_saving \<Rightarrow> entry list" where
  "entries s = take (num_items s) (freq_array s)"

abbreviation count_at :: "space_saving \<Rightarrow> nat \<Rightarrow> nat" where
  "count_at s i \<equiv> unat (snd (freq_array s ! i))"

text \<open>The error of the estimates: none before the array is full, then the smallest frequency.\<close>

definition slack :: "space_saving \<Rightarrow> nat" where
  "slack s = (if num_items s < length (freq_array s) then 0 else count_at s (nat (min_key_index s)))"

definition min_ok :: "space_saving \<Rightarrow> bool" where
  "min_ok s \<longleftrightarrow> 0 \<le> min_key_index s \<and> nat (min_key_index s) < num_items s \<and>
     (\<forall>i < num_items s. freq_at s (min_key_index s) \<le> snd (freq_array s ! i))"

definition ss_inv :: "u64 list \<Rightarrow> space_saving \<Rightarrow> bool" where
  "ss_inv xs s \<longleftrightarrow>
     num_items s \<le> length (freq_array s) \<and> distinct (map fst (entries s)) \<and>
     (0 < num_items s \<longrightarrow> min_ok s) \<and>
     sum_list (map (\<lambda>e. unat (snd e)) (entries s)) = length xs \<and>
     (\<forall>(k, c) \<in> set (entries s). 1 \<le> unat c \<and> count_list xs k \<le> unat c \<and> unat c \<le> count_list xs k + slack s) \<and>
     (\<forall>k. k \<notin> fst ` set (entries s) \<longrightarrow> count_list xs k \<le> slack s)"

text \<open>\<^verbatim>\<open>SetMin\<close> stops at the first entry below the current minimum.\<close>

lemma SetMin_loop_cases:
  "SetMin_loop i s = s \<and> (\<forall>j. i \<le> j \<and> j < num_items s \<longrightarrow> freq_at s (min_key_index s) \<le> snd (freq_array s ! j)) \<or>
   (\<exists>j. i \<le> j \<and> j < num_items s \<and> snd (freq_array s ! j) < freq_at s (min_key_index s) \<and>
        SetMin_loop i s = s\<lparr>min_key_index := int j\<rparr>)"
proof (induction i s rule: SetMin_loop.induct)
  case (1 i s)
  show ?case
  proof (cases "i < num_items s \<and> \<not> freq_at s (int i) < freq_at s (min_key_index s)")
    case True
    then have "SetMin_loop i s = SetMin_loop (i + 1) s" by (simp add: SetMin_loop.simps [of i s])
    moreover have "freq_at s (min_key_index s) \<le> snd (freq_array s ! j)" if "j = i" for j
      using True that by (simp add: not_less)
    ultimately show ?thesis using 1 True by (metis Suc_eq_plus1 Suc_leD le_neq_implies_less Suc_leI)
  next
    case False
    then show ?thesis by (auto simp: SetMin_loop.simps [of i s])
  qed
qed

lemma SetMin_frame [simp]: "num_items (SetMin s) = num_items s" "freq_array (SetMin s) = freq_array s"
  using SetMin_loop_cases [of 0 s] by (auto simp: SetMin_def)

text \<open>
  When the old minimum was raised by one and every entry is at least the old value, the entry it
  stops at is a minimum.
\<close>

lemma SetMin_min_ok:
  assumes "0 \<le> min_key_index s" "nat (min_key_index s) < num_items s"
    and "\<forall>i < num_items s. v \<le> count_at s i" "count_at s (nat (min_key_index s)) \<le> v + 1"
  shows "min_ok (SetMin s)"
proof -
  have le: "a \<le> b \<longleftrightarrow> unat a \<le> unat b" for a b :: u64 by (rule word_le_nat_alt)
  have lt: "a < b \<longleftrightarrow> unat a < unat b" for a b :: u64 by (rule word_less_nat_alt)
  show "min_ok (SetMin s)"
    using SetMin_loop_cases [of 0 s] assms unfolding SetMin_def min_ok_def le lt
    by (auto simp: le_less_Suc_eq)
qed

text \<open>Replacing an entry of a list with distinct keys.\<close>

lemma update_entry_other:
  assumes "distinct (map fst es)" "i < length es" "fst (es ! i) = x \<or> x \<notin> fst ` set es"
    and "e \<in> set (es[i := (x, c)])"
  shows "e = (x, c) \<or> (e \<in> set es \<and> fst e \<noteq> x)"
proof -
  obtain j where j: "j < length es" "e = es[i := (x, c)] ! j"
    using assms(4) by (metis in_set_conv_nth length_list_update)
  show ?thesis
  proof (cases "j = i")
    case False
    then have e: "e = es ! j" using j by simp
    have "fst (es ! j) \<noteq> x"
      using assms(3) nth_eq_iff_index_eq [OF assms(1), of j i] False j(1) assms(2) nth_mem [OF j(1)]
      by (auto simp del: nth_mem)
    then show ?thesis using e j(1) by simp
  qed (use j in simp)
qed

lemma update_entry_distinct:
  assumes "distinct (map fst es)" "i < length es" "fst (es ! i) = x \<or> x \<notin> fst ` set es"
  shows "distinct (map fst (es[i := (x, c)]))"
  using assms by (auto simp: map_update distinct_list_update)

lemma update_entry_gone:
  assumes "i < length es" "k \<notin> fst ` set (es[i := (x, c)])"
  shows "k \<noteq> x" "k \<in> fst ` set es \<Longrightarrow> k = fst (es ! i)"
proof -
  show "k \<noteq> x" using assms by (metis fst_conv image_eqI set_update_memI)
  assume "k \<in> fst ` set es"
  then obtain j where j: "j < length es" "fst (es ! j) = k" by (metis imageE in_set_conv_nth)
  have "j = i" using assms j by (metis image_eqI length_list_update nth_list_update_neq nth_mem)
  then show "k = fst (es ! i)" using j by simp
qed

lemma ss_inv_count_le:
  assumes "ss_inv xs s" "i < num_items s"
  shows "count_at s i \<le> length xs" "1 \<le> count_at s i" "freq_array s ! i \<in> set (entries s)"
proof -
  have len: "i < length (entries s)" using assms by (simp add: entries_def ss_inv_def)
  have e: "entries s ! i = freq_array s ! i" using assms(2) by (simp add: entries_def)
  have "unat (snd (entries s ! i)) \<in> set (map (\<lambda>e. unat (snd e)) (entries s))" using len by auto
  from member_le_sum_list [OF this] show "count_at s i \<le> length xs"
    using assms(1) e by (simp add: ss_inv_def)
  show mem: "freq_array s ! i \<in> set (entries s)" using len e by (metis nth_mem)
  then show "1 \<le> count_at s i" using assms(1) by (cases "freq_array s ! i") (auto simp: ss_inv_def)
qed

text \<open>An entry is raised: its own key came, or it is the least one and gives way to a new key.\<close>

lemma raise_entry_inv:
  assumes inv: "ss_inv xs s" and i: "i < num_items s" and len: "length xs + 1 < 2 ^ 64"
    and s': "freq_array s' = (freq_array s)[i := (x, snd (freq_array s ! i) + 1)]" "num_items s' = num_items s"
    and min': "min_ok s'"
    and cases: "fst (freq_array s ! i) = x \<or>
      x \<notin> fst ` set (entries s) \<and> i = nat (min_key_index s) \<and> num_items s = length (freq_array s)"
  shows "ss_inv (xs @ [x]) s'"
proof -
  let ?c = "snd (freq_array s ! i)" and ?e = "entries s"
  have n: "num_items s \<le> length (freq_array s)" using inv by (simp add: ss_inv_def)
  have c1: "unat (?c + 1) = unat ?c + 1"
    using ss_inv_count_le(1) [OF inv i] len by (simp add: unat_word_ariths)
  have e': "entries s' = ?e[i := (x, ?c + 1)]" using s' by (simp add: entries_def take_update_swap)
  have ei: "?e ! i = freq_array s ! i" "i < length ?e" using i n by (simp_all add: entries_def)
  have key: "fst (?e ! i) = x \<or> x \<notin> fst ` set ?e" using cases ei by auto
  have old: "distinct (map fst ?e)" "min_ok s"
    and sum: "sum_list (map (\<lambda>e. unat (snd e)) ?e) = length xs"
    and bounds: "\<And>k c. (k, c) \<in> set ?e \<Longrightarrow> 1 \<le> unat c \<and> count_list xs k \<le> unat c \<and> unat c \<le> count_list xs k + slack s"
    and rest: "\<And>k. k \<notin> fst ` set ?e \<Longrightarrow> count_list xs k \<le> slack s"
    using inv i by (auto simp: ss_inv_def)
  have mono: "count_at s j \<le> count_at s' j" if "j < num_items s" for j
    using that s' c1 n by (cases "j = i") auto
  have slack: "slack s \<le> slack s'"
    using min' old(2) mono [of "nat (min_key_index s')"] s'
    by (auto simp: slack_def min_ok_def word_le_nat_alt intro: order_trans)
  have c_mem: "(fst (?e ! i), ?c) \<in> set ?e" using ei by (metis nth_mem prod.collapse)
  have evict: "slack s = unat ?c" if "fst (?e ! i) \<noteq> x" using cases that ei(1) by (auto simp: slack_def)
  have new_bounds: "1 \<le> unat (?c + 1) \<and> count_list (xs @ [x]) x \<le> unat (?c + 1)
      \<and> unat (?c + 1) \<le> count_list (xs @ [x]) x + slack s'"
    using bounds [OF c_mem] slack c1 evict rest [of x] key by (cases "fst (?e ! i) = x") auto
  have gone: "count_list (xs @ [x]) k \<le> slack s'" if "k \<notin> fst ` set (entries s')" for k
    using update_entry_gone [OF ei(2) that [unfolded e']] rest [of k] bounds [OF c_mem] evict slack
    by (cases "k \<in> fst ` set ?e") auto
  have "distinct (map fst (entries s'))" unfolding e' by (rule update_entry_distinct [OF old(1) ei(2) key])
  moreover have "sum_list (map (\<lambda>e. unat (snd e)) (entries s')) = length (xs @ [x])"
    unfolding e' map_update using ei sum c1 by (simp add: sum_list_update)
  moreover have "\<forall>(k, c) \<in> set (entries s').
      1 \<le> unat c \<and> count_list (xs @ [x]) k \<le> unat c \<and> unat c \<le> count_list (xs @ [x]) k + slack s'"
    using update_entry_other [OF old(1) ei(2) key] new_bounds bounds slack unfolding e' by fastforce
  ultimately show ?thesis
    using gone min' n s' unfolding ss_inv_def by simp
qed

lemma new_entry_inv:
  assumes inv: "ss_inv xs s" and n: "num_items s < length (freq_array s)" and x: "x \<notin> fst ` set (entries s)"
  shows "ss_inv (xs @ [x]) (s\<lparr>num_items := num_items s + 1, min_key_index := int (num_items s),
             freq_array := (freq_array s)[num_items s := (x, 1)]\<rparr>)"
proof -
  let ?s = "s\<lparr>num_items := num_items s + 1, min_key_index := int (num_items s),
             freq_array := (freq_array s)[num_items s := (x, 1)]\<rparr>"
  have e: "entries ?s = entries s @ [(x, 1)]" using n by (simp add: entries_def take_Suc_conv_app_nth)
  have "slack s = 0" using n by (simp add: slack_def)
  have "min_ok ?s"
    using ss_inv_count_le(2) [OF inv] n by (auto simp: min_ok_def nth_list_update word_le_nat_alt)
  have bounds: "\<And>k c. (k, c) \<in> set (entries s) \<Longrightarrow> k \<noteq> x \<and> 1 \<le> unat c \<and> count_list xs k = unat c"
    and rest: "\<And>k. k \<notin> fst ` set (entries s) \<Longrightarrow> count_list xs k = 0"
    using inv x \<open>slack s = 0\<close> by (fastforce simp: ss_inv_def)+
  have "\<forall>(k, c) \<in> set (entries ?s).
      1 \<le> unat c \<and> count_list (xs @ [x]) k \<le> unat c \<and> unat c \<le> count_list (xs @ [x]) k + slack ?s"
    unfolding e using bounds rest [OF x] by fastforce
  moreover have "\<forall>k. k \<notin> fst ` set (entries ?s) \<longrightarrow> count_list (xs @ [x]) k \<le> slack ?s"
    unfolding e using rest by auto
  moreover have "distinct (map fst (entries ?s))" unfolding e using inv x by (auto simp: ss_inv_def)
  moreover have "sum_list (map (\<lambda>e. unat (snd e)) (entries ?s)) = length (xs @ [x])"
    unfolding e using inv by (simp add: ss_inv_def)
  ultimately show ?thesis using n \<open>min_ok ?s\<close> unfolding ss_inv_def by simp
qed

text \<open>The search loop finds the entry of the key.\<close>

lemma ProcessKey_loop_None:
  "ProcessKey_loop i key s = None \<longleftrightarrow> (\<forall>j. i \<le> j \<and> j < num_items s \<longrightarrow> fst (freq_array s ! j) \<noteq> key)"
proof (induction i key s rule: ProcessKey_loop.induct)
  case (1 i key s)
  show ?case
  proof (cases "i < num_items s \<and> key_at s (int i) \<noteq> key")
    case True
    then have "ProcessKey_loop i key s = ProcessKey_loop (i + 1) key s" by (simp add: ProcessKey_loop.simps [of i])
    moreover have "i \<le> j \<longleftrightarrow> j = i \<or> i + 1 \<le> j" for j by auto
    ultimately show ?thesis using 1 True by (metis nat_int)
  next
    case False
    then show ?thesis by (auto simp: ProcessKey_loop.simps [of i] Let_def)
  qed
qed

lemma ProcessKey_loop_Some:
  assumes "ProcessKey_loop i key s = Some s'"
  obtains j where "j < num_items s" "fst (freq_array s ! j) = key"
    "s' = (let s1 = s\<lparr>freq_array := (freq_array s)[j := (key, snd (freq_array s ! j) + 1)]\<rparr>
           in if key = key_at s1 (min_key_index s1) then SetMin s1 else s1)"
  using assms
proof (induction i key s rule: ProcessKey_loop.induct)
  case (1 i key s)
  show ?case
  proof (cases "i < num_items s \<and> key_at s (int i) \<noteq> key")
    case True
    then show ?thesis using 1 by (auto simp: ProcessKey_loop.simps [of i])
  next
    case False
    then show ?thesis using "1.prems"(2) by (auto simp: ProcessKey_loop.simps [of i] Let_def split: if_splits intro: "1.prems"(1))
  qed
qed

lemma set_entries: "num_items s \<le> length (freq_array s) \<Longrightarrow> set (entries s) = nth (freq_array s) ` {0..<num_items s}"
  by (simp add: entries_def nth_image)

lemma not_monitored: "ss_inv xs s \<Longrightarrow> ProcessKey_loop 0 key s = None \<longleftrightarrow> key \<notin> fst ` set (entries s)"
  by (subst set_entries) (auto simp: ss_inv_def ProcessKey_loop_None)

lemma raise_min_ok:
  assumes inv: "ss_inv xs s" and i: "i < num_items s" and len: "length xs + 1 < 2 ^ 64"
    and s1: "s1 = s\<lparr>freq_array := (freq_array s)[i := (x, snd (freq_array s ! i) + 1)]\<rparr>"
  shows "i = nat (min_key_index s) \<Longrightarrow> min_ok (SetMin s1)"
    and "i \<noteq> nat (min_key_index s) \<Longrightarrow> min_ok s1"
proof -
  have n: "num_items s \<le> length (freq_array s)" and min: "min_ok s" using inv i by (auto simp: ss_inv_def)
  have c1: "unat (snd (freq_array s ! i) + 1) = count_at s i + 1"
    using ss_inv_count_le(1) [OF inv i] len by (simp add: unat_word_ariths)
  show "min_ok (SetMin s1)" if "i = nat (min_key_index s)"
    by (rule SetMin_min_ok [where v = "count_at s i"])
      (use min i n c1 that in \<open>auto simp: s1 min_ok_def nth_list_update word_le_nat_alt\<close>)
  show "min_ok s1" if "i \<noteq> nat (min_key_index s)"
    using min i n c1 that by (auto simp: s1 min_ok_def nth_list_update word_le_nat_alt)
qed

lemma ProcessKey_inv:
  assumes inv: "ss_inv xs s" and len: "length xs + 1 < 2 ^ 64" and cap: "0 < length (freq_array s)"
  shows "ss_inv (xs @ [x]) (ProcessKey s x)" "length (freq_array (ProcessKey s x)) = length (freq_array s)"
proof -
  have "ss_inv (xs @ [x]) (ProcessKey s x) \<and> length (freq_array (ProcessKey s x)) = length (freq_array s)"
  proof (cases "ProcessKey_loop 0 x s")
    case (Some s')
    then obtain j where j: "j < num_items s" "fst (freq_array s ! j) = x"
      "s' = (let s1 = s\<lparr>freq_array := (freq_array s)[j := (x, snd (freq_array s ! j) + 1)]\<rparr>
           in if x = key_at s1 (min_key_index s1) then SetMin s1 else s1)" by (rule ProcessKey_loop_Some)
    let ?s1 = "s\<lparr>freq_array := (freq_array s)[j := (x, snd (freq_array s ! j) + 1)]\<rparr>"
    have min: "min_ok s" and d: "distinct (map fst (entries s))" and n: "num_items s \<le> length (freq_array s)"
      using inv j(1) by (auto simp: ss_inv_def)
    have same: "x = key_at ?s1 (min_key_index ?s1) \<longleftrightarrow> j = nat (min_key_index s)"
      using nth_eq_iff_index_eq [OF d, of j "nat (min_key_index s)"] j min n
      by (auto simp: entries_def min_ok_def nth_list_update)
    note ok = raise_min_ok [OF inv j(1) len refl, of x]
    have s': "s' = (if j = nat (min_key_index s) then SetMin ?s1 else ?s1)" using j(3) same by (simp add: Let_def)
    have f: "freq_array s' = (freq_array s)[j := (x, snd (freq_array s ! j) + 1)]" "num_items s' = num_items s"
      unfolding s' by simp_all
    have "min_ok s'" using s' ok(1,2) by simp
    then have "ss_inv (xs @ [x]) s'" by (rule raise_entry_inv [OF inv j(1) len f]) (simp add: j(2))
    then show ?thesis using Some f by (simp add: ProcessKey_def)
  next
    case None
    then have x: "x \<notin> fst ` set (entries s)" using not_monitored [OF inv] by simp
    show ?thesis
    proof (cases "num_items s < length (freq_array s)")
      case True
      then show ?thesis using new_entry_inv [OF inv True x] None by (simp add: ProcessKey_def)
    next
      case False
      then have full: "num_items s = length (freq_array s)" using inv by (simp add: ss_inv_def)
      let ?i = "nat (min_key_index s)"
      let ?s1 = "s\<lparr>freq_array := (freq_array s)[?i := (x, snd (freq_array s ! ?i) + 1)]\<rparr>"
      have i: "?i < num_items s" using inv full cap by (simp add: ss_inv_def min_ok_def)
      note ok = raise_min_ok [OF inv i len refl, of x]
      have "ss_inv (xs @ [x]) (SetMin ?s1)"
        by (rule raise_entry_inv [OF inv i len]) (use ok(1) x full in simp_all)
      then show ?thesis using None False by (simp add: ProcessKey_def)
    qed
  qed
  then show "ss_inv (xs @ [x]) (ProcessKey s x)" "length (freq_array (ProcessKey s x)) = length (freq_array s)" by simp_all
qed

definition process_all :: "u64 list \<Rightarrow> space_saving \<Rightarrow> space_saving" where
  "process_all xs s = foldl ProcessKey s xs"

text \<open>An empty summary (a new one, or one that was reset) stands for the empty stream.\<close>

lemma ss_inv_empty: "num_items s = 0 \<Longrightarrow> ss_inv [] s"
  by (simp add: ss_inv_def entries_def)

lemma process_all_inv:
  assumes "num_items s = 0" "0 < length (freq_array s)" "length xs < 2 ^ 64"
  shows "ss_inv xs (process_all xs s) \<and> length (freq_array (process_all xs s)) = length (freq_array s)"
  using assms(3)
proof (induction xs rule: rev_induct)
  case Nil
  then show ?case using ss_inv_empty [OF assms(1)] by (simp add: process_all_def)
next
  case (snoc x xs)
  then show ?case using ProcessKey_inv [of xs "process_all xs s" x] assms(2)
    by (simp add: process_all_def)
qed

lemma sum_list_ge: "\<forall>x \<in> set xs. v \<le> f x \<Longrightarrow> length xs * v \<le> sum_list (map f xs)" for v :: nat
  by (induction xs) auto

lemma min_ok_entries:
  "min_ok s \<Longrightarrow> num_items s \<le> length (freq_array s) \<Longrightarrow> e \<in> set (entries s) \<Longrightarrow> freq_at s (min_key_index s) \<le> snd e"
  by (auto simp: set_entries min_ok_def)

text \<open>The error is at most the length of the stream over the capacity.\<close>

lemma slack_le:
  assumes "ss_inv xs s" "0 < length (freq_array s)"
  shows "slack s \<le> length xs div length (freq_array s)"
proof (cases "num_items s < length (freq_array s)")
  case True
  then show ?thesis by (simp add: slack_def)
next
  case False
  then have n: "num_items s = length (freq_array s)" and min: "min_ok s" using assms by (auto simp: ss_inv_def)
  have "\<forall>e \<in> set (entries s). slack s \<le> unat (snd e)"
    using min_ok_entries [OF min] n by (simp add: slack_def word_le_nat_alt)
  from sum_list_ge [OF this] have "length (freq_array s) * slack s \<le> length xs"
    using assms n by (simp add: ss_inv_def entries_def)
  then show ?thesis using assms(2) by (simp add: less_eq_div_iff_mult_less_eq mult.commute)
qed

section \<open>Properties\<close>

text \<open>
  C13: After any stream of fewer than 2^64 keys, from a new or a reset summary, the monitored keys
  are distinct and their frequencies add up to the length of the stream; each frequency is at least
  the number of occurrences of its key and too high by at most the length of the stream divided by
  the capacity; and a key that is not monitored occurs at most that often.
\<close>

theorem space_saving_estimates:
  assumes "num_items s = 0" "0 < length (freq_array s)" "length xs < 2 ^ 64"
  shows "distinct (map fst (entries (process_all xs s)))
    \<and> sum_list (map (\<lambda>e. unat (snd e)) (entries (process_all xs s))) = length xs
    \<and> (\<forall>(k, c) \<in> set (entries (process_all xs s)).
         count_list xs k \<le> unat c \<and> unat c \<le> count_list xs k + length xs div length (freq_array s))
    \<and> (\<forall>k. k \<notin> fst ` set (entries (process_all xs s)) \<longrightarrow> count_list xs k \<le> length xs div length (freq_array s))"
proof -
  have inv: "ss_inv xs (process_all xs s)" and len: "length (freq_array (process_all xs s)) = length (freq_array s)"
    using process_all_inv [OF assms] by simp_all
  have b: "slack (process_all xs s) \<le> length xs div length (freq_array s)"
    using slack_le [OF inv] assms(2) by (simp add: len)
  have "count_list xs k \<le> unat c \<and> unat c \<le> count_list xs k + length xs div length (freq_array s)"
    if "(k, c) \<in> set (entries (process_all xs s))" for k c
    using inv that b by (auto simp: ss_inv_def)
  moreover have "count_list xs k \<le> length xs div length (freq_array s)"
    if "k \<notin> fst ` set (entries (process_all xs s))" for k
    using inv that b order_trans unfolding ss_inv_def by blast
  ultimately show ?thesis using inv unfolding ss_inv_def by auto
qed

theorem space_saving_estimates_witness:
  "distinct (map fst (entries (process_all [7, 7, 8, 9, 7] (ss_init 2))))
   \<and> sum_list (map (\<lambda>e. unat (snd e)) (entries (process_all [7, 7, 8, 9, 7] (ss_init 2)))) = 5
   \<and> 7 \<in> fst ` set (entries (process_all [7, 7, 8, 9, 7] (ss_init 2)))"
proof -
  have "num_items (ss_init 2) = 0" "0 < length (freq_array (ss_init 2))" "length [7, 7, 8, 9, 7 :: u64] < 2 ^ 64"
    by (simp_all add: ss_init_def)
  from space_saving_estimates [OF this] show ?thesis by (auto simp: ss_init_def)
qed

text \<open>
  While there are items, the index of the least frequent key is inside the used part of the
  array and no monitored key has a lower frequency, although \<^verbatim>\<open>SetMin\<close> returns at the first entry
  that is below the current one.
\<close>

theorem min_key_is_least:
  assumes "num_items s = 0" "0 < length (freq_array s)" "length xs < 2 ^ 64" "xs \<noteq> []"
  shows "0 \<le> min_key_index (process_all xs s) \<and> nat (min_key_index (process_all xs s)) < num_items (process_all xs s)
    \<and> num_items (process_all xs s) \<le> length (freq_array s)
    \<and> (\<forall>(k, c) \<in> set (entries (process_all xs s)). freq_at (process_all xs s) (min_key_index (process_all xs s)) \<le> c)"
proof -
  let ?s = "process_all xs s"
  have inv: "ss_inv xs ?s" and len: "length (freq_array ?s) = length (freq_array s)"
    using process_all_inv [OF assms(1-3)] by simp_all
  have "0 < num_items ?s" using assms(4) inv by (cases "num_items ?s = 0") (simp_all add: ss_inv_def entries_def)
  then have min: "min_ok ?s" and n: "num_items ?s \<le> length (freq_array ?s)" using inv by (auto simp: ss_inv_def)
  have "freq_at ?s (min_key_index ?s) \<le> c" if "(k, c) \<in> set (entries ?s)" for k c
    using min_ok_entries [OF min n that] by simp
  then show ?thesis using min n len by (auto simp: min_ok_def)
qed

theorem min_key_is_least_witness:
  "nat (min_key_index (process_all [5, 5, 6] (ss_init 3))) < num_items (process_all [5, 5, 6] (ss_init 3))"
proof -
  have "num_items (ss_init 3) = 0" "0 < length (freq_array (ss_init 3))" "length [5, 5, 6 :: u64] < 2 ^ 64" "[5, 5, 6 :: u64] \<noteq> []"
    by (simp_all add: ss_init_def)
  from min_key_is_least [OF this] show ?thesis by simp
qed

text \<open>With no more distinct keys than entries nothing is evicted.\<close>

lemma few_keys_monitored:
  assumes "num_items s = 0" "0 < length (freq_array s)" "length xs < 2 ^ 64" "card (set xs) \<le> length (freq_array s)"
  shows "fst ` set (entries (process_all xs s)) = set xs"
  using assms(3,4)
proof (induction xs rule: rev_induct)
  case Nil
  then show ?case using assms(1) by (simp add: process_all_def entries_def)
next
  case (snoc x xs)
  let ?s = "process_all xs s"
  have "card (set xs) \<le> card (set (xs @ [x]))" by (intro card_mono) auto
  then have keys: "fst ` set (entries ?s) = set xs" using snoc by simp
  have inv: "ss_inv xs ?s" and len: "length (freq_array ?s) = length (freq_array s)"
    using process_all_inv [OF assms(1,2), of xs] snoc.prems(1) by simp_all
  have n: "num_items ?s = card (set xs)"
    using inv distinct_card [of "map fst (entries ?s)"] keys by (simp add: ss_inv_def entries_def)
  show ?case
  proof (cases "ProcessKey_loop 0 x ?s")
    case (Some s')
    then obtain j where j: "j < num_items ?s" "fst (freq_array ?s ! j) = x"
      "s' = (let s1 = ?s\<lparr>freq_array := (freq_array ?s)[j := (x, snd (freq_array ?s ! j) + 1)]\<rparr>
           in if x = key_at s1 (min_key_index s1) then SetMin s1 else s1)" by (rule ProcessKey_loop_Some)
    have "map fst (entries s') = (map fst (entries ?s))[j := x]"
      using j(3) by (auto simp: Let_def entries_def take_update_swap map_update)
    moreover have "(map fst (entries ?s))[j := x] = map fst (entries ?s)"
      using j inv list_update_id [of "map fst (entries ?s)" j] by (simp add: entries_def ss_inv_def)
    ultimately have "fst ` set (entries s') = set xs" using keys by (metis image_set)
    moreover have "x \<in> set xs" using keys not_monitored [OF inv, of x] Some by auto
    ultimately show ?thesis using Some by (auto simp: process_all_def ProcessKey_def)
  next
    case None
    then have x: "x \<notin> set xs" using not_monitored [OF inv] keys by simp
    then have "num_items ?s < length (freq_array ?s)" using snoc.prems(2) n len by simp
    then show ?thesis using None keys
      by (simp add: process_all_def ProcessKey_def entries_def take_Suc_conv_app_nth)
  qed
qed

lemma sum_count_list: "(\<Sum>k \<in> set xs. count_list xs k) = length xs"
  by (rule sum_count_set) auto

text \<open>
  C32: When the stream has no more distinct keys than the array has entries, the summary is
  exact: it monitors the keys of the stream and each frequency is the number of occurrences.
\<close>

theorem exact_below_capacity:
  assumes "num_items s = 0" "0 < length (freq_array s)" "length xs < 2 ^ 64" "card (set xs) \<le> length (freq_array s)"
  shows "fst ` set (entries (process_all xs s)) = set xs \<and>
    (\<forall>(k, c) \<in> set (entries (process_all xs s)). unat c = count_list xs k)"
proof -
  let ?e = "entries (process_all xs s)"
  have keys: "fst ` set ?e = set xs" by (rule few_keys_monitored [OF assms])
  have inv: "ss_inv xs (process_all xs s)" using process_all_inv [OF assms(1-3)] by simp
  have d: "distinct (map fst ?e)" using inv by (simp add: ss_inv_def)
  then have inj: "inj_on fst (set ?e)" and de: "distinct ?e" by (simp_all add: distinct_map)
  have "(\<Sum>e \<in> set ?e. count_list xs (fst e)) = length xs"
    using sum.reindex [OF inj, of "count_list xs"] keys sum_count_list [of xs] by simp
  moreover have "(\<Sum>e \<in> set ?e. unat (snd e)) = length xs"
    using inv sum_list_distinct_conv_sum_set [OF de, of "\<lambda>e. unat (snd e)"] by (simp add: ss_inv_def)
  moreover have le: "\<And>e. e \<in> set ?e \<Longrightarrow> count_list xs (fst e) \<le> unat (snd e)" using inv by (auto simp: ss_inv_def)
  ultimately have "count_list xs (fst e) = unat (snd e)" if "e \<in> set ?e" for e
    using sum_mono_inv [of "\<lambda>e. count_list xs (fst e)" "set ?e" "\<lambda>e. unat (snd e)", OF _ le that] by simp
  then show ?thesis using keys by force
qed

theorem exact_below_capacity_witness:
  "fst ` set (entries (process_all [4, 6, 4] (ss_init 2))) = {4, 6}"
proof -
  have "num_items (ss_init 2) = 0" "0 < length (freq_array (ss_init 2))" "length [4, 6, 4 :: u64] < 2 ^ 64"
    "card (set [4, 6, 4 :: u64]) \<le> length (freq_array (ss_init 2))"
    by (simp_all add: ss_init_def card_insert_if)
  from exact_below_capacity [OF this] show ?thesis by auto
qed

section \<open>Extracting the most frequent keys\<close>

lemma ProcessKey_stale:
  assumes "ss_inv xs s" "0 < length (freq_array s)"
  shows "drop (num_items (ProcessKey s x)) (freq_array (ProcessKey s x)) = drop (num_items (ProcessKey s x)) (freq_array s)"
proof (cases "ProcessKey_loop 0 x s")
  case (Some s')
  then obtain j where "j < num_items s"
    "s' = (let s1 = s\<lparr>freq_array := (freq_array s)[j := (x, snd (freq_array s ! j) + 1)]\<rparr>
           in if x = key_at s1 (min_key_index s1) then SetMin s1 else s1)" by (rule ProcessKey_loop_Some)
  then show ?thesis using Some by (simp add: ProcessKey_def Let_def)
next
  case None
  have "nat (min_key_index s) < num_items s" if "\<not> num_items s < length (freq_array s)"
    using assms that by (auto simp: ss_inv_def min_ok_def)
  then show ?thesis using None by (simp add: ProcessKey_def Let_def)
qed

lemma ProcessKey_num_items: "num_items s \<le> num_items (ProcessKey s x)"
  by (auto simp: ProcessKey_def Let_def split: option.splits elim!: ProcessKey_loop_Some)

text \<open>What is behind the used part of the array was there before.\<close>

lemma process_all_stale:
  assumes "num_items s = 0" "0 < length (freq_array s)" "length xs < 2 ^ 64"
  shows "drop (num_items (process_all xs s)) (freq_array (process_all xs s)) = drop (num_items (process_all xs s)) (freq_array s)"
  using assms(3)
proof (induction xs rule: rev_induct)
  case Nil
  then show ?case by (simp add: process_all_def)
next
  case (snoc x xs)
  let ?s = "process_all xs s" and ?t = "ProcessKey (process_all xs s) x"
  have inv: "ss_inv xs ?s \<and> length (freq_array ?s) = length (freq_array s)"
    using process_all_inv [OF assms(1,2), of xs] snoc.prems by simp
  have "drop (num_items ?t) (freq_array ?t) = drop (num_items ?t - num_items ?s) (drop (num_items ?s) (freq_array ?s))"
    using ProcessKey_stale [of xs ?s x] inv assms(2) ProcessKey_num_items [of ?s x] by simp
  also have "\<dots> = drop (num_items ?t) (freq_array s)"
    using snoc ProcessKey_num_items [of ?s x] by simp
  finally show ?case by (simp add: process_all_def)
qed

context std_sort
begin

text \<open>The positive frequencies come first.\<close>

lemma srt_positive:
  assumes "i < length (filter (\<lambda>e. 0 < snd e) xs)"
  shows "0 < snd (srt xs ! i)"
proof (rule ccontr)
  assume "\<not> 0 < snd (srt xs ! i)"
  then have z: "snd (srt xs ! i) = 0" by (simp add: word_greater_zero_iff)
  have len: "length (filter (\<lambda>e. 0 < snd e) (srt xs)) = length (filter (\<lambda>e. 0 < snd e) xs)"
  proof -
    have "mset (filter (\<lambda>e. 0 < snd e) (srt xs)) = mset (filter (\<lambda>e. 0 < snd e) xs)" by (simp add: mset_srt)
    then show ?thesis by (rule mset_eq_length)
  qed
  have "\<forall>e \<in> set (drop i (srt xs)). snd e = 0"
  proof
    fix e
    assume "e \<in> set (drop i (srt xs))"
    then obtain j where "j < length xs - i" "e = srt xs ! (i + j)" by (auto simp: in_set_conv_nth)
    then show "snd e = 0" using srt_antimono [of i "i + j" xs] z by simp
  qed
  then have "filter (\<lambda>e. 0 < snd e) (drop i (srt xs)) = []" by (simp add: filter_empty_conv)
  then have "filter (\<lambda>e. 0 < snd e) (srt xs) = filter (\<lambda>e. 0 < snd e) (take i (srt xs))"
    by (metis append.right_neutral append_take_drop_id filter_append)
  then have "length (filter (\<lambda>e. 0 < snd e) (srt xs)) \<le> i"
    using length_filter_le [of "\<lambda>e. 0 < snd e" "take i (srt xs)"] by simp
  then show False using assms len by simp
qed

end

lemma ExtractTopK_eq:
  assumes "0 \<le> min_key_index s" "nat (min_key_index s) < length (freq_array s)" "k \<le> length (freq_array s)" "std_sort srt"
  shows "ExtractTopK srt k s =
    (let g = srt ((freq_array s)[nat (min_key_index s) := (key_at s (min_key_index s), 0)])
     in Some (take k g, s\<lparr>freq_array := g, num_items := 0\<rparr>))"
  using assms std_sort.length_srt [OF assms(4)]
  by (auto simp: ExtractTopK_def Let_def ResetFreqArray_def intro!: nth_equalityI)

text \<open>The array with the least entry zeroed: its positive entries are the other monitored ones.\<close>

lemma zeroed_entries:
  assumes inv: "ss_inv xs s" and n: "0 < num_items s"
    and stale: "\<forall>e \<in> set (drop (num_items s) (freq_array s)). snd e = 0"
  defines "f \<equiv> (freq_array s)[nat (min_key_index s) := (key_at s (min_key_index s), 0)]"
  shows "length (filter (\<lambda>e. 0 < snd e) f) = num_items s - 1"
    and "e \<in> set f \<Longrightarrow> 0 < snd e \<Longrightarrow> e \<in> set (entries s)"
    and "e \<in> set (entries s) \<Longrightarrow> e \<in> set f \<or> e = freq_array s ! nat (min_key_index s)"
proof -
  let ?m = "nat (min_key_index s)" and ?e = "entries s"
  have min: "?m < num_items s" and le: "num_items s \<le> length (freq_array s)"
    using inv n by (auto simp: ss_inv_def min_ok_def)
  have split: "freq_array s = ?e @ drop (num_items s) (freq_array s)" by (simp add: entries_def)
  have len: "length ?e = num_items s" using le by (simp add: entries_def)
  have f: "f = ?e[?m := (key_at s (min_key_index s), 0)] @ drop (num_items s) (freq_array s)"
    unfolding f_def by (subst split) (simp add: list_update_append min len del: split)
  have pos: "\<forall>e \<in> set ?e. 0 < snd e"
    using inv by (auto simp: ss_inv_def word_greater_zero_iff)
  have drop0: "filter (\<lambda>e. 0 < snd e) (drop (num_items s) (freq_array s)) = []"
    using stale by (simp add: filter_empty_conv)
  have upd: "?e[?m := (key_at s (min_key_index s), 0)] = take ?m ?e @ (key_at s (min_key_index s), 0) # drop (Suc ?m) ?e"
    using min len by (simp add: upd_conv_take_nth_drop)
  have all: "filter (\<lambda>e. 0 < snd e) (take ?m ?e) = take ?m ?e" "filter (\<lambda>e. 0 < snd e) (drop (Suc ?m) ?e) = drop (Suc ?m) ?e"
    using pos by (auto simp: filter_id_conv dest: in_set_takeD in_set_dropD)
  show "length (filter (\<lambda>e. 0 < snd e) f) = num_items s - 1"
    unfolding f upd filter_append drop0 using all min len by simp
  show "e \<in> set (entries s)" if "e \<in> set f" "0 < snd e"
    using that stale unfolding f upd by (auto dest: in_set_takeD in_set_dropD simp: word_greater_zero_iff)
  show "e \<in> set f \<or> e = freq_array s ! ?m" if "e \<in> set (entries s)"
  proof -
    have "?e = take ?m ?e @ ?e ! ?m # drop (Suc ?m) ?e" using min len by (simp add: id_take_nth_drop)
    then have "e \<in> set (take ?m ?e) \<or> e = ?e ! ?m \<or> e \<in> set (drop (Suc ?m) ?e)" using that
      by (metis Un_iff set_ConsD set_append)
    then show ?thesis using min unfolding f upd by (auto simp: entries_def)
  qed
qed

lemma zeroed_distinct:
  assumes inv: "ss_inv xs s" and n: "0 < num_items s"
    and stale: "\<forall>e \<in> set (drop (num_items s) (freq_array s)). snd e = 0"
  shows "distinct (map fst (filter (\<lambda>e. 0 < snd e) ((freq_array s)[nat (min_key_index s) := (key_at s (min_key_index s), 0)])))"
proof -
  let ?m = "nat (min_key_index s)" and ?e = "entries s" and ?r = "drop (num_items s) (freq_array s)"
  let ?z = "(key_at s (min_key_index s), 0)"
  have min: "?m < num_items s" and le: "num_items s \<le> length (freq_array s)"
    using inv n by (auto simp: ss_inv_def min_ok_def)
  have len: "length ?e = num_items s" and split: "?e @ ?r = freq_array s" using le by (simp_all add: entries_def)
  have f: "(freq_array s)[?m := ?z] = ?e[?m := ?z] @ ?r"
    using list_update_append1 [of ?m ?e ?r ?z] min len by (simp only: split)
  have "map fst ?e ! ?m = key_at s (min_key_index s)" using min len by (simp add: entries_def)
  then have "map fst (?e[?m := ?z]) = map fst ?e" using list_update_id [of "map fst ?e" ?m] by (simp only: map_update fst_conv)
  then have d: "distinct (map fst (?e[?m := ?z]))" using inv by (simp add: ss_inv_def)
  have "filter (\<lambda>e. 0 < snd e) ?r = []" using stale by (simp add: filter_empty_conv)
  then show ?thesis unfolding f using d by (simp add: distinct_map_filter)
qed

context std_sort
begin

lemma srt_index:
  assumes "e \<in> set xs"
  obtains j where "j < length xs" "e = srt xs ! j"
  using assms by (metis in_set_conv_nth length_srt set_srt)

lemma take_srt_distinct:
  assumes "distinct (map fst (filter (\<lambda>e. 0 < snd e) xs))" "k \<le> length (filter (\<lambda>e. 0 < snd e) xs)"
  shows "distinct (map fst (take k (srt xs)))"
proof -
  let ?P = "\<lambda>e :: entry. 0 < snd e"
  have "\<forall>e \<in> set (take k (srt xs)). ?P e"
  proof
    fix e assume "e \<in> set (take k (srt xs))"
    then obtain i where "i < k" "e = srt xs ! i" by (auto simp: in_set_conv_nth)
    then show "?P e" using srt_positive [of i xs] assms(2) by simp
  qed
  then have "filter ?P (srt xs) = take k (srt xs) @ filter ?P (drop k (srt xs))"
    using filter_append [of ?P "take k (srt xs)" "drop k (srt xs)"] filter_True [of "take k (srt xs)" ?P] by simp
  moreover have "mset (map fst (filter ?P (srt xs))) = mset (map fst (filter ?P xs))" by (simp add: mset_srt)
  then have "distinct (map fst (filter ?P (srt xs)))" using assms(1) mset_eq_imp_distinct_iff by blast
  ultimately show ?thesis by simp
qed

lemma top_k:
  assumes "num_items s = 0" "0 < length (freq_array s)" "\<forall>e \<in> set (freq_array s). snd e = 0"
    and "length xs < 2 ^ 64" "k < num_items (process_all xs s)"
  shows "\<exists>top s'. ExtractTopK srt k (process_all xs s) = Some (top, s') \<and> length top = k
    \<and> distinct (map fst top) \<and> sorted_wrt (\<lambda>e e'. snd e' \<le> snd e) top \<and> set top \<subseteq> set (entries (process_all xs s))
    \<and> (\<forall>e \<in> set (entries (process_all xs s)). e \<notin> set top \<longrightarrow> (\<forall>e' \<in> set top. snd e \<le> snd e'))
    \<and> num_items s' = 0"
proof -
  let ?s = "process_all xs s"
  let ?m = "nat (min_key_index ?s)"
  let ?f = "(freq_array ?s)[?m := (key_at ?s (min_key_index ?s), 0)]"
  have inv: "ss_inv xs ?s" using process_all_inv [OF assms(1,2,4)] by simp
  have n: "num_items ?s \<le> length (freq_array ?s)" and min: "min_ok ?s" using inv assms(5) by (auto simp: ss_inv_def)
  have stale: "\<forall>e \<in> set (drop (num_items ?s) (freq_array ?s)). snd e = 0"
    using process_all_stale [OF assms(1,2,4)] assms(3) by (metis in_set_dropD)
  have pos: "0 < num_items ?s" using assms(5) by simp
  note z = zeroed_entries [OF inv pos stale]
  have ex: "ExtractTopK srt k ?s = Some (take k (srt ?f), ?s\<lparr>freq_array := srt ?f, num_items := 0\<rparr>)"
    using min n assms(5) std_sort_axioms by (subst ExtractTopK_eq) (auto simp: min_ok_def Let_def)
  have top: "e \<in> set (entries ?s)" if e: "e \<in> set (take k (srt ?f))" for e
  proof -
    obtain i where i: "i < k" "i < length (srt ?f)" "e = srt ?f ! i" using e by (auto simp: in_set_conv_nth)
    have "0 < snd e" unfolding i(3) by (rule srt_positive) (use z(1) i(1) assms(5) in simp)
    moreover have "e \<in> set ?f" using i nth_mem [of i "srt ?f"] by simp
    ultimately show ?thesis by (rule z(2) [rotated])
  qed
  have rest: "snd e \<le> snd e'" if e: "e \<in> set (entries ?s)" "e \<notin> set (take k (srt ?f))" "e' \<in> set (take k (srt ?f))" for e e'
    using z(3) [OF e(1)]
  proof
    assume "e \<in> set ?f"
    then obtain j where j: "j < length ?f" "e = srt ?f ! j" by (rule srt_index)
    have "take k (srt ?f) ! j = e" if "j < k" using j that by simp
    then have kj: "k \<le> j" using e(2) j(1) nth_mem [of j "take k (srt ?f)"] by (cases "j < k") auto
    obtain i where "i < k" "e' = srt ?f ! i" using e(3) by (auto simp: in_set_conv_nth)
    then show ?thesis using j kj srt_antimono [of i j ?f] by simp
  next
    assume "e = freq_array ?s ! ?m"
    then show ?thesis using min_ok_entries [OF min n top [OF e(3)]] by simp
  qed
  have "sorted_wrt (\<lambda>e e'. snd e' \<le> snd e) (take k (srt ?f))"
    using sorted_srt [of ?f] by (intro sorted_wrt_take) (simp add: ComparePair_def not_less)
  moreover have "\<forall>e \<in> set (entries ?s). e \<notin> set (take k (srt ?f)) \<longrightarrow> (\<forall>e' \<in> set (take k (srt ?f)). snd e \<le> snd e')"
    using rest by blast
  moreover have "set (take k (srt ?f)) \<subseteq> set (entries ?s)" using top by blast
  moreover have "distinct (map fst (take k (srt ?f)))"
    by (rule take_srt_distinct [OF zeroed_distinct [OF inv pos stale]]) (use z(1) assms(5) in simp)
  moreover have "length (take k (srt ?f)) = k" using n assms(5) by simp
  moreover have "num_items (?s\<lparr>freq_array := srt ?f, num_items := 0\<rparr>) = 0" by simp
  ultimately show ?thesis using ex by blast
qed

end

text \<open>
  C15: On a summary whose unused entries are zero (as in the first round), extracting fewer
  entries than there are keys succeeds and gives that many monitored entries of distinct keys with their
  frequencies, in descending order, and no monitored entry that was left out has a higher frequency than one that
  was taken; the summary is empty after it.
\<close>

theorem top_k_correct:
  assumes "std_sort srt" "num_items s = 0" "0 < length (freq_array s)" "\<forall>e \<in> set (freq_array s). snd e = 0"
    and "length xs < 2 ^ 64" "k < num_items (process_all xs s)"
  shows "\<exists>top s'. ExtractTopK srt k (process_all xs s) = Some (top, s') \<and> length top = k
    \<and> distinct (map fst top) \<and> sorted_wrt (\<lambda>e e'. snd e' \<le> snd e) top \<and> set top \<subseteq> set (entries (process_all xs s))
    \<and> (\<forall>e \<in> set (entries (process_all xs s)). e \<notin> set top \<longrightarrow> (\<forall>e' \<in> set top. snd e \<le> snd e'))
    \<and> num_items s' = 0"
  by (rule std_sort.top_k [OF assms])

lemma counted_state:
  "process_all [3, 1, 3, 2, 3, 1] (ss_init 4)
    = \<lparr>num_items = 3, min_key_index = 2, freq_array = [(3, 3), (1, 2), (2, 1), (0, 0)]\<rparr>"
  by code_simp

lemma counted_top:
  "ExtractTopK sort_desc 2 (process_all [3, 1, 3, 2, 3, 1] (ss_init 4))
    = Some ([(3, 3), (1, 2)], \<lparr>num_items = 0, min_key_index = 2, freq_array = [(3, 3), (1, 2), (0, 0), (2, 0)]\<rparr>)"
  by code_simp

theorem top_k_correct_witness:
  "\<exists>s'. ExtractTopK sort_desc 2 (process_all [3, 1, 3, 2, 3, 1] (ss_init 4)) = Some ([(3, 3), (1, 2)], s') \<and>
    distinct (map fst [(3, 3), (1, 2) :: entry]) \<and> set [(3, 3), (1, 2)] \<subseteq> set (entries (process_all [3, 1, 3, 2, 3, 1] (ss_init 4))) \<and>
    num_items s' = 0"
proof -
  have init: "num_items (ss_init 4) = 0" "0 < length (freq_array (ss_init 4))"
    "\<forall>e \<in> set (freq_array (ss_init 4)). snd e = 0" "length [3, 1, 3, 2, 3, 1 :: u64] < 2 ^ 64"
    by (simp_all add: ss_init_def)
  have n: "2 < num_items (process_all [3, 1, 3, 2, 3, 1] (ss_init 4))" unfolding counted_state by simp
  obtain top s' where t: "ExtractTopK sort_desc 2 (process_all [3, 1, 3, 2, 3, 1] (ss_init 4)) = Some (top, s')"
    "distinct (map fst top)" "set top \<subseteq> set (entries (process_all [3, 1, 3, 2, 3, 1] (ss_init 4)))" "num_items s' = 0"
    using top_k_correct [OF sort_desc.std_sort_axioms init n] by blast
  have "[(3, 3), (1, 2)] = top" using t(1) unfolding counted_top option.inject prod.inject by (rule conjunct1)
  then show ?thesis using t by (intro exI [of _ s'] conjI) (simp_all only:)
qed

lemma process_replicate:
  assumes "num_items s = 0" "0 < length (freq_array s)"
  shows "process_all (replicate (Suc n) y) s =
    s\<lparr>num_items := 1, min_key_index := 0, freq_array := (freq_array s)[0 := (y, of_nat (Suc n))]\<rparr>"
proof (induction n)
  case 0
  show ?case using assms by (simp add: process_all_def ProcessKey_def ProcessKey_loop.simps)
next
  case (Suc n)
  let ?s = "s\<lparr>num_items := 1, min_key_index := 0, freq_array := (freq_array s)[0 := (y, of_nat (Suc n))]\<rparr>"
  have "SetMin (?s\<lparr>freq_array := (freq_array s)[0 := (y, of_nat (Suc (Suc n)))]\<rparr>)
    = ?s\<lparr>freq_array := (freq_array s)[0 := (y, of_nat (Suc (Suc n)))]\<rparr>"
    by (simp add: SetMin_def SetMin_loop.simps)
  then have "ProcessKey ?s y = ?s\<lparr>freq_array := (freq_array s)[0 := (y, of_nat (Suc (Suc n)))]\<rparr>"
    using assms by (simp add: ProcessKey_def ProcessKey_loop.simps [of 0] Let_def add.commute)
  moreover have "process_all (replicate (Suc (Suc n)) y) s = ProcessKey (process_all (replicate (Suc n) y) s) y"
    unfolding process_all_def replicate_Suc [of "Suc n"] replicate_append_same [symmetric] by simp
  ultimately show ?case using Suc by simp
qed

context std_sort
begin

lemma extract_single:
  assumes "num_items s = 0" "0 < length (freq_array s)" "0 < n"
  shows "\<exists>s'. ExtractTopK srt 1 (process_all (replicate n y) s) = Some ([srt ((freq_array s)[0 := (y, 0)]) ! 0], s')"
proof -
  obtain n' where n: "n = Suc n'" using assms(3) by (cases n) auto
  have l: "0 < length (srt ((freq_array s)[0 := (y, 0)]))" using assms(2) by simp
  have "ExtractTopK srt 1 (process_all (replicate n y) s) = (let g = srt ((freq_array s)[0 := (y, 0)])
    in Some (take 1 g, (process_all (replicate n y) s)\<lparr>freq_array := g, num_items := 0\<rparr>))"
    unfolding n process_replicate [OF assms(1,2)]
    using assms(2) std_sort_axioms by (subst ExtractTopK_eq) (auto simp: Let_def Suc_le_eq)
  then show ?thesis using l by (cases "srt ((freq_array s)[0 := (y, 0)])") (auto simp: Let_def)
qed

lemma srt_first_max: "e \<in> set xs \<Longrightarrow> snd e \<le> snd (srt xs ! 0)"
  using srt_antimono [of 0 _ xs] srt_index [of e xs] by blast

end

text \<open>
  C33: Resetting only sets the number of items to zero, and the extraction sorts the whole
  array: when an earlier round left a positive frequency behind the first entry, a round in which a
  single key was written (any number of times) reports an entry of the earlier round instead of it.
\<close>

theorem stale_entries_reported:
  assumes "std_sort srt" "num_items s = 0" "1 \<le> j" "j < length (freq_array s)" "0 < snd (freq_array s ! j)" "0 < n"
  shows "\<exists>e s'. ExtractTopK srt 1 (process_all (replicate n y) s) = Some ([e], s')
    \<and> e \<in> set (drop 1 (freq_array s)) \<and> 0 < snd e"
proof -
  let ?f = "(freq_array s)[0 := (y, 0)]"
  let ?e = "srt ?f ! 0"
  have l: "0 < length (freq_array s)" by (rule le_less_trans [OF le0 assms(4)])
  have "?f ! j = freq_array s ! j" "j < length ?f" using assms(3,4) by simp_all
  then have "freq_array s ! j \<in> set ?f" by (metis nth_mem)
  then have pos: "0 < snd ?e" using std_sort.srt_first_max [OF assms(1)] assms(5) by (meson less_le_trans)
  have "?e \<in> set ?f" using std_sort.set_srt [OF assms(1)] std_sort.length_srt [OF assms(1)] l
    by (metis length_list_update nth_mem)
  then have "?e \<in> set (drop 1 (freq_array s))" using pos by (cases "freq_array s") auto
  with std_sort.extract_single [OF assms(1,2) l assms(6)] pos show ?thesis by blast
qed

lemma first_round_state:
  "ExtractTopK sort_desc 1 (process_all [1, 1, 2, 2, 3] (ss_init 4))
    = Some ([(2, 2)], \<lparr>num_items = 0, min_key_index = 2, freq_array = [(2, 2), (1, 2), (0, 0), (3, 0)]\<rparr>)"
  by code_simp

theorem stale_entries_reported_witness:
  "\<exists>e s'. ExtractTopK sort_desc 1
      (process_all (replicate 5 9) (snd (the (ExtractTopK sort_desc 1 (process_all [1, 1, 2, 2, 3] (ss_init 4)))))) = Some ([e], s')
    \<and> e \<in> {(1, 2), (0, 0), (3, 0)} \<and> 0 < snd e"
  unfolding first_round_state option.sel snd_conv
  using stale_entries_reported [OF sort_desc.std_sort_axioms, of
      "\<lparr>num_items = 0, min_key_index = 2, freq_array = [(2, 2), (1, 2), (0, 0), (3, 0)]\<rparr>" 1 5 9] by simp

text \<open>
  The extraction first sets the least frequency to zero: when a new summary has seen one
  key only, however often, the most frequent key is reported with frequency zero.
\<close>

theorem single_key_reported_zero:
  assumes "std_sort srt" "0 < m" "0 < n"
  shows "\<exists>e s'. ExtractTopK srt 1 (process_all (replicate n y) (ss_init m)) = Some ([e], s') \<and> snd e = 0"
proof -
  let ?f = "(freq_array (ss_init m))[0 := (y, 0)]"
  have l: "num_items (ss_init m) = 0" "0 < length (freq_array (ss_init m))" using assms(2) by (simp_all add: ss_init_def)
  have "srt ?f ! 0 \<in> set ?f" using std_sort.set_srt [OF assms(1)] std_sort.length_srt [OF assms(1)] l(2)
    by (metis length_list_update nth_mem)
  moreover have "\<forall>e \<in> set ?f. snd e = 0" by (auto simp: ss_init_def dest!: set_update_subset_insert [THEN subsetD])
  ultimately show ?thesis using std_sort.extract_single [OF assms(1) l assms(3)] by blast
qed

theorem single_key_reported_zero_witness:
  "\<exists>e s'. ExtractTopK sort_desc 1 (process_all (replicate 5 9) (ss_init 4)) = Some ([e], s') \<and> snd e = 0"
  by (rule single_key_reported_zero [OF sort_desc.std_sort_axioms]) simp_all

end
