(* ===== verification/Filename.thy ===== *)
theory Filename
  imports Prelude
begin

text \<open>
  The names of the database's files: \<^verbatim>\<open>util/filename.h\<close>, \<^verbatim>\<open>util/filename.cc\<close> and
  \<^verbatim>\<open>ConsumeDecimalNumber\<close> of \<^verbatim>\<open>util/string_util.cc\<close>. Names are strings; the out-parameters of
  \<^verbatim>\<open>ParseFileName\<close> are a record that is passed through, so that a branch which does not assign them
  leaves the caller's values.
\<close>

section \<open>Printing numbers\<close>

text \<open>\<^verbatim>\<open>%06llu\<close>: at least six digits.\<close>

definition pad06 :: "nat \<Rightarrow> string" where
  "pad06 n = replicate (6 - length (decimal n)) CHR ''0'' @ decimal n"

definition is_digit :: "char \<Rightarrow> bool" where
  "is_digit c \<longleftrightarrow> 48 \<le> (of_char c :: nat) \<and> (of_char c :: nat) \<le> 57"

definition digit_value :: "char \<Rightarrow> nat" where
  "digit_value c = of_char c - 48"

text \<open>The loop of \<^verbatim>\<open>ConsumeDecimalNumber\<close>: \<open>None\<close> when the number does not fit 64 bits.\<close>

fun consume_digits :: "u64 \<Rightarrow> nat \<Rightarrow> string \<Rightarrow> (u64 \<times> nat \<times> string) option" where
  "consume_digits v digits [] = Some (v, digits, [])"
| "consume_digits v digits (c # cs) =
    (if is_digit c then
       let delta = word_of_nat (digit_value c) :: u64
       in if v > (- 1) div 10 \<or> (v = (- 1) div 10 \<and> delta > (- 1) mod 10) then None
          else consume_digits (v * 10 + delta) (digits + 1) cs
     else Some (v, digits, c # cs))"

definition ConsumeDecimalNumber :: "string \<Rightarrow> (u64 \<times> string) option" where
  "ConsumeDecimalNumber inp =
    (case consume_digits 0 0 inp of
       None \<Rightarrow> None
     | Some (v, digits, rest) \<Rightarrow> if digits > 0 then Some (v, rest) else None)"

section \<open>Making names\<close>

definition ARCHIVAL_DIR :: string where "ARCHIVAL_DIR = ''archive''"
definition kRocksDbTFileExt :: string where "kRocksDbTFileExt = ''sst''"
definition kLevelDbTFileExt :: string where "kLevelDbTFileExt = ''ldb''"
definition kRocksDBBlobFileExt :: string where "kRocksDBBlobFileExt = ''blob''"
definition kOptionsFileNamePrefix :: string where "kOptionsFileNamePrefix = ''OPTIONS-''"
definition kTempFileNameSuffix :: string where "kTempFileNameSuffix = ''dbtmp''"

lemmas name_parts = ARCHIVAL_DIR_def kRocksDbTFileExt_def kLevelDbTFileExt_def kRocksDBBlobFileExt_def
  kOptionsFileNamePrefix_def kTempFileNameSuffix_def

text \<open>\<^verbatim>\<open>snprintf\<close> into a buffer of \<open>n\<close> bytes keeps \<open>n - 1\<close> characters.\<close>

definition snprintf_buf :: "nat \<Rightarrow> string \<Rightarrow> string" where
  "snprintf_buf n s = take (n - 1) s"

definition MakeFileName :: "string \<Rightarrow> u64 \<Rightarrow> string \<Rightarrow> string" where
  "MakeFileName name number suffix =
    name @ snprintf_buf 100 (''/'' @ pad06 (unat number) @ ''.'' @ suffix)"

definition LogFileName :: "string \<Rightarrow> u64 \<Rightarrow> string" where
  "LogFileName name number = MakeFileName name number ''log''"

definition BlobFileName :: "string \<Rightarrow> u64 \<Rightarrow> string" where
  "BlobFileName blobdirname number = MakeFileName blobdirname number kRocksDBBlobFileExt"

definition BlobFileName_dir :: "string \<Rightarrow> string \<Rightarrow> u64 \<Rightarrow> string" where
  "BlobFileName_dir dbname blob_dir number =
    MakeFileName (dbname @ ''/'' @ blob_dir) number kRocksDBBlobFileExt"

definition ArchivalDirectory :: "string \<Rightarrow> string" where
  "ArchivalDirectory dir = dir @ ''/'' @ ARCHIVAL_DIR"

definition ArchivedLogFileName :: "string \<Rightarrow> u64 \<Rightarrow> string" where
  "ArchivedLogFileName name number = MakeFileName (name @ ''/'' @ ARCHIVAL_DIR) number ''log''"

definition MakeTableFileName :: "string \<Rightarrow> u64 \<Rightarrow> string" where
  "MakeTableFileName path number = MakeFileName path number kRocksDbTFileExt"

definition Rocks2LevelTableFileName :: "string \<Rightarrow> string" where
  "Rocks2LevelTableFileName fullname =
    (if length fullname \<le> length kRocksDbTFileExt + 1 then []
     else take (length fullname - length kRocksDbTFileExt) fullname @ kLevelDbTFileExt)"

text \<open>\<^verbatim>\<open>TableFileNameToNumber\<close> goes back from the last dot; without a dot there is nothing to read.\<close>

fun table_number_loop :: "u64 \<Rightarrow> u64 \<Rightarrow> string \<Rightarrow> u64" where
  "table_number_loop number base [] = number"
| "table_number_loop number base (c # cs) =
    (if is_digit c then table_number_loop (number + word_of_nat (digit_value c) * base) (base * 10) cs
     else number)"

definition TableFileNameToNumber :: "string \<Rightarrow> u64" where
  "TableFileNameToNumber name = table_number_loop 0 1 (tl (dropWhile (\<lambda>c. c \<noteq> CHR ''.'') (rev name)))"

definition TableFileName :: "string list \<Rightarrow> u64 \<Rightarrow> nat \<Rightarrow> string" where
  "TableFileName db_paths number path_id =
    MakeTableFileName (if path_id \<ge> length db_paths then last db_paths else db_paths ! path_id) number"

definition FormatFileNumber :: "u64 \<Rightarrow> u32 \<Rightarrow> nat \<Rightarrow> string" where
  "FormatFileNumber number path_id out_buf_size =
    snprintf_buf out_buf_size
      (if path_id = 0 then decimal (unat number)
       else decimal (unat number) @ ''(path '' @ decimal (unat path_id) @ '')'')"

definition DescriptorFileName :: "string \<Rightarrow> u64 \<Rightarrow> string" where
  "DescriptorFileName dbname number = dbname @ snprintf_buf 100 (''/MANIFEST-'' @ pad06 (unat number))"

definition CurrentFileName :: "string \<Rightarrow> string" where
  "CurrentFileName dbname = dbname @ ''/CURRENT''"

definition LockFileName :: "string \<Rightarrow> string" where
  "LockFileName dbname = dbname @ ''/LOCK''"

definition TempFileName :: "string \<Rightarrow> u64 \<Rightarrow> string" where
  "TempFileName dbname number = MakeFileName dbname number kTempFileNameSuffix"

text \<open>
  \<^verbatim>\<open>GetInfoLogPrefix\<close>: a path flattened to letters, digits and a few signs, at most \<open>len - 5\<close>
  characters of it, then \<^verbatim>\<open>_LOG\<close>.
\<close>

definition plain_char :: "char \<Rightarrow> bool" where
  "plain_char c \<longleftrightarrow> (let n = of_char c :: nat
     in (97 \<le> n \<and> n \<le> 122) \<or> (48 \<le> n \<and> n \<le> 57) \<or> (65 \<le> n \<and> n \<le> 90)) \<or> c \<in> {CHR ''-'', CHR ''.'', CHR ''_''}"

fun info_log_loop :: "nat \<Rightarrow> nat \<Rightarrow> string \<Rightarrow> string \<Rightarrow> string" where
  "info_log_loop limit i dest [] = dest"
| "info_log_loop limit i dest (c # cs) =
    (if length dest < limit then
       info_log_loop limit (i + 1)
         (if plain_char c then dest @ [c] else if i > 0 then dest @ ''_'' else dest) cs
     else dest)"

definition GetInfoLogPrefix :: "string \<Rightarrow> nat \<Rightarrow> string" where
  "GetInfoLogPrefix path len = info_log_loop (len - 5) 0 [] path @ ''_LOG''"

definition InfoLogPrefix :: "bool \<Rightarrow> string \<Rightarrow> string" where
  "InfoLogPrefix has_log_dir db_absolute_path =
    (if \<not> has_log_dir then ''LOG'' else GetInfoLogPrefix db_absolute_path 260)"

definition InfoLogFileName :: "string \<Rightarrow> string \<Rightarrow> string \<Rightarrow> string" where
  "InfoLogFileName dbname db_path log_dir =
    (if log_dir = [] then dbname @ ''/LOG'' else log_dir @ ''/'' @ InfoLogPrefix True db_path)"

definition OldInfoLogFileName :: "string \<Rightarrow> u64 \<Rightarrow> string \<Rightarrow> string \<Rightarrow> string" where
  "OldInfoLogFileName dbname ts db_path log_dir =
    (let buf = snprintf_buf 50 (decimal (unat ts))
     in if log_dir = [] then dbname @ ''/LOG.old.'' @ buf
        else log_dir @ ''/'' @ InfoLogPrefix True db_path @ ''.old.'' @ buf)"

definition OptionsFileName :: "string \<Rightarrow> u64 \<Rightarrow> string" where
  "OptionsFileName dbname file_num =
    dbname @ ''/'' @ snprintf_buf 256 (kOptionsFileNamePrefix @ pad06 (unat file_num))"

definition TempOptionsFileName :: "string \<Rightarrow> u64 \<Rightarrow> string" where
  "TempOptionsFileName dbname file_num =
    dbname @ ''/'' @ snprintf_buf 256 (kOptionsFileNamePrefix @ pad06 (unat file_num) @ ''.'' @ kTempFileNameSuffix)"

definition MetaDatabaseName :: "string \<Rightarrow> u64 \<Rightarrow> string" where
  "MetaDatabaseName dbname number = dbname @ snprintf_buf 100 (''/METADB-'' @ decimal (unat number))"

definition IdentityFileName :: "string \<Rightarrow> string" where
  "IdentityFileName dbname = dbname @ ''/IDENTITY''"

section \<open>Parsing names\<close>

datatype FileType =
    kLogFile | kDBLockFile | kTableFile | kDescriptorFile | kCurrentFile | kTempFile
  | kInfoLogFile | kMetaDatabase | kIdentityFile | kOptionsFile | kBlobFile

datatype WalFileType = kArchivedLogFile | kAliveLogFile

record parsed_name =
  p_number :: u64
  p_type :: FileType
  p_log_type :: WalFileType

definition starts_with :: "string \<Rightarrow> string \<Rightarrow> bool" where
  "starts_with s p \<longleftrightarrow> length s \<ge> length p \<and> take (length p) s = p"

definition ends_with :: "string \<Rightarrow> string \<Rightarrow> bool" where
  "ends_with s p \<longleftrightarrow> length s \<ge> length p \<and> drop (length s - length p) s = p"

text \<open>The branch for the info log: a name behind the prefix that is none of its forms assigns nothing.\<close>

definition parse_info_log :: "string \<Rightarrow> parsed_name \<Rightarrow> bool \<times> parsed_name" where
  "parse_info_log rest res =
    (if rest = [] \<or> rest = ''.old'' then (True, res\<lparr>p_number := 0, p_type := kInfoLogFile\<rparr>)
     else if starts_with rest ''.old.'' then
       (case ConsumeDecimalNumber (drop 5 rest) of
          None \<Rightarrow> (False, res)
        | Some (ts_suffix, _) \<Rightarrow> (True, res\<lparr>p_number := ts_suffix, p_type := kInfoLogFile\<rparr>))
     else (True, res))"

definition parse_only_number :: "FileType \<Rightarrow> string \<Rightarrow> parsed_name \<Rightarrow> bool \<times> parsed_name" where
  "parse_only_number t rest res =
    (case ConsumeDecimalNumber rest of
       None \<Rightarrow> (False, res)
     | Some (num, rest) \<Rightarrow>
         if rest \<noteq> [] then (False, res) else (True, res\<lparr>p_number := num, p_type := t\<rparr>))"

definition parse_options :: "string \<Rightarrow> parsed_name \<Rightarrow> bool \<times> parsed_name" where
  "parse_options rest res =
    (let suffix = ''.'' @ kTempFileNameSuffix;
         is_temp_file = ends_with rest suffix;
         rest = (if is_temp_file then take (length rest - length suffix) rest else rest)
     in case ConsumeDecimalNumber rest of
          None \<Rightarrow> (False, res)
        | Some (ts_suffix, _) \<Rightarrow>
            (True, res\<lparr>p_number := ts_suffix, p_type := (if is_temp_file then kTempFile else kOptionsFile)\<rparr>))"

definition parse_numbered :: "string \<Rightarrow> parsed_name \<Rightarrow> bool \<times> parsed_name" where
  "parse_numbered rest res =
    (if starts_with rest ARCHIVAL_DIR \<and> length rest \<le> length ARCHIVAL_DIR then (False, res)
     else
       let archive_dir_found = starts_with rest ARCHIVAL_DIR;
           res = (if archive_dir_found then res\<lparr>p_log_type := kArchivedLogFile\<rparr> else res);
           rest = (if archive_dir_found then drop (length ARCHIVAL_DIR + 1) rest else rest)
       in case ConsumeDecimalNumber rest of
            None \<Rightarrow> (False, res)
          | Some (num, rest) \<Rightarrow>
              if length rest \<le> 1 \<or> hd rest \<noteq> CHR ''.'' then (False, res)
              else
                let suffix = tl rest
                in if suffix = ''log'' then
                     (True, (if archive_dir_found then res\<lparr>p_type := kLogFile\<rparr>
                             else res\<lparr>p_type := kLogFile, p_log_type := kAliveLogFile\<rparr>)\<lparr>p_number := num\<rparr>)
                   else if archive_dir_found then (False, res)
                   else if suffix = kRocksDbTFileExt \<or> suffix = kLevelDbTFileExt then
                     (True, res\<lparr>p_type := kTableFile, p_number := num\<rparr>)
                   else if suffix = kRocksDBBlobFileExt then (True, res\<lparr>p_type := kBlobFile, p_number := num\<rparr>)
                   else if suffix = kTempFileNameSuffix then (True, res\<lparr>p_type := kTempFile, p_number := num\<rparr>)
                   else (False, res))"

definition ParseFileName_prefix :: "string \<Rightarrow> string \<Rightarrow> parsed_name \<Rightarrow> bool \<times> parsed_name" where
  "ParseFileName_prefix fname info_log_name_prefix res =
    (let rest = (if length fname > 1 \<and> hd fname = CHR ''/'' then drop 1 fname else fname)
     in if rest = ''IDENTITY'' then (True, res\<lparr>p_number := 0, p_type := kIdentityFile\<rparr>)
        else if rest = ''CURRENT'' then (True, res\<lparr>p_number := 0, p_type := kCurrentFile\<rparr>)
        else if rest = ''LOCK'' then (True, res\<lparr>p_number := 0, p_type := kDBLockFile\<rparr>)
        else if length info_log_name_prefix > 0 \<and> starts_with rest info_log_name_prefix then
          parse_info_log (drop (length info_log_name_prefix) rest) res
        else if starts_with rest ''MANIFEST-'' then parse_only_number kDescriptorFile (drop 9 rest) res
        else if starts_with rest ''METADB-'' then parse_only_number kMetaDatabase (drop 7 rest) res
        else if starts_with rest kOptionsFileNamePrefix then
          parse_options (drop (length kOptionsFileNamePrefix) rest) res
        else parse_numbered rest res)"

definition ParseFileName :: "string \<Rightarrow> parsed_name \<Rightarrow> bool \<times> parsed_name" where
  "ParseFileName fname res = ParseFileName_prefix fname [] res"

section \<open>Numbers that were printed are read back\<close>

lemma of_char_digit [simp]: "d < 10 \<Longrightarrow> (of_char (digit_char d) :: nat) = 48 + d"
  by (simp add: digit_char_def of_char_of)

lemma digit_char_simps [simp]:
  "d < 10 \<Longrightarrow> is_digit (digit_char d)" "d < 10 \<Longrightarrow> digit_value (digit_char d) = d"
  by (simp_all add: is_digit_def digit_value_def)

lemma is_digit_0 [simp]: "is_digit CHR ''0''" "digit_value CHR ''0'' = 0"
  by (simp_all add: is_digit_def digit_value_def)

definition digits_from :: "nat \<Rightarrow> string \<Rightarrow> nat" where
  "digits_from v s = foldl (\<lambda>v c. v * 10 + digit_value c) v s"

lemma digits_from_simps [simp]:
  "digits_from v [] = v" "digits_from v (c # s) = digits_from (v * 10 + digit_value c) s"
  "digits_from v (s @ t) = digits_from (digits_from v s) t"
  by (simp_all add: digits_from_def)

lemma digits_from_ge: "v \<le> digits_from v s"
proof (induction s arbitrary: v)
  case (Cons c s)
  have "v \<le> v * 10 + digit_value c" by simp
  then show ?case using Cons [of "v * 10 + digit_value c"] by simp
qed simp

lemma decimal_digits: "\<forall>c \<in> set (decimal n). is_digit c"
  by (induction n rule: decimal.induct) (subst decimal.simps, auto)

lemma decimal_nonempty [simp]: "decimal n \<noteq> []"
  by (subst decimal.simps) simp

lemma digits_from_decimal: "digits_from 0 (decimal n) = n"
  by (induction n rule: decimal.induct) (subst decimal.simps, auto)

lemma digits_from_zeros [simp]: "digits_from 0 (replicate k CHR ''0'') = 0"
  by (induction k) auto

lemma pad06_digits: "\<forall>c \<in> set (pad06 n). is_digit c" "digits_from 0 (pad06 n) = n" "pad06 n \<noteq> []"
  using decimal_digits by (auto simp: pad06_def digits_from_decimal)

text \<open>The overflow test is exact.\<close>

lemma overflow_test:
  fixes v :: u64
  assumes "d < 10"
  shows "(v > (- 1) div 10 \<or> (v = (- 1) div 10 \<and> word_of_nat d > (- 1 :: u64) mod 10)) \<longleftrightarrow> \<not> unat v * 10 + d < 2 ^ 64"
proof -
  have a: "(- 1 :: u64) div 10 = 1844674407370955161" "(- 1 :: u64) mod 10 = 5" by (simp_all add: word_div_def word_mod_def unsigned_minus_1_eq_mask mask_eq_exp_minus_1)
  have b: "unat (word_of_nat d :: u64) = d" using assms by (simp add: unat_of_nat)
  show ?thesis unfolding a word_less_nat_alt word_unat_eq_iff b using assms by auto
qed

lemma digit_value_less: "is_digit c \<Longrightarrow> digit_value c < 10"
  by (auto simp: is_digit_def digit_value_def)

lemma consume_digits_value:
  assumes "\<forall>c \<in> set ds. is_digit c" "digits_from (unat v) ds < 2 ^ 64" "r = [] \<or> \<not> is_digit (hd r)"
  shows "consume_digits v k (ds @ r) = Some (word_of_nat (digits_from (unat v) ds), k + length ds, r)"
  using assms(1,2)
proof (induction ds arbitrary: v k)
  case Nil
  then show ?case using assms(3) by (cases r) auto
next
  case (Cons c ds)
  let ?d = "digit_value c"
  have d: "?d < 10" using Cons.prems(1) by (simp add: digit_value_less)
  have fits: "unat v * 10 + ?d < 2 ^ 64"
    using Cons.prems(2) digits_from_ge [of "unat v * 10 + ?d" ds] by simp
  have next_v: "unat (v * 10 + word_of_nat ?d) = unat v * 10 + ?d"
    using fits by (simp add: unat_word_ariths unat_of_nat)
  have "consume_digits v k ((c # ds) @ r) = consume_digits (v * 10 + word_of_nat ?d) (k + 1) (ds @ r)"
    unfolding append_Cons consume_digits.simps Let_def overflow_test [OF d] using Cons.prems(1) fits by simp
  then show ?case using Cons.IH [of "v * 10 + word_of_nat ?d" "k + 1"] Cons.prems next_v by simp
qed

lemma ConsumeDecimalNumber_digits:
  assumes "\<forall>c \<in> set ds. is_digit c" "digits_from 0 ds = unat n" "ds \<noteq> []" "r = [] \<or> \<not> is_digit (hd r)"
  shows "ConsumeDecimalNumber (ds @ r) = Some (n, r)"
proof -
  have "digits_from (unat (0 :: u64)) ds < 2 ^ 64" using assms(2) unsigned_less [of n] by simp
  from consume_digits_value [OF assms(1) this assms(4), of 0]
  have "consume_digits 0 0 (ds @ r) = Some (n, length ds, r)" by (simp add: assms(2))
  then show ?thesis using assms(3) by (simp add: ConsumeDecimalNumber_def)
qed

lemma ConsumeDecimalNumber_pad06:
  "r = [] \<or> \<not> is_digit (hd r) \<Longrightarrow> ConsumeDecimalNumber (pad06 (unat n) @ r) = Some (n, r)"
  by (rule ConsumeDecimalNumber_digits [OF pad06_digits])

lemma ConsumeDecimalNumber_decimal:
  "r = [] \<or> \<not> is_digit (hd r) \<Longrightarrow> ConsumeDecimalNumber (decimal (unat n) @ r) = Some (n, r)"
  by (rule ConsumeDecimalNumber_digits [OF decimal_digits digits_from_decimal decimal_nonempty])

lemmas Consume_printed [simp] =
  ConsumeDecimalNumber_pad06 ConsumeDecimalNumber_pad06 [of "[]", simplified]
  ConsumeDecimalNumber_decimal ConsumeDecimalNumber_decimal [of "[]", simplified]

section \<open>Names that were made are parsed\<close>

lemma length_decimal: "n < 10 ^ Suc k \<Longrightarrow> length (decimal n) \<le> Suc k"
proof (induction k arbitrary: n)
  case 0
  then show ?case by (subst decimal.simps) simp
next
  case (Suc k)
  have "n div 10 < 10 ^ Suc k" using Suc.prems by (simp add: div_less_iff_less_mult mult.commute)
  then show ?case using Suc.IH [of "n div 10"] by (subst decimal.simps) simp
qed

lemma length_printed: "length (decimal (unat (n :: u64))) \<le> 20" "length (pad06 (unat (n :: u64))) \<le> 20"
proof -
  have "unat n < 10 ^ Suc 19" using unsigned_less [of n] by (rule order.strict_trans) simp
  then show "length (decimal (unat n)) \<le> 20" using length_decimal [of "unat n" 19] by simp
  then show "length (pad06 (unat n)) \<le> 20" by (simp add: pad06_def)
qed

lemma snprintf_buf_id: "length s < n \<Longrightarrow> snprintf_buf n s = s"
  by (simp add: snprintf_buf_def)

lemma MakeFileName_eq:
  "length suf \<le> 10 \<Longrightarrow> MakeFileName name number suf = name @ ''/'' @ pad06 (unat number) @ ''.'' @ suf"
  using length_printed(2) [of number] by (simp add: MakeFileName_def snprintf_buf_id)

lemma starts_with_Cons [simp]:
  "starts_with s []" "\<not> starts_with [] (q # qs)" "starts_with (c # s) (q # qs) \<longleftrightarrow> c = q \<and> starts_with s qs"
  by (auto simp: starts_with_def)

lemma ends_with_append [simp]: "ends_with (s @ p) p"
  by (simp add: ends_with_def)

lemma not_digits [simp]:
  "\<not> is_digit CHR ''I''" "\<not> is_digit CHR ''C''" "\<not> is_digit CHR ''L''" "\<not> is_digit CHR ''M''"
  "\<not> is_digit CHR ''O''" "\<not> is_digit CHR ''a''" "\<not> is_digit CHR ''.''" "\<not> is_digit CHR ''/''"
  by (simp_all add: is_digit_def)

lemma pad06_Cons:
  obtains c cs where "pad06 n = c # cs" "is_digit c"
  using pad06_digits [of n] by (cases "pad06 n") auto

lemma digit_neq: "is_digit c \<Longrightarrow> \<not> is_digit d \<Longrightarrow> c \<noteq> d" by auto

text \<open>A name that begins with a digit is a numbered file.\<close>

lemma parse_digit:
  assumes "is_digit c"
  shows "ParseFileName (CHR ''/'' # c # s) res = parse_numbered (c # s) res"
proof -
  have "c \<noteq> CHR ''I''" "c \<noteq> CHR ''C''" "c \<noteq> CHR ''L''" "c \<noteq> CHR ''M''" "c \<noteq> CHR ''O''"
    using assms by (auto intro: digit_neq)
  then show ?thesis by (simp add: ParseFileName_def ParseFileName_prefix_def name_parts)
qed

lemma parse_numbered_plain:
  assumes "length suf \<ge> 1"
  shows "parse_numbered (pad06 (unat n) @ CHR ''.'' # suf) res =
    (if suf = ''log'' then (True, res\<lparr>p_type := kLogFile, p_log_type := kAliveLogFile, p_number := n\<rparr>)
     else if suf = ''sst'' \<or> suf = ''ldb'' then (True, res\<lparr>p_type := kTableFile, p_number := n\<rparr>)
     else if suf = ''blob'' then (True, res\<lparr>p_type := kBlobFile, p_number := n\<rparr>)
     else if suf = ''dbtmp'' then (True, res\<lparr>p_type := kTempFile, p_number := n\<rparr>)
     else (False, res))"
proof -
  obtain c cs where c: "pad06 (unat n) = c # cs" "is_digit c" by (rule pad06_Cons)
  then have "\<not> starts_with (pad06 (unat n) @ CHR ''.'' # suf) ARCHIVAL_DIR" by (auto simp: name_parts)
  then show ?thesis using assms by (simp add: parse_numbered_def name_parts)
qed

lemma parse_made_name:
  "ParseFileName (CHR ''/'' # pad06 (unat n) @ CHR ''.'' # suf) res = parse_numbered (pad06 (unat n) @ CHR ''.'' # suf) res"
  using pad06_Cons [of "unat n"] parse_digit by (metis append_Cons)

lemma digits_not_dotted: "\<forall>c \<in> set s. is_digit c \<Longrightarrow> \<not> ends_with s (CHR ''.'' # p)"
  by (auto simp: ends_with_def) (metis in_set_dropD list.set_intros(1) not_digits(7))

lemma roundtrip_archived:
  "ParseFileName (CHR ''/'' # ARCHIVAL_DIR @ CHR ''/'' # pad06 (unat n) @ ''.log'') res
     = (True, res\<lparr>p_type := kLogFile, p_log_type := kArchivedLogFile, p_number := n\<rparr>)"
  by (cases res) (simp add: ParseFileName_def ParseFileName_prefix_def parse_numbered_def name_parts)

lemma roundtrip_manifest:
  "ParseFileName (''/MANIFEST-'' @ pad06 (unat n)) res = (True, res\<lparr>p_type := kDescriptorFile, p_number := n\<rparr>)"
  by (cases res) (simp add: ParseFileName_def ParseFileName_prefix_def parse_only_number_def)

lemma roundtrip_meta:
  "ParseFileName (''/METADB-'' @ decimal (unat n)) res = (True, res\<lparr>p_type := kMetaDatabase, p_number := n\<rparr>)"
  by (cases res) (simp add: ParseFileName_def ParseFileName_prefix_def parse_only_number_def)

lemma roundtrip_options:
  "ParseFileName (CHR ''/'' # kOptionsFileNamePrefix @ pad06 (unat n)) res = (True, res\<lparr>p_type := kOptionsFile, p_number := n\<rparr>)"
  using digits_not_dotted [OF pad06_digits(1), of "unat n"]
  by (cases res) (simp add: ParseFileName_def ParseFileName_prefix_def parse_options_def name_parts Let_def)

lemma roundtrip_temp_options:
  "ParseFileName (CHR ''/'' # kOptionsFileNamePrefix @ pad06 (unat n) @ CHR ''.'' # kTempFileNameSuffix) res
     = (True, res\<lparr>p_type := kTempFile, p_number := n\<rparr>)"
  by (cases res) (simp add: ParseFileName_def ParseFileName_prefix_def parse_options_def name_parts Let_def)

lemma long_names:
  "DescriptorFileName db n = db @ ''/MANIFEST-'' @ pad06 (unat n)"
  "MetaDatabaseName db n = db @ ''/METADB-'' @ decimal (unat n)"
  "OptionsFileName db n = db @ CHR ''/'' # kOptionsFileNamePrefix @ pad06 (unat n)"
  "TempOptionsFileName db n = db @ CHR ''/'' # kOptionsFileNamePrefix @ pad06 (unat n) @ CHR ''.'' # kTempFileNameSuffix"
  using length_printed [of n]
  by (simp_all add: DescriptorFileName_def MetaDatabaseName_def OptionsFileName_def TempOptionsFileName_def
      snprintf_buf_id name_parts)

lemma made_names:
  "LogFileName db n = db @ CHR ''/'' # pad06 (unat n) @ ''.log''"
  "ArchivedLogFileName db n = db @ CHR ''/'' # ARCHIVAL_DIR @ CHR ''/'' # pad06 (unat n) @ ''.log''"
  "MakeTableFileName db n = db @ CHR ''/'' # pad06 (unat n) @ ''.sst''"
  "BlobFileName db n = db @ CHR ''/'' # pad06 (unat n) @ ''.blob''"
  "TempFileName db n = db @ CHR ''/'' # pad06 (unat n) @ ''.dbtmp''"
  by (simp_all add: LogFileName_def ArchivedLogFileName_def MakeTableFileName_def BlobFileName_def TempFileName_def
      MakeFileName_eq name_parts)

lemma fixed_names:
  "ParseFileName ''/CURRENT'' res = (True, res\<lparr>p_type := kCurrentFile, p_number := 0\<rparr>)"
  "ParseFileName ''/LOCK'' res = (True, res\<lparr>p_type := kDBLockFile, p_number := 0\<rparr>)"
  "ParseFileName ''/IDENTITY'' res = (True, res\<lparr>p_type := kIdentityFile, p_number := 0\<rparr>)"
  by (cases res; simp add: ParseFileName_def ParseFileName_prefix_def)+

text \<open>The directory of the info log.\<close>

definition info_log_dir :: "string \<Rightarrow> string \<Rightarrow> string" where
  "info_log_dir db dir = (if dir = [] then db else dir)"

lemma InfoLogPrefix_ends: "\<exists>p. InfoLogPrefix b path = p @ ''LOG''"
  by (auto simp: InfoLogPrefix_def GetInfoLogPrefix_def)

lemma snprintf_number: "snprintf_buf 50 (decimal (unat (n :: u64))) = decimal (unat n)"
  using length_printed(1) [of n] by (simp add: snprintf_buf_def)

lemma info_log_names: "InfoLogFileName db path dir = info_log_dir db dir @ ''/'' @ InfoLogPrefix (dir \<noteq> []) path"
  by (simp add: InfoLogFileName_def info_log_dir_def InfoLogPrefix_def)

lemma old_info_log_names:
  "OldInfoLogFileName db n path dir =
    info_log_dir db dir @ ''/'' @ InfoLogPrefix (dir \<noteq> []) path @ ''.old.'' @ decimal (unat n)"
  by (simp add: OldInfoLogFileName_def info_log_dir_def InfoLogPrefix_def snprintf_number Let_def)

text \<open>A name that ends neither like \<^verbatim>\<open>IDENTITY\<close> nor like \<^verbatim>\<open>CURRENT\<close> or \<^verbatim>\<open>LOCK\<close> and starts with the prefix.\<close>

lemma parse_prefixed:
  assumes "p \<noteq> []" "last (p @ rest) \<notin> {CHR ''Y'', CHR ''T'', CHR ''K''}"
  shows "ParseFileName_prefix (''/'' @ p @ rest) p res = parse_info_log rest res"
proof -
  have "p @ rest \<noteq> ''IDENTITY''" "p @ rest \<noteq> ''CURRENT''" "p @ rest \<noteq> ''LOCK''" using assms(2) by auto
  then show ?thesis using assms(1) by (simp add: ParseFileName_prefix_def starts_with_def Let_def)
qed

lemma roundtrip_info_log:
  "ParseFileName_prefix (CHR ''/'' # InfoLogPrefix b path) (InfoLogPrefix b path) res = (True, res\<lparr>p_type := kInfoLogFile, p_number := 0\<rparr>)"
proof -
  obtain p where p: "InfoLogPrefix b path = p @ ''LOG''" using InfoLogPrefix_ends by blast
  show ?thesis using parse_prefixed [of "p @ ''LOG''" "[]" res] by (cases res) (simp add: p parse_info_log_def)
qed

lemma roundtrip_old_info_log:
  "ParseFileName_prefix (CHR ''/'' # InfoLogPrefix b path @ CHR ''.'' # CHR ''o'' # CHR ''l'' # CHR ''d'' # CHR ''.'' # decimal (unat n))
      (InfoLogPrefix b path) res = (True, res\<lparr>p_type := kInfoLogFile, p_number := n\<rparr>)"
proof -
  obtain p where p: "InfoLogPrefix b path = p @ ''LOG''" using InfoLogPrefix_ends by blast
  have "is_digit (last (decimal (unat n)))" using decimal_digits [of "unat n"] by simp
  then have l: "last (decimal (unat n)) \<notin> {CHR ''Y'', CHR ''T'', CHR ''K''}" by (auto simp: is_digit_def)
  have c: "ConsumeDecimalNumber (decimal (unat n)) = Some (n, [])"
    using ConsumeDecimalNumber_decimal [of "[]" n] by simp
  show ?thesis
    using parse_prefixed [of "p @ ''LOG''" "''.old.'' @ decimal (unat n)" res] l
    by (cases res) (simp add: p parse_info_log_def starts_with_def c)
qed

text \<open>
  C30: The name of a file of every kind is parsed back to its kind and its number, for every 64-bit number; an
  archived log file is told from a live one. The info log, current or old, is parsed back when the parser is given
  its prefix, as the program does, with and without a directory of its own; the number of an old one is its time
  stamp.
\<close>

theorem file_names_roundtrip:
  "ParseFileName (drop (length db) (LogFileName db n)) res
     = (True, res\<lparr>p_type := kLogFile, p_log_type := kAliveLogFile, p_number := n\<rparr>) \<and>
   ParseFileName (drop (length db) (ArchivedLogFileName db n)) res
     = (True, res\<lparr>p_type := kLogFile, p_log_type := kArchivedLogFile, p_number := n\<rparr>) \<and>
   ParseFileName (drop (length db) (MakeTableFileName db n)) res = (True, res\<lparr>p_type := kTableFile, p_number := n\<rparr>) \<and>
   ParseFileName (drop (length db) (BlobFileName db n)) res = (True, res\<lparr>p_type := kBlobFile, p_number := n\<rparr>) \<and>
   ParseFileName (drop (length db) (TempFileName db n)) res = (True, res\<lparr>p_type := kTempFile, p_number := n\<rparr>) \<and>
   ParseFileName (drop (length db) (DescriptorFileName db n)) res = (True, res\<lparr>p_type := kDescriptorFile, p_number := n\<rparr>) \<and>
   ParseFileName (drop (length db) (MetaDatabaseName db n)) res = (True, res\<lparr>p_type := kMetaDatabase, p_number := n\<rparr>) \<and>
   ParseFileName (drop (length db) (OptionsFileName db n)) res = (True, res\<lparr>p_type := kOptionsFile, p_number := n\<rparr>) \<and>
   ParseFileName (drop (length db) (TempOptionsFileName db n)) res = (True, res\<lparr>p_type := kTempFile, p_number := n\<rparr>) \<and>
   ParseFileName (drop (length db) (CurrentFileName db)) res = (True, res\<lparr>p_type := kCurrentFile, p_number := 0\<rparr>) \<and>
   ParseFileName (drop (length db) (LockFileName db)) res = (True, res\<lparr>p_type := kDBLockFile, p_number := 0\<rparr>) \<and>
   ParseFileName (drop (length db) (IdentityFileName db)) res = (True, res\<lparr>p_type := kIdentityFile, p_number := 0\<rparr>) \<and>
   ParseFileName_prefix (drop (length (info_log_dir db dir)) (InfoLogFileName db path dir)) (InfoLogPrefix (dir \<noteq> []) path) res
     = (True, res\<lparr>p_type := kInfoLogFile, p_number := 0\<rparr>) \<and>
   ParseFileName_prefix (drop (length (info_log_dir db dir)) (OldInfoLogFileName db n path dir)) (InfoLogPrefix (dir \<noteq> []) path) res
     = (True, res\<lparr>p_type := kInfoLogFile, p_number := n\<rparr>)"
  unfolding info_log_names old_info_log_names made_names long_names CurrentFileName_def LockFileName_def IdentityFileName_def
  by (simp add: parse_made_name parse_numbered_plain roundtrip_archived roundtrip_manifest [simplified]
      roundtrip_meta [simplified] roundtrip_options roundtrip_temp_options fixed_names roundtrip_info_log
      roundtrip_old_info_log)

lemma table_number_loop_digits:
  assumes "\<forall>c \<in> set ds. is_digit c" "\<not> is_digit d"
  shows "table_number_loop number base (rev ds @ d # r) = number + base * word_of_nat (digits_from 0 ds)"
  using assms(1)
proof (induction ds arbitrary: number base rule: rev_induct)
  case Nil
  then show ?case using assms(2) by simp
next
  case (snoc c ds)
  then show ?case by (simp add: algebra_simps)
qed

text \<open>
  The number of a table file is recovered from its full path, whatever the directory.
\<close>

theorem table_number_roundtrip:
  "TableFileNameToNumber (MakeTableFileName path n) = n"
proof -
  have "TableFileNameToNumber (MakeTableFileName path n)
    = table_number_loop 0 1 (rev (pad06 (unat n)) @ CHR ''/'' # rev path)"
    by (simp add: TableFileNameToNumber_def made_names)
  also have "\<dots> = 0 + 1 * word_of_nat (digits_from 0 (pad06 (unat n)))"
    by (rule table_number_loop_digits [OF pad06_digits(1)]) simp
  finally show ?thesis by (simp add: pad06_digits(2))
qed

text \<open>
  A name that goes on behind the prefix of the info log with anything but one of its known
  endings is accepted, and neither the number nor the kind of the file is assigned.
\<close>

theorem info_log_name_unassigned:
  assumes "pre \<noteq> []" "ending \<notin> {[], ''.old''}" "\<not> starts_with ending ''.old.''"
    and "hd pre \<noteq> CHR ''/''" "pre @ ending \<notin> {''IDENTITY'', ''CURRENT'', ''LOCK''}"
  shows "ParseFileName_prefix (pre @ ending) pre res = (True, res)"
proof -
  have "starts_with (pre @ ending) pre" by (simp add: starts_with_def)
  moreover have "hd (pre @ ending) \<noteq> CHR ''/''" using assms(1,4) by simp
  ultimately show ?thesis using assms by (simp add: ParseFileName_prefix_def parse_info_log_def)
qed

theorem info_log_name_unassigned_witness:
  "ParseFileName_prefix ''LOGS.txt'' ''LOG'' \<lparr>p_number = 77, p_type = kTableFile, p_log_type = kAliveLogFile\<rparr>
    = (True, \<lparr>p_number = 77, p_type = kTableFile, p_log_type = kAliveLogFile\<rparr>)"
  using info_log_name_unassigned [of "''LOG''" "''S.txt''"] by simp

text \<open>Behind the number of an options file anything is accepted, and any character behind the archive's name.\<close>

lemma options_trailing_accepted:
  "ParseFileName ''OPTIONS-000005.bak'' res = (True, res\<lparr>p_type := kOptionsFile, p_number := 5\<rparr>)"
proof -
  have "ConsumeDecimalNumber ''000005.bak'' = Some (5, ''.bak'')" by code_simp
  then show ?thesis
    by (cases res) (simp add: ParseFileName_def ParseFileName_prefix_def parse_options_def name_parts Let_def ends_with_def)
qed

end
