(* ===== verification/DbFormat.thy ===== *)
theory DbFormat
  imports WriteBatch
begin

text \<open>
  Keys: the order of byte strings (\<^verbatim>\<open>Slice::compare\<close>), the comparators of
  \<^verbatim>\<open>util/comparator.cc\<close> and the internal keys of \<^verbatim>\<open>db/dbformat.h\<close> and \<^verbatim>\<open>db/dbformat.cc\<close>: a user
  key followed by eight bytes that hold a sequence number and a value type. The locale \<open>comparator\<close> is
  the contract documented in \<^verbatim>\<open>include/rocksdb/comparator.h\<close>. The tags of value types are those of
  \<open>WriteBatch\<close>.
\<close>

section \<open>Comparing slices\<close>

text \<open>\<^verbatim>\<open>memcmp\<close> compares unsigned bytes; its result is taken to be -1, 0 or 1.\<close>

fun slice_compare :: "slice \<Rightarrow> slice \<Rightarrow> int" where
  "slice_compare [] [] = 0"
| "slice_compare [] (b # bs) = - 1"
| "slice_compare (a # as) [] = 1"
| "slice_compare (a # as) (b # bs) = (if a < b then - 1 else if a > b then 1 else slice_compare as bs)"

fun difference_offset :: "slice \<Rightarrow> slice \<Rightarrow> nat" where
  "difference_offset (a # as) (b # bs) = (if a = b then difference_offset as bs + 1 else 0)"
| "difference_offset _ _ = 0"

section \<open>Comparators\<close>

text \<open>The virtual functions of a \<^verbatim>\<open>Comparator\<close>; the ones that change their argument return it.\<close>

record Comparator =
  cmp_Compare :: "slice \<Rightarrow> slice \<Rightarrow> int"
  cmp_Equal :: "slice \<Rightarrow> slice \<Rightarrow> bool"
  cmp_FindShortestSeparator :: "slice \<Rightarrow> slice \<Rightarrow> slice"
  cmp_FindShortSuccessor :: "slice \<Rightarrow> slice"
  cmp_IsSameLengthImmediateSuccessor :: "slice \<Rightarrow> slice \<Rightarrow> bool"

text \<open>
  The first byte from index \<open>i\<close> on that is not 255 is incremented and the rest cut off; a run of 255 is
  left alone.
\<close>

function bump_loop :: "slice \<Rightarrow> nat \<Rightarrow> slice" where
  "bump_loop s i =
    (if i < length s then
       if s ! i < 0xff then take (i + 1) (s[i := s ! i + 1]) else bump_loop s (i + 1)
     else s)"
  by pat_completeness auto
termination by (relation "measure (\<lambda>(s, i). length s - i)") auto

declare bump_loop.simps [simp del]

definition Bytewise_FindShortestSeparator :: "slice \<Rightarrow> slice \<Rightarrow> slice" where
  "Bytewise_FindShortestSeparator start limit =
    (let min_length = min (length start) (length limit);
         diff_index = difference_offset start limit
     in if diff_index \<ge> min_length then start
        else
          let start_byte = start ! diff_index; limit_byte = limit ! diff_index
          in if start_byte \<ge> limit_byte then start
             else if diff_index < length limit - 1 \<or> unat start_byte + 1 < unat limit_byte
             then take (diff_index + 1) (start[diff_index := start ! diff_index + 1])
             else bump_loop start (diff_index + 1))"

definition Bytewise_FindShortSuccessor :: "slice \<Rightarrow> slice" where
  "Bytewise_FindShortSuccessor key = bump_loop key 0"

function successor_loop :: "slice \<Rightarrow> slice \<Rightarrow> nat \<Rightarrow> bool" where
  "successor_loop s t i =
    (if i < length s then if s ! i \<noteq> 0xff \<or> t ! i \<noteq> 0x00 then False else successor_loop s t (i + 1)
     else True)"
  by pat_completeness auto
termination by (relation "measure (\<lambda>(s, t, i). length s - i)") auto

declare successor_loop.simps [simp del]

definition Bytewise_IsSameLengthImmediateSuccessor :: "slice \<Rightarrow> slice \<Rightarrow> bool" where
  "Bytewise_IsSameLengthImmediateSuccessor s t =
    (if length s \<noteq> length t \<or> length s = 0 then False
     else
       let diff_ind = difference_offset s t
       in if diff_ind \<ge> length s then False
          else
            let byte_s = s ! diff_ind; byte_t = t ! diff_ind
            in if byte_s \<noteq> 0xff \<and> unat byte_s + 1 = unat byte_t then successor_loop s t (diff_ind + 1)
               else False)"

definition BytewiseComparator :: Comparator where
  "BytewiseComparator = \<lparr>
    cmp_Compare = slice_compare,
    cmp_Equal = (=),
    cmp_FindShortestSeparator = Bytewise_FindShortestSeparator,
    cmp_FindShortSuccessor = Bytewise_FindShortSuccessor,
    cmp_IsSameLengthImmediateSuccessor = Bytewise_IsSameLengthImmediateSuccessor\<rparr>"

definition Reverse_FindShortestSeparator :: "slice \<Rightarrow> slice \<Rightarrow> slice" where
  "Reverse_FindShortestSeparator start limit =
    (let min_length = min (length start) (length limit);
         diff_index = difference_offset start limit
     in if diff_index = min_length then start
        else
          let start_byte = start ! diff_index; limit_byte = limit ! diff_index
          in if start_byte > limit_byte \<and> diff_index < length start - 1
             then take (diff_index + 1) start else start)"

text \<open>\<^verbatim>\<open>ReverseBytewiseComparatorImpl\<close> inherits what it does not override.\<close>

definition ReverseBytewiseComparator :: Comparator where
  "ReverseBytewiseComparator = BytewiseComparator\<lparr>
    cmp_Compare := \<lambda>a b. - slice_compare a b,
    cmp_FindShortestSeparator := Reverse_FindShortestSeparator,
    cmp_FindShortSuccessor := \<lambda>key. key\<rparr>"

section \<open>Internal keys\<close>

definition kMaxSequenceNumber :: u64 where
  "kMaxSequenceNumber = push_bit 56 1 - 1"

definition kValueTypeForSeek :: byte where
  "kValueTypeForSeek = kTypeBlobIndex"

definition kValueTypeForSeekForPrev :: byte where
  "kValueTypeForSeekForPrev = kTypeDeletion"

definition IsValueType :: "byte \<Rightarrow> bool" where
  "IsValueType t \<longleftrightarrow> t \<le> kTypeMerge \<or> t = kTypeSingleDeletion \<or> t = kTypeBlobIndex"

definition IsExtendedValueType :: "byte \<Rightarrow> bool" where
  "IsExtendedValueType t \<longleftrightarrow> IsValueType t \<or> t = kTypeRangeDeletion"

record ParsedInternalKey =
  user_key :: slice
  sequence :: u64
  vtype :: byte

definition ParsedInternalKey_clear :: ParsedInternalKey where
  "ParsedInternalKey_clear = \<lparr>user_key = [], sequence = 0, vtype = kTypeDeletion\<rparr>"

definition InternalKeyEncodingLength :: "ParsedInternalKey \<Rightarrow> nat" where
  "InternalKeyEncodingLength key = length (user_key key) + 8"

definition PackSequenceAndType :: "u64 \<Rightarrow> byte \<Rightarrow> u64" where
  "PackSequenceAndType seq t = push_bit 8 seq OR ucast t"

definition UnPackSequenceAndType :: "u64 \<Rightarrow> u64 \<times> byte" where
  "UnPackSequenceAndType packed = (drop_bit 8 packed, ucast (packed AND 0xff))"

datatype EntryType = kEntryPut | kEntryDelete | kEntrySingleDelete | kEntryMerge | kEntryRangeDeletion
  | kEntryBlobIndex | kEntryOther

definition GetEntryType :: "byte \<Rightarrow> EntryType" where
  "GetEntryType t =
    (if t = kTypeValue then kEntryPut
     else if t = kTypeDeletion then kEntryDelete
     else if t = kTypeSingleDeletion then kEntrySingleDelete
     else if t = kTypeMerge then kEntryMerge
     else if t = kTypeRangeDeletion then kEntryRangeDeletion
     else if t = kTypeBlobIndex then kEntryBlobIndex
     else kEntryOther)"

definition AppendInternalKey :: "bytes \<Rightarrow> ParsedInternalKey \<Rightarrow> bytes" where
  "AppendInternalKey result key =
    PutFixed64 (result @ user_key key) (PackSequenceAndType (sequence key) (vtype key))"

definition AppendInternalKeyFooter :: "bytes \<Rightarrow> u64 \<Rightarrow> byte \<Rightarrow> bytes" where
  "AppendInternalKeyFooter result s t = PutFixed64 result (PackSequenceAndType s t)"

definition ExtractUserKey :: "slice \<Rightarrow> slice" where
  "ExtractUserKey internal_key = take (length internal_key - 8) internal_key"

definition ExtractInternalKeyFooter :: "slice \<Rightarrow> u64" where
  "ExtractInternalKeyFooter internal_key = DecodeFixed64 (drop (length internal_key - 8) internal_key)"

definition ExtractValueType :: "slice \<Rightarrow> byte" where
  "ExtractValueType internal_key = ucast (ExtractInternalKeyFooter internal_key AND 0xff)"

definition ParseInternalKey :: "slice \<Rightarrow> ParsedInternalKey option" where
  "ParseInternalKey internal_key =
    (let n = length internal_key
     in if n < 8 then None
        else
          let num = DecodeFixed64 (drop (n - 8) internal_key);
              result = \<lparr>user_key = take (n - 8) internal_key, sequence = drop_bit 8 num,
                        vtype = ucast (num AND 0xff)\<rparr>
          in if IsExtendedValueType (vtype result) then Some result else None)"

definition ParseFullKey :: "slice \<Rightarrow> (slice \<times> u64 \<times> EntryType) option" where
  "ParseFullKey internal_key =
    (case ParseInternalKey internal_key of
       None \<Rightarrow> None
     | Some ikey \<Rightarrow> Some (user_key ikey, sequence ikey, GetEntryType (vtype ikey)))"

definition UpdateInternalKey :: "bytes \<Rightarrow> u64 \<Rightarrow> byte \<Rightarrow> bytes" where
  "UpdateInternalKey ikey seq t = take (length ikey - 8) ikey @ EncodeFixed64 (push_bit 8 seq OR ucast t)"

definition GetInternalKeySeqno :: "slice \<Rightarrow> u64" where
  "GetInternalKeySeqno internal_key = drop_bit 8 (DecodeFixed64 (drop (length internal_key - 8) internal_key))"

text \<open>The class \<^verbatim>\<open>InternalKey\<close>: its state is the byte string \<^verbatim>\<open>rep_\<close>.\<close>

definition InternalKey :: "slice \<Rightarrow> u64 \<Rightarrow> byte \<Rightarrow> bytes" where
  "InternalKey ukey s t = AppendInternalKey [] \<lparr>user_key = ukey, sequence = s, vtype = t\<rparr>"

definition SetMaxPossibleForUserKey :: "bytes \<Rightarrow> slice \<Rightarrow> bytes" where
  "SetMaxPossibleForUserKey r ukey = AppendInternalKey r \<lparr>user_key = ukey, sequence = 0, vtype = 0\<rparr>"

definition SetMinPossibleForUserKey :: "bytes \<Rightarrow> slice \<Rightarrow> bytes" where
  "SetMinPossibleForUserKey r ukey =
    AppendInternalKey r \<lparr>user_key = ukey, sequence = kMaxSequenceNumber, vtype = kValueTypeForSeek\<rparr>"

definition InternalKey_Valid :: "bytes \<Rightarrow> bool" where
  "InternalKey_Valid r \<longleftrightarrow> ParseInternalKey r \<noteq> None"

definition InternalKey_SetFrom :: "ParsedInternalKey \<Rightarrow> bytes" where
  "InternalKey_SetFrom p = AppendInternalKey [] p"

definition ConvertFromUserKey :: "bytes \<Rightarrow> u64 \<Rightarrow> byte \<Rightarrow> bytes" where
  "ConvertFromUserKey r s t = AppendInternalKeyFooter r s t"

section \<open>The order of internal keys\<close>

definition IKC_Compare :: "Comparator \<Rightarrow> slice \<Rightarrow> slice \<Rightarrow> int" where
  "IKC_Compare c akey bkey =
    (let r = cmp_Compare c (ExtractUserKey akey) (ExtractUserKey bkey)
     in if r = 0 then
          let anum = DecodeFixed64 (drop (length akey - 8) akey);
              bnum = DecodeFixed64 (drop (length bkey - 8) bkey)
          in if anum > bnum then - 1 else if anum < bnum then 1 else r
        else r)"

definition IKC_CompareKeySeq :: "Comparator \<Rightarrow> slice \<Rightarrow> slice \<Rightarrow> int" where
  "IKC_CompareKeySeq c akey bkey =
    (let r = cmp_Compare c (ExtractUserKey akey) (ExtractUserKey bkey)
     in if r = 0 then
          let anum = drop_bit 8 (DecodeFixed64 (drop (length akey - 8) akey));
              bnum = drop_bit 8 (DecodeFixed64 (drop (length bkey - 8) bkey))
          in if anum > bnum then - 1 else if anum < bnum then 1 else r
        else r)"

definition IKC_CompareParsed :: "Comparator \<Rightarrow> ParsedInternalKey \<Rightarrow> ParsedInternalKey \<Rightarrow> int" where
  "IKC_CompareParsed c a b =
    (let r = cmp_Compare c (user_key a) (user_key b)
     in if r = 0 then
          if sequence a > sequence b then - 1
          else if sequence a < sequence b then 1
          else if vtype a > vtype b then - 1
          else if vtype a < vtype b then 1
          else r
        else r)"

definition IKC_FindShortestSeparator :: "Comparator \<Rightarrow> slice \<Rightarrow> slice \<Rightarrow> slice" where
  "IKC_FindShortestSeparator c start limit =
    (let user_start = ExtractUserKey start;
         user_limit = ExtractUserKey limit;
         tmp = cmp_FindShortestSeparator c user_start user_limit
     in if length tmp \<le> length user_start \<and> cmp_Compare c user_start tmp < 0
        then PutFixed64 tmp (PackSequenceAndType kMaxSequenceNumber kValueTypeForSeek)
        else start)"

definition IKC_FindShortSuccessor :: "Comparator \<Rightarrow> slice \<Rightarrow> slice" where
  "IKC_FindShortSuccessor c key =
    (let ukey = ExtractUserKey key;
         tmp = cmp_FindShortSuccessor c ukey
     in if length tmp \<le> length ukey \<and> cmp_Compare c ukey tmp < 0
        then PutFixed64 tmp (PackSequenceAndType kMaxSequenceNumber kValueTypeForSeek)
        else key)"

definition InternalKeyComparator :: "Comparator \<Rightarrow> Comparator" where
  "InternalKeyComparator c = \<lparr>
    cmp_Compare = IKC_Compare c,
    cmp_Equal = \<lambda>a b. IKC_Compare c a b = 0,
    cmp_FindShortestSeparator = IKC_FindShortestSeparator c,
    cmp_FindShortSuccessor = IKC_FindShortSuccessor c,
    cmp_IsSameLengthImmediateSuccessor = \<lambda>s t. False\<rparr>"

section \<open>\<^verbatim>\<open>LookupKey\<close> and \<^verbatim>\<open>RangeTombstone\<close>\<close>

record LookupKey =
  lk_space :: bytes
  lk_kstart :: nat

definition LookupKey_new :: "slice \<Rightarrow> u64 \<Rightarrow> LookupKey" where
  "LookupKey_new ukey s =
    (let len = EncodeVarint32 (word_of_nat (length ukey + 8))
     in \<lparr>lk_space = len @ ukey @ EncodeFixed64 (PackSequenceAndType s kValueTypeForSeek),
         lk_kstart = length len\<rparr>)"

definition lk_memtable_key :: "LookupKey \<Rightarrow> slice" where
  "lk_memtable_key k = lk_space k"

definition lk_internal_key :: "LookupKey \<Rightarrow> slice" where
  "lk_internal_key k = drop (lk_kstart k) (lk_space k)"

definition lk_user_key :: "LookupKey \<Rightarrow> slice" where
  "lk_user_key k = take (length (lk_space k) - lk_kstart k - 8) (drop (lk_kstart k) (lk_space k))"

record RangeTombstone =
  rt_start_key :: slice
  rt_end_key :: slice
  rt_seq :: u64

definition RangeTombstone_of :: "ParsedInternalKey \<Rightarrow> slice \<Rightarrow> RangeTombstone" where
  "RangeTombstone_of parsed_key v =
    \<lparr>rt_start_key = user_key parsed_key, rt_end_key = v, rt_seq = sequence parsed_key\<rparr>"

definition rt_SerializeKey :: "RangeTombstone \<Rightarrow> bytes" where
  "rt_SerializeKey t = InternalKey (rt_start_key t) (rt_seq t) kTypeRangeDeletion"

definition rt_Serialize :: "RangeTombstone \<Rightarrow> bytes \<times> slice" where
  "rt_Serialize t = (InternalKey (rt_start_key t) (rt_seq t) kTypeRangeDeletion, rt_end_key t)"

definition rt_SerializeEndKey :: "RangeTombstone \<Rightarrow> bytes" where
  "rt_SerializeEndKey t = InternalKey (rt_end_key t) kMaxSequenceNumber kTypeRangeDeletion"

section \<open>The order of byte strings\<close>

lemma slice_compare_refl [simp]: "slice_compare a a = 0"
  by (induction a) auto

lemma slice_compare_eq: "slice_compare a b = 0 \<longleftrightarrow> a = b"
  by (induction a b rule: slice_compare.induct) auto

lemma slice_compare_swap: "slice_compare b a = - slice_compare a b"
  by (induction a b rule: slice_compare.induct) auto

lemma slice_compare_trans: "slice_compare a b \<le> 0 \<Longrightarrow> slice_compare b c \<le> 0 \<Longrightarrow> slice_compare a c \<le> 0"
proof (induction a b arbitrary: c rule: slice_compare.induct)
  case (2 b bs)
  then show ?case by (cases c) auto
next
  case (4 a as b bs)
  then show ?case by (cases c) (auto split: if_splits)
qed (auto)

lemma slice_compare_append [simp]: "slice_compare (p @ a) (p @ b) = slice_compare a b"
  by (induction p) auto

lemma slice_compare_take: "slice_compare (take n s) s \<le> 0"
proof (induction s arbitrary: n)
  case (Cons a s)
  then show ?case by (cases n) auto
qed simp

lemma difference_offset_split:
  "difference_offset s t < min (length s) (length t) \<Longrightarrow>
    \<exists>p a as b bs. s = p @ a # as \<and> t = p @ b # bs \<and> a \<noteq> b \<and> length p = difference_offset s t"
proof (induction s t rule: difference_offset.induct)
  case (1 x xs y ys)
  show ?case
  proof (cases "x = y")
    case True
    then obtain p a as b bs where "xs = p @ a # as" "ys = p @ b # bs" "a \<noteq> b" "length p = difference_offset xs ys"
      using 1 by auto
    then show ?thesis using True by (intro exI [of _ "x # p"]) auto
  qed (auto intro!: exI [of _ "[]"])
qed auto

lemma difference_offset_le: "difference_offset s t \<le> min (length s) (length t)"
  by (induction s t rule: difference_offset.induct) auto

lemma bump_loop_cases:
  "bump_loop s i = s \<or>
    (\<exists>j. i \<le> j \<and> j < length s \<and> s ! j < 0xff \<and> bump_loop s i = take j s @ [s ! j + 1])"
proof (induction s i rule: bump_loop.induct)
  case (1 s i)
  show ?case
  proof (cases "i < length s \<and> \<not> s ! i < 0xff")
    case True
    then have eq: "bump_loop s i = bump_loop s (i + 1)" by (subst bump_loop.simps) simp
    show ?thesis using 1 True unfolding eq by (metis Suc_eq_plus1 Suc_leD)
  next
    case False
    then have "bump_loop s i = (if i < length s then take (i + 1) (s[i := s ! i + 1]) else s)"
      by (subst bump_loop.simps) simp
    then show ?thesis using False by (auto simp: take_Suc_conv_app_nth)
  qed
qed

lemma byte_plus_1: "(a :: byte) < 0xff \<Longrightarrow> a < a + 1" "(a :: byte) < b \<Longrightarrow> unat (a + 1) = unat a + 1"
  by (simp_all add: word_less_nat_alt unat_word_ariths) (use unat_bound_8 [of b] in auto)

lemma bumped_greater:
  assumes "j < length s" "s ! j < 0xff"
  shows "slice_compare s (take j s @ [s ! j + 1]) < 0"
proof -
  have "s = take j s @ s ! j # drop (j + 1) s" using assms(1) by (simp add: Cons_nth_drop_Suc)
  then have "slice_compare s (take j s @ [s ! j + 1]) = slice_compare (s ! j # drop (j + 1) s) [s ! j + 1]"
    by (metis slice_compare_append)
  then show ?thesis using byte_plus_1(1) [OF assms(2)] by simp
qed

section \<open>The contract of a comparator\<close>

text \<open>
  The order is total on the keys that are \<open>valid\<close> for the comparator; a separator lies in the interval
  that \<^verbatim>\<open>comparator.h\<close> names and is the start itself when that is not less than the limit.
\<close>

locale comparator =
  fixes c :: Comparator and valid :: "slice \<Rightarrow> bool"
  assumes compare_refl: "valid a \<Longrightarrow> cmp_Compare c a a = 0"
    and compare_swap: "valid a \<Longrightarrow> valid b \<Longrightarrow> cmp_Compare c b a < 0 \<longleftrightarrow> 0 < cmp_Compare c a b"
    and compare_trans: "valid a \<Longrightarrow> valid b \<Longrightarrow> valid d \<Longrightarrow> cmp_Compare c a b \<le> 0 \<Longrightarrow>
      cmp_Compare c b d \<le> 0 \<Longrightarrow> cmp_Compare c a d \<le> 0"
    and equal_compare: "valid a \<Longrightarrow> valid b \<Longrightarrow> cmp_Equal c a b \<longleftrightarrow> cmp_Compare c a b = 0"
    and separator: "valid a \<Longrightarrow> valid b \<Longrightarrow> cmp_Compare c a b < 0 \<Longrightarrow>
      valid (cmp_FindShortestSeparator c a b) \<and> cmp_Compare c a (cmp_FindShortestSeparator c a b) \<le> 0 \<and>
      cmp_Compare c (cmp_FindShortestSeparator c a b) b < 0"
    and no_separator: "valid a \<Longrightarrow> valid b \<Longrightarrow> 0 \<le> cmp_Compare c a b \<Longrightarrow> cmp_FindShortestSeparator c a b = a"
    and successor: "valid a \<Longrightarrow> valid (cmp_FindShortSuccessor c a) \<and> cmp_Compare c a (cmp_FindShortSuccessor c a) \<le> 0"
begin

lemma compare_zero_sym: "valid a \<Longrightarrow> valid b \<Longrightarrow> cmp_Compare c b a = 0 \<longleftrightarrow> cmp_Compare c a b = 0"
  using compare_swap [of a b] compare_swap [of b a] by linarith

lemma compare_less_le_trans:
  assumes "valid a" "valid b" "valid d" "cmp_Compare c a b < 0" "cmp_Compare c b d \<le> 0"
  shows "cmp_Compare c a d < 0"
proof (rule ccontr)
  assume "\<not> ?thesis"
  then have "cmp_Compare c d a \<le> 0" using compare_swap [of a d] compare_swap [of d a] assms by linarith
  then have "cmp_Compare c b a \<le> 0" using compare_trans [of b d a] assms by blast
  then show False using compare_swap [of b a] assms by linarith
qed

lemma compare_le_less_trans:
  assumes "valid a" "valid b" "valid d" "cmp_Compare c a b \<le> 0" "cmp_Compare c b d < 0"
  shows "cmp_Compare c a d < 0"
proof (rule ccontr)
  assume "\<not> ?thesis"
  then have "cmp_Compare c d a \<le> 0" using compare_swap [of a d] compare_swap [of d a] assms by linarith
  then have "cmp_Compare c d b \<le> 0" using compare_trans [of d a b] assms by blast
  then show False using compare_swap [of d b] assms by linarith
qed

end

lemma slice_compare_le_trans:
  "slice_compare a b \<ge> 0 \<Longrightarrow> slice_compare b d \<ge> 0 \<Longrightarrow> slice_compare a d \<ge> 0"
  using slice_compare_trans [of d b a] by (simp add: slice_compare_swap [of b d] slice_compare_swap [of a b] slice_compare_swap [of a d])

lemma bytewise_separator:
  assumes "slice_compare a b < 0"
  shows "slice_compare a (Bytewise_FindShortestSeparator a b) \<le> 0"
    "slice_compare (Bytewise_FindShortestSeparator a b) b < 0"
proof -
  let ?r = "Bytewise_FindShortestSeparator a b" and ?d = "difference_offset a b"
  have "slice_compare a ?r \<le> 0 \<and> slice_compare ?r b < 0"
  proof (cases "?d < min (length a) (length b)")
    case False
    then have "min (length a) (length b) \<le> ?d" by linarith
    then have "?r = a" unfolding Bytewise_FindShortestSeparator_def Let_def by (rule if_P)
    then show ?thesis using assms by simp
  next
    case True
    then obtain p x xs y ys where ab: "a = p @ x # xs" "b = p @ y # ys" "x \<noteq> y" and d: "length p = ?d"
      using difference_offset_split by blast
    have lt: "x < y" using assms ab by (auto split: if_splits)
    have nth: "a ! ?d = x" "b ! ?d = y" using ab d by (metis nth_append_length)+
    have take: "take (Suc ?d) (a[?d := v]) = p @ [v]" for v
      unfolding d [symmetric] unfolding ab(1) by simp
    have ndm: "(min (length a) (length b) \<le> ?d) = False" and nle: "(y \<le> x) = False" using True lt by auto
    have up: "unat (x + 1) = unat x + 1" using byte_plus_1(2) [OF lt] .
    have ff: "x < 0xff" using lt unat_bound_8 [of y] by (simp add: word_less_nat_alt)
    show ?thesis
    proof (cases "?d < length b - 1 \<or> unat x + 1 < unat y")
      case True
      then have r: "?r = p @ [x + 1]"
        unfolding Bytewise_FindShortestSeparator_def Let_def nth ndm nle using take by simp
      have "x + 1 \<le> y" using up lt by (simp add: word_le_nat_alt word_less_nat_alt)
      moreover have "x + 1 < y \<or> ys \<noteq> []"
        using True up ab d by (auto simp: word_less_nat_alt)
      ultimately show ?thesis
        using ab r byte_plus_1(1) [OF ff] by (cases ys) auto
    next
      case False
      then have r: "?r = bump_loop a (?d + 1)"
        unfolding Bytewise_FindShortestSeparator_def Let_def nth ndm nle by simp
      consider "?r = a" | j where "?d + 1 \<le> j" "j < length a" "a ! j < 0xff" "?r = take j a @ [a ! j + 1]"
        using bump_loop_cases [of a "?d + 1"] r by auto
      then show ?thesis
      proof cases
        case 1
        then show ?thesis using assms by simp
      next
        case (2 j)
        obtain n where n: "j - length p = Suc n" using 2(1) d by (cases "j - length p") auto
        have "length p \<le> j" using n by linarith
        then have "slice_compare (take j a @ [a ! j + 1]) b < 0" unfolding ab using lt n by simp
        then show ?thesis using bumped_greater [OF 2(2,3)] 2(4) by simp
      qed
    qed
  qed
  then show "slice_compare a ?r \<le> 0" "slice_compare ?r b < 0" by auto
qed

lemma bytewise_no_separator:
  assumes "0 \<le> slice_compare a b"
  shows "Bytewise_FindShortestSeparator a b = a"
proof (cases "difference_offset a b < min (length a) (length b)")
  case True
  then obtain p x xs y ys where ab: "a = p @ x # xs" "b = p @ y # ys" "x \<noteq> y" and d: "length p = difference_offset a b"
    using difference_offset_split by blast
  have "y \<le> x" using assms ab by (auto split: if_splits)
  moreover have "a ! difference_offset a b = x" "b ! difference_offset a b = y"
    using ab d by (metis nth_append_length)+
  ultimately show ?thesis by (simp add: Bytewise_FindShortestSeparator_def Let_def)
next
  case False
  then have "min (length a) (length b) \<le> difference_offset a b" by linarith
  then show ?thesis unfolding Bytewise_FindShortestSeparator_def Let_def by (rule if_P)
qed

lemma bytewise_successor: "slice_compare a (Bytewise_FindShortSuccessor a) \<le> 0"
proof -
  consider "bump_loop a 0 = a" | j where "j < length a" "a ! j < 0xff" "bump_loop a 0 = take j a @ [a ! j + 1]"
    using bump_loop_cases [of a 0] by auto
  then show ?thesis
    by cases (use bumped_greater in \<open>force simp: Bytewise_FindShortSuccessor_def\<close>)+
qed

lemma slice_compare_less_swap: "slice_compare b a < 0 \<longleftrightarrow> 0 < slice_compare a b"
  using slice_compare_swap [of b a] by simp

interpretation bytewise: comparator BytewiseComparator "\<lambda>_. True"
  by unfold_locales
    (simp_all add: BytewiseComparator_def slice_compare_less_swap [symmetric] slice_compare_eq bytewise_separator
      bytewise_no_separator bytewise_successor, blast intro: slice_compare_trans)

lemma reverse_separator:
  assumes "0 < slice_compare a b"
  shows "0 \<le> slice_compare a (Reverse_FindShortestSeparator a b)"
    "0 < slice_compare (Reverse_FindShortestSeparator a b) b"
proof -
  let ?r = "Reverse_FindShortestSeparator a b" and ?d = "difference_offset a b"
  have "0 \<le> slice_compare a ?r \<and> 0 < slice_compare ?r b"
  proof (cases "?d < min (length a) (length b) \<and> a ! ?d > b ! ?d \<and> ?d < length a - 1")
    case True
    then obtain p x xs y ys where ab: "a = p @ x # xs" "b = p @ y # ys" "x \<noteq> y" and d: "length p = ?d"
      using difference_offset_split by blast
    have "a ! ?d = x" "b ! ?d = y" using ab d by (metis nth_append_length)+
    then have lt: "y < x" using True by simp
    have "(?d = min (length a) (length b)) = False" using True nat_neq_iff by blast
    then have "?r = take (?d + 1) a"
      using True unfolding Reverse_FindShortestSeparator_def Let_def by (simp only: if_True if_False simp_thms)
    also have "\<dots> = p @ [x]" unfolding d [symmetric] unfolding ab(1) by simp
    finally have r: "?r = p @ [x]" .
    show ?thesis unfolding r using lt by (cases xs) (auto simp: ab)
  next
    case False
    have "?r = a"
    proof (cases "?d = min (length a) (length b)")
      case True
      then show ?thesis unfolding Reverse_FindShortestSeparator_def Let_def by (rule if_P)
    next
      case ne: False
      then have "?d < min (length a) (length b)" using difference_offset_le [of a b] by linarith
      then have "\<not> (a ! ?d > b ! ?d \<and> ?d < length a - 1)" using False by blast
      then show ?thesis using ne unfolding Reverse_FindShortestSeparator_def Let_def by (simp only: if_False simp_thms)
    qed
    then show ?thesis using assms by simp
  qed
  then show "0 \<le> slice_compare a ?r" "0 < slice_compare ?r b" by auto
qed

lemma reverse_no_separator:
  assumes "slice_compare a b \<le> 0"
  shows "Reverse_FindShortestSeparator a b = a"
proof (cases "difference_offset a b < min (length a) (length b)")
  case True
  then obtain p x xs y ys where ab: "a = p @ x # xs" "b = p @ y # ys" "x \<noteq> y" and d: "length p = difference_offset a b"
    using difference_offset_split by blast
  have "x \<le> y" using assms ab by (auto split: if_splits)
  moreover have "a ! difference_offset a b = x" "b ! difference_offset a b = y"
    using ab d by (metis nth_append_length)+
  ultimately show ?thesis by (auto simp: Reverse_FindShortestSeparator_def Let_def)
next
  case False
  then have "difference_offset a b = min (length a) (length b)" using difference_offset_le [of a b] by linarith
  then show ?thesis unfolding Reverse_FindShortestSeparator_def Let_def by (rule if_P)
qed

interpretation reverse_bytewise: comparator ReverseBytewiseComparator "\<lambda>_. True"
  by unfold_locales
    (simp_all add: ReverseBytewiseComparator_def BytewiseComparator_def slice_compare_less_swap
      slice_compare_eq reverse_separator reverse_no_separator, blast intro: slice_compare_le_trans)

section \<open>Packing\<close>

lemma max_sequence: "s \<le> kMaxSequenceNumber \<longleftrightarrow> unat s < 2 ^ 56"
proof -
  have "unat kMaxSequenceNumber = 2 ^ 56 - 1" unfolding kMaxSequenceNumber_def by simp
  then show ?thesis by (simp add: word_le_nat_alt) linarith
qed

lemma sequence_bit: "s \<le> kMaxSequenceNumber \<Longrightarrow> bit s n \<Longrightarrow> n < 56"
proof (rule ccontr)
  assume s: "s \<le> kMaxSequenceNumber" "bit s n" "\<not> n < 56"
  have "take_bit 56 (unat s) = unat s" using s(1) by (simp add: max_sequence take_bit_nat_eq_self)
  then have "bit (take_bit 56 (unat s)) n" using s(2) by (simp add: bit_unsigned_iff)
  then show False using s(3) by (simp add: bit_take_bit_iff)
qed

lemma unpack_pack:
  assumes "s \<le> kMaxSequenceNumber"
  shows "drop_bit 8 (PackSequenceAndType s t) = s" "ucast (PackSequenceAndType s t AND 0xff) = t"
proof -
  show "drop_bit 8 (PackSequenceAndType s t) = s"
  proof (rule bit_word_eqI)
    fix n assume "n < LENGTH(64)"
    then show "bit (drop_bit 8 (PackSequenceAndType s t)) n = bit s n"
      using sequence_bit [OF assms, of n] bit_imp_le_length [of t "8 + n"]
      by (auto simp: PackSequenceAndType_def bit_drop_bit_eq bit_or_iff bit_push_bit_iff bit_unsigned_iff)
  qed
  show "ucast (PackSequenceAndType s t AND 0xff) = t"
  proof (rule bit_word_eqI)
    fix n assume "n < LENGTH(8)"
    then show "bit (ucast (PackSequenceAndType s t AND 0xff) :: byte) n = bit t n"
      by (auto simp: and_ff PackSequenceAndType_def bit_unsigned_iff bit_take_bit_iff bit_or_iff bit_push_bit_iff)
  qed
qed

lemma unat_pack:
  assumes "s \<le> kMaxSequenceNumber"
  shows "unat (PackSequenceAndType s t) = unat s * 256 + unat t"
proof -
  have "unat (PackSequenceAndType s t) = unat (PackSequenceAndType s t) div 256 * 256 + unat (PackSequenceAndType s t) mod 256"
    by simp
  moreover have "unat (PackSequenceAndType s t) div 256 = unat s"
    using arg_cong [OF unpack_pack(1) [OF assms, of t], of unat] by (simp add: unat_drop_bit_div)
  moreover have "unat (PackSequenceAndType s t) mod 256 = unat t"
    using arg_cong [OF unpack_pack(2) [OF assms, of t], of unat]
    by (simp add: ucast_and_ff unsigned_ucast_eq take_bit_eq_mod)
  ultimately show ?thesis by simp
qed

lemma pack_less:
  assumes "s \<le> kMaxSequenceNumber" "s' \<le> kMaxSequenceNumber"
  shows "PackSequenceAndType s t < PackSequenceAndType s' t' \<longleftrightarrow> s < s' \<or> s = s' \<and> t < t'"
proof -
  have "a * 256 + b < c * 256 + d \<longleftrightarrow> a < c \<or> a = c \<and> b < d" if "b < 256" "d < 256" for a b c d :: nat
    using that by auto
  then show ?thesis
    using assms unat_bound_8 [of t] unat_bound_8 [of t']
    by (simp add: word_less_nat_alt unat_pack word_unat_eq_iff)
qed

lemma ExtractUserKey_append [simp]: "length f = 8 \<Longrightarrow> ExtractUserKey (u @ f) = u"
  by (simp add: ExtractUserKey_def)

lemma InternalKey_eq: "InternalKey u s t = u @ EncodeFixed64 (PackSequenceAndType s t)"
  by (simp add: InternalKey_def AppendInternalKey_def PutFixed64_def)

lemma DecodeFixed64_exact [simp]: "DecodeFixed64 (EncodeFixed64 v) = v"
  using DecodeFixed64_Encode [of v "[]"] by simp

lemma InternalKey_parts [simp]:
  "ExtractUserKey (InternalKey u s t) = u" "ExtractInternalKeyFooter (InternalKey u s t) = PackSequenceAndType s t"
  "length (InternalKey u s t) = length u + 8"
  by (simp_all add: InternalKey_eq ExtractInternalKeyFooter_def)

lemma split_internal_key:
  assumes "8 \<le> length k"
  shows "k = ExtractUserKey k @ drop (length k - 8) k" "length (drop (length k - 8) k) = 8"
  using assms by (simp_all add: ExtractUserKey_def)

text \<open>Both comparisons of serialized keys: user keys first, then descending numbers.\<close>

definition keyed_compare :: "Comparator \<Rightarrow> (slice \<Rightarrow> u64) \<Rightarrow> slice \<Rightarrow> slice \<Rightarrow> int" where
  "keyed_compare c num a b =
    (let r = cmp_Compare c (ExtractUserKey a) (ExtractUserKey b)
     in if r \<noteq> 0 then r else if num b < num a then - 1 else if num a < num b then 1 else 0)"

lemma IKC_Compare_keyed: "IKC_Compare c = keyed_compare c ExtractInternalKeyFooter"
  by (intro ext) (simp add: IKC_Compare_def keyed_compare_def ExtractInternalKeyFooter_def Let_def)

lemma IKC_CompareKeySeq_keyed: "IKC_CompareKeySeq c = keyed_compare c GetInternalKeySeqno"
  by (intro ext) (simp add: IKC_CompareKeySeq_def keyed_compare_def GetInternalKeySeqno_def Let_def)

lemmas IKC_Compare_footer = IKC_Compare_keyed keyed_compare_def

definition valid_internal :: "(slice \<Rightarrow> bool) \<Rightarrow> slice \<Rightarrow> bool" where
  "valid_internal valid k \<longleftrightarrow> 8 \<le> length k \<and> valid (ExtractUserKey k)"

context comparator
begin

lemma keyed_trans:
  assumes "valid (ExtractUserKey a)" "valid (ExtractUserKey b)" "valid (ExtractUserKey d)"
    "keyed_compare c num a b \<le> 0" "keyed_compare c num b d \<le> 0"
  shows "keyed_compare c num a d \<le> 0"
proof -
  let ?u = ExtractUserKey
  have le: "cmp_Compare c (?u a) (?u b) \<le> 0" "cmp_Compare c (?u b) (?u d) \<le> 0"
    using assms(4,5) by (auto simp: keyed_compare_def Let_def split: if_splits)
  have ad: "cmp_Compare c (?u a) (?u d) \<le> 0" using compare_trans [OF assms(1-3) le] .
  show ?thesis
  proof (cases "cmp_Compare c (?u a) (?u d) = 0")
    case True
    then have "cmp_Compare c (?u a) (?u b) = 0" "cmp_Compare c (?u b) (?u d) = 0"
      using le compare_less_le_trans [of "?u a" "?u b" "?u d"] compare_le_less_trans [of "?u a" "?u b" "?u d"] assms(1-3)
      by force+
    then have "num b \<le> num a" "num d \<le> num b"
      using assms(4,5) by (auto simp: keyed_compare_def Let_def split: if_splits)
    then show ?thesis using True by (auto simp: keyed_compare_def Let_def)
  qed (use ad in \<open>simp add: keyed_compare_def Let_def\<close>)
qed

lemma keyed_swap:
  assumes "valid (ExtractUserKey a)" "valid (ExtractUserKey b)"
  shows "keyed_compare c num b a < 0 \<longleftrightarrow> 0 < keyed_compare c num a b"
  using compare_swap [OF assms] compare_swap [OF assms(2,1)] compare_zero_sym [OF assms]
  by (auto simp: keyed_compare_def Let_def)

lemmas internal_trans = keyed_trans [where num = ExtractInternalKeyFooter, folded IKC_Compare_keyed]

lemma internal_separator:
  assumes "valid_internal valid a" "valid_internal valid b" "IKC_Compare c a b < 0"
  shows "valid_internal valid (IKC_FindShortestSeparator c a b) \<and>
    IKC_Compare c a (IKC_FindShortestSeparator c a b) \<le> 0 \<and> IKC_Compare c (IKC_FindShortestSeparator c a b) b < 0"
proof -
  let ?ua = "ExtractUserKey a" and ?ub = "ExtractUserKey b"
  let ?t = "cmp_FindShortestSeparator c ?ua ?ub"
  have v: "valid ?ua" "valid ?ub" using assms by (simp_all add: valid_internal_def)
  show ?thesis
  proof (cases "length ?t \<le> length ?ua \<and> cmp_Compare c ?ua ?t < 0")
    case True
    have "cmp_Compare c ?ua ?ub < 0"
      using True no_separator [OF v] compare_refl [OF v(1)] by (metis linorder_not_less less_irrefl)
    from separator [OF v this] have t: "valid ?t" "cmp_Compare c ?t ?ub < 0" by auto
    have "IKC_FindShortestSeparator c a b = ?t @ EncodeFixed64 (PackSequenceAndType kMaxSequenceNumber kValueTypeForSeek)"
      using True by (simp add: IKC_FindShortestSeparator_def Let_def PutFixed64_def)
    then show ?thesis using True t by (simp add: valid_internal_def IKC_Compare_footer Let_def)
  next
    case False
    then have "IKC_FindShortestSeparator c a b = a" by (auto simp: IKC_FindShortestSeparator_def Let_def)
    then show ?thesis using assms compare_refl [OF v(1)] by (simp add: IKC_Compare_footer Let_def)
  qed
qed

lemma internal_key_comparator: "comparator (InternalKeyComparator c) (valid_internal valid)"
proof
  fix a b assume a: "valid_internal valid a" and b: "valid_internal valid b"
  then have v: "valid (ExtractUserKey a)" "valid (ExtractUserKey b)" by (simp_all add: valid_internal_def)
  show "cmp_Compare (InternalKeyComparator c) b a < 0 \<longleftrightarrow> 0 < cmp_Compare (InternalKeyComparator c) a b"
    using keyed_swap [OF v] by (simp add: InternalKeyComparator_def IKC_Compare_keyed)
  assume "0 \<le> cmp_Compare (InternalKeyComparator c) a b"
  then have "0 \<le> cmp_Compare c (ExtractUserKey a) (ExtractUserKey b)"
    by (auto simp: InternalKeyComparator_def IKC_Compare_footer Let_def split: if_splits)
  then show "cmp_FindShortestSeparator (InternalKeyComparator c) a b = a"
    using no_separator [OF v] compare_refl [OF v(1)]
    by (simp add: InternalKeyComparator_def IKC_FindShortestSeparator_def Let_def)
next
  fix a assume a: "valid_internal valid a"
  then have v: "valid (ExtractUserKey a)" by (simp add: valid_internal_def)
  show "valid_internal valid (cmp_FindShortSuccessor (InternalKeyComparator c) a) \<and>
      cmp_Compare (InternalKeyComparator c) a (cmp_FindShortSuccessor (InternalKeyComparator c) a) \<le> 0"
    using a successor [OF v] compare_refl [OF v]
    by (auto simp: InternalKeyComparator_def IKC_FindShortSuccessor_def valid_internal_def PutFixed64_def
        IKC_Compare_footer Let_def)
  show "cmp_Compare (InternalKeyComparator c) a a = 0"
    using compare_refl [OF v] by (simp add: InternalKeyComparator_def IKC_Compare_footer)
qed (use internal_trans internal_separator in \<open>auto simp: InternalKeyComparator_def valid_internal_def\<close>)

end

lemma AppendInternalKey_InternalKey: "AppendInternalKey [] k = InternalKey (user_key k) (sequence k) (vtype k)"
  by (simp add: InternalKey_def AppendInternalKey_def)

lemma compare_parsed:
  assumes "sequence a \<le> kMaxSequenceNumber" "sequence b \<le> kMaxSequenceNumber"
  shows "IKC_Compare c (AppendInternalKey [] a) (AppendInternalKey [] b) = IKC_CompareParsed c a b"
  unfolding AppendInternalKey_InternalKey IKC_Compare_footer IKC_CompareParsed_def InternalKey_parts Let_def
    pack_less [OF assms] pack_less [OF assms(2,1)]
  by (auto split: if_splits)

lemma ParseInternalKey_InternalKey:
  assumes "s \<le> kMaxSequenceNumber"
  shows "ParseInternalKey (InternalKey u s t) =
    (if IsExtendedValueType t then Some \<lparr>user_key = u, sequence = s, vtype = t\<rparr> else None)"
  using unpack_pack [OF assms, of t] by (simp add: ParseInternalKey_def InternalKey_eq Let_def)

text \<open>
  C21: The order of internal keys. For every comparator of user keys that keeps the contract of
  \<^verbatim>\<open>comparator.h\<close>, \<^verbatim>\<open>InternalKeyComparator\<close> keeps it on internal keys: a total order, separators inside
  the interval, successors not below the key. A serialized key is parsed back, if its type is one
  of the program's. The comparison of serialized keys and the comparison of parsed keys are both: user key
  first; for equal user keys the higher sequence number comes first, and for equal sequence numbers the higher
  type.
\<close>

theorem internal_key_order:
  assumes "comparator c valid"
  shows "comparator (InternalKeyComparator c) (valid_internal valid) \<and>
    (\<forall>a b. sequence a \<le> kMaxSequenceNumber \<and> sequence b \<le> kMaxSequenceNumber \<longrightarrow>
       ParseInternalKey (AppendInternalKey [] a) = (if IsExtendedValueType (vtype a) then Some a else None) \<and>
       cmp_Compare (InternalKeyComparator c) (AppendInternalKey [] a) (AppendInternalKey [] b) =
       (if cmp_Compare c (user_key a) (user_key b) \<noteq> 0 then cmp_Compare c (user_key a) (user_key b)
        else if sequence b < sequence a \<or> sequence a = sequence b \<and> vtype b < vtype a then - 1
        else if sequence a = sequence b \<and> vtype a = vtype b then 0 else 1) \<and>
       IKC_CompareParsed c a b = cmp_Compare (InternalKeyComparator c) (AppendInternalKey [] a) (AppendInternalKey [] b))"
proof (intro conjI allI impI)
  show "comparator (InternalKeyComparator c) (valid_internal valid)" by (rule comparator.internal_key_comparator [OF assms])
next
  fix a b :: ParsedInternalKey
  assume s: "sequence a \<le> kMaxSequenceNumber \<and> sequence b \<le> kMaxSequenceNumber"
  show "ParseInternalKey (AppendInternalKey [] a) = (if IsExtendedValueType (vtype a) then Some a else None)"
    using s by (simp add: AppendInternalKey_InternalKey ParseInternalKey_InternalKey)
  show p: "IKC_CompareParsed c a b = cmp_Compare (InternalKeyComparator c) (AppendInternalKey [] a) (AppendInternalKey [] b)"
    using s compare_parsed by (simp add: InternalKeyComparator_def)
  show "cmp_Compare (InternalKeyComparator c) (AppendInternalKey [] a) (AppendInternalKey [] b) =
       (if cmp_Compare c (user_key a) (user_key b) \<noteq> 0 then cmp_Compare c (user_key a) (user_key b)
        else if sequence b < sequence a \<or> sequence a = sequence b \<and> vtype b < vtype a then - 1
        else if sequence a = sequence b \<and> vtype a = vtype b then 0 else 1)"
    unfolding p [symmetric] IKC_CompareParsed_def Let_def by auto
qed

theorem internal_key_order_witness:
  "comparator (InternalKeyComparator BytewiseComparator) (valid_internal (\<lambda>_. True)) \<and>
   cmp_Compare (InternalKeyComparator BytewiseComparator)
     (AppendInternalKey [] \<lparr>user_key = [1], sequence = 5, vtype = 1\<rparr>)
     (AppendInternalKey [] \<lparr>user_key = [1], sequence = 4, vtype = 1\<rparr>) = - 1 \<and>
   ParseInternalKey (AppendInternalKey [] \<lparr>user_key = [1], sequence = 5, vtype = 1\<rparr>) = Some \<lparr>user_key = [1], sequence = 5, vtype = 1\<rparr>"
proof -
  let ?a = "\<lparr>user_key = [1], sequence = 5, vtype = 1\<rparr>" and ?b = "\<lparr>user_key = [1], sequence = 4, vtype = 1\<rparr>"
  note order = internal_key_order [OF bytewise.comparator_axioms]
  have s: "sequence ?a \<le> kMaxSequenceNumber \<and> sequence ?b \<le> kMaxSequenceNumber" by (simp add: max_sequence)
  have t: "IsExtendedValueType (vtype ?a)" "cmp_Compare BytewiseComparator (user_key ?a) (user_key ?b) = 0"
    by (simp_all add: IsExtendedValueType_def IsValueType_def value_type_defs BytewiseComparator_def)
  show ?thesis using order [THEN conjunct1] order [THEN conjunct2, rule_format, OF s] t by simp
qed

lemma UpdateInternalKey_InternalKey: "UpdateInternalKey (InternalKey u s t) s' t' = InternalKey u s' t'"
  by (simp add: UpdateInternalKey_def InternalKey_eq PackSequenceAndType_def)

lemma lookup_key_parts:
  "lk_user_key (LookupKey_new u s) = u"
  "lk_internal_key (LookupKey_new u s) = InternalKey u s kValueTypeForSeek"
  "lk_memtable_key (LookupKey_new u s) = EncodeVarint32 (word_of_nat (length u + 8)) @ InternalKey u s kValueTypeForSeek"
  by (simp_all add: lk_user_key_def lk_internal_key_def lk_memtable_key_def LookupKey_new_def InternalKey_eq Let_def)

section \<open>Immediate successors\<close>

text \<open>The number that a byte string spells in base 256.\<close>

definition be_value :: "slice \<Rightarrow> nat" where
  "be_value s = foldl (\<lambda>v b. v * 256 + unat b) 0 s"

lemma be_value_Nil [simp]: "be_value [] = 0"
  by (simp add: be_value_def)

lemma be_value_snoc: "be_value (s @ [b]) = be_value s * 256 + unat b"
  by (simp add: be_value_def)

lemma be_value_append: "be_value (s @ t) = be_value s * 256 ^ length t + be_value t"
proof (induction t rule: rev_induct)
  case (snoc b t)
  have "be_value (s @ t @ [b]) = be_value ((s @ t) @ [b])" by simp
  also have "\<dots> = (be_value s * 256 ^ length t + be_value t) * 256 + unat b"
    by (simp only: be_value_snoc snoc.IH)
  finally show ?case by (simp add: be_value_snoc algebra_simps)
qed simp

lemma be_value_Cons: "be_value (b # s) = unat b * 256 ^ length s + be_value s"
  using be_value_append [of "[b]" s] be_value_snoc [of "[]" b] by simp

lemma be_value_less: "be_value s < 256 ^ length s"
proof (induction s)
  case (Cons b s)
  have "be_value (b # s) < (unat b + 1) * 256 ^ length s" using Cons by (simp add: be_value_Cons)
  also have "\<dots> \<le> 256 * 256 ^ length s"
    using unat_bound_8 [of b] by (intro mult_right_mono) auto
  finally show ?case by simp
qed simp

lemma be_value_0: "be_value s = 0 \<longleftrightarrow> (\<forall>b\<in>set s. b = 0)"
  by (induction s) (auto simp: be_value_Cons unsigned_eq_0_iff)

lemma be_value_top: "be_value s + 1 = 256 ^ length s \<longleftrightarrow> (\<forall>b\<in>set s. b = 0xff)"
proof (induction s)
  case (Cons b s)
  have ff: "b = 0xff \<longleftrightarrow> unat b = 255" by (simp add: word_unat_eq_iff)
  have "unat b < 256" "be_value s < 256 ^ length s" using unat_bound_8 be_value_less by auto
  then have "unat b * 256 ^ length s + be_value s + 1 = 256 * 256 ^ length s \<longleftrightarrow>
      unat b = 255 \<and> be_value s + 1 = 256 ^ length s"
  proof (cases "unat b = 255")
    case False
    then have "unat b \<le> 254" using \<open>unat b < 256\<close> by simp
    then have "unat b * 256 ^ length s \<le> 254 * 256 ^ length s" by (intro mult_right_mono) auto
    then show ?thesis using False \<open>be_value s < 256 ^ length s\<close> by linarith
  qed simp
  then show ?case using Cons ff by (simp add: be_value_Cons)
qed simp

lemma successor_loop_iff:
  "length s = length t \<Longrightarrow> successor_loop s t i \<longleftrightarrow> (\<forall>b\<in>set (drop i s). b = 0xff) \<and> (\<forall>b\<in>set (drop i t). b = 0)"
proof (induction s t i rule: successor_loop.induct)
  case (1 s t i)
  show ?case
  proof (cases "i < length s")
    case True
    then have "drop i s = s ! i # drop (i + 1) s" "drop i t = t ! i # drop (i + 1) t"
      using "1.prems" by (simp_all add: Cons_nth_drop_Suc)
    then show ?thesis using 1 True by (subst successor_loop.simps) auto
  qed (subst successor_loop.simps, use "1.prems" in simp)
qed

text \<open>
  \<^verbatim>\<open>IsSameLengthImmediateSuccessor\<close> of the bytewise comparator holds of exactly the pairs of equal
  length whose numbers in base 256 follow each other, so that no key of that length lies between them.
\<close>

theorem immediate_successor_correct:
  "cmp_IsSameLengthImmediateSuccessor BytewiseComparator s t \<longleftrightarrow>
    length s = length t \<and> be_value t = be_value s + 1"
proof (cases "length s = length t \<and> difference_offset s t < length s")
  case True
  then obtain p a as b bs where st: "s = p @ a # as" "t = p @ b # bs" "a \<noteq> b" and d: "length p = difference_offset s t"
    using difference_offset_split [of s t] by auto
  let ?n = "length as"
  have n: "length bs = ?n" using True st by simp
  have nth: "s ! difference_offset s t = a" "t ! difference_offset s t = b"
    using st d by (metis nth_append_length)+
  have dr: "drop (difference_offset s t + 1) s = as" "drop (difference_offset s t + 1) t = bs"
    unfolding d [symmetric] unfolding st by simp_all
  have "cmp_IsSameLengthImmediateSuccessor BytewiseComparator s t \<longleftrightarrow>
      a \<noteq> 0xff \<and> unat a + 1 = unat b \<and> successor_loop s t (difference_offset s t + 1)"
    using True by (auto simp: BytewiseComparator_def Bytewise_IsSameLengthImmediateSuccessor_def Let_def nth)
  also have "\<dots> \<longleftrightarrow> a \<noteq> 0xff \<and> unat a + 1 = unat b \<and> (\<forall>x\<in>set as. x = 0xff) \<and> (\<forall>x\<in>set bs. x = 0)"
    using True successor_loop_iff [of s t "difference_offset s t + 1"] unfolding dr by blast
  also have "\<dots> \<longleftrightarrow> unat a + 1 = unat b \<and> be_value as + 1 = 256 ^ ?n \<and> be_value bs = 0"
    using unat_bound_8 [of b] unfolding be_value_top be_value_0 by auto
  also have "\<dots> \<longleftrightarrow> unat b * 256 ^ ?n + be_value bs = unat a * 256 ^ ?n + be_value as + 1"
  proof
    assume eq: "unat b * 256 ^ ?n + be_value bs = unat a * 256 ^ ?n + be_value as + 1"
    have lt: "be_value as < 256 ^ ?n" "be_value bs < 256 ^ ?n" using be_value_less [of as] be_value_less [of bs] n by auto
    have "unat a < unat b"
    proof (rule ccontr)
      assume "\<not> ?thesis"
      then have "unat b + 1 \<le> unat a" using st(3) by (metis Suc_eq_plus1 Suc_leI linorder_neqE_nat word_unat_eq_iff)
      then have "(unat b + 1) * 256 ^ ?n \<le> unat a * 256 ^ ?n" by (intro mult_right_mono) auto
      then show False using eq lt unfolding distrib_right by linarith
    qed
    moreover have "\<not> unat a + 2 \<le> unat b"
    proof
      assume "unat a + 2 \<le> unat b"
      then have "(unat a + 2) * 256 ^ ?n \<le> unat b * 256 ^ ?n" by (intro mult_right_mono) auto
      then show False using eq lt unfolding distrib_right by linarith
    qed
    ultimately have "unat b = unat a + 1" by simp
    then show "unat a + 1 = unat b \<and> be_value as + 1 = 256 ^ ?n \<and> be_value bs = 0"
      using eq lt by (simp add: algebra_simps)
  qed (auto simp: algebra_simps dest!: sym [of _ "unat b"])
  also have "\<dots> \<longleftrightarrow> be_value t = be_value s + 1"
    using n by (simp add: st be_value_append be_value_Cons)
  finally show ?thesis using True by simp
next
  case False
  moreover have "s = t" if "length s = length t" "difference_offset s t = length s"
    using that by (induction s t rule: list_induct2) (auto split: if_splits)
  ultimately show ?thesis
    using difference_offset_le [of s t]
    by (auto simp: BytewiseComparator_def Bytewise_IsSameLengthImmediateSuccessor_def Let_def)
qed

end
