(* ===== verification/MemTable.thy ===== *)
theory MemTable
  imports DbFormat "HOL-Library.Multiset"
begin

text \<open>
  The memtable (\<^verbatim>\<open>db/memtable.cc\<close>): entries as length-prefixed byte strings, \<^verbatim>\<open>Add\<close>, \<^verbatim>\<open>Get\<close> with its
  callback \<^verbatim>\<open>SaveValue\<close>, the in-place \<^verbatim>\<open>Update\<close> and the count of merge entries, over a container of
  entries. The container is a record of its operations (\<^verbatim>\<open>MemTableRep\<close>); \<open>memtable_rep\<close> is its
  contract, and \<^verbatim>\<open>VectorRep\<close> (\<^verbatim>\<open>memtable/vectorrep.cc\<close>) keeps it. A pointer to an entry is the entry.
  Options: no prefix bloom filter, no insert hints. The merge operator and the visibility callback are
  supplied by the user of the database and are parameters, and so is the greatest covering
  tombstone that \<^verbatim>\<open>Get\<close> obtains from the range deletions.
\<close>

section \<open>Entries\<close>

text \<open>\<^verbatim>\<open>GetLengthPrefixedSlice(const char*)\<close>: the slice and what follows it.\<close>

definition prefixed_slice :: "bytes \<Rightarrow> slice \<times> bytes" where
  "prefixed_slice data =
    (case GetVarint32Ptr data of
       Some (len, p) \<Rightarrow> (take (unat len) p, drop (unat len) p)
     | None \<Rightarrow> ([], []))"

definition KeyComparator :: "Comparator \<Rightarrow> bytes \<Rightarrow> bytes \<Rightarrow> int" where
  "KeyComparator c prefix_len_key1 prefix_len_key2 =
    IKC_CompareKeySeq c (fst (prefixed_slice prefix_len_key1)) (fst (prefixed_slice prefix_len_key2))"

definition MemTable_EncodeKey :: "slice \<Rightarrow> bytes" where
  "MemTable_EncodeKey target = PutVarint32 [] (word_of_nat (length target)) @ target"

text \<open>The buffer that \<^verbatim>\<open>Add\<close> fills; the sizes are 32 bits wide.\<close>

definition encode_entry :: "u64 \<Rightarrow> byte \<Rightarrow> slice \<Rightarrow> slice \<Rightarrow> bytes" where
  "encode_entry s t key v =
    (let key_size = word_of_nat (length key) :: u32;
         val_size = word_of_nat (length v) :: u32;
         internal_key_size = key_size + 8
     in EncodeVarint32 internal_key_size @ take (unat key_size) key @ EncodeFixed64 (PackSequenceAndType s t)
        @ EncodeVarint32 val_size @ take (unat val_size) v)"

definition encoded_len :: "slice \<Rightarrow> slice \<Rightarrow> u32" where
  "encoded_len key v =
    (let key_size = word_of_nat (length key) :: u32;
         val_size = word_of_nat (length v) :: u32;
         internal_key_size = key_size + 8
     in word_of_nat (VarintLength (ucast internal_key_size)) + internal_key_size
        + word_of_nat (VarintLength (ucast val_size)) + val_size)"

section \<open>Reading an entry\<close>

record MergeOperator =
  mo_FullMergeV2 :: "slice \<Rightarrow> slice option \<Rightarrow> slice list \<Rightarrow> slice option"
  mo_ShouldMerge :: "slice list \<Rightarrow> bool"

definition TimedFullMerge :: "MergeOperator \<Rightarrow> slice \<Rightarrow> slice option \<Rightarrow> slice list \<Rightarrow> slice \<Rightarrow> status \<times> slice" where
  "TimedFullMerge mop key v operands result =
    (if operands = [] then (Status_OK, case v of Some v \<Rightarrow> v | None \<Rightarrow> result)
     else case mo_FullMergeV2 mop key v operands of
       Some r \<Rightarrow> (Status_OK, r)
     | None \<Rightarrow> (Corruption ''Error: Could not perform merge.'', result))"

text \<open>
  The fields of \<^verbatim>\<open>Saver\<close> that \<^verbatim>\<open>SaveValue\<close> changes, and its constants. The operands are kept in the
  order in which they were found, newest first; \<^verbatim>\<open>GetOperands\<close> gives the oldest first.
\<close>

record Saver =
  sv_status :: status
  sv_found_final_value :: bool
  sv_merge_in_progress :: bool
  sv_value :: slice
  sv_seq :: u64
  sv_operands :: "slice list"
  sv_is_blob_index :: bool

record get_context =
  gc_comparator :: Comparator
  gc_merge_operator :: "MergeOperator option"
  gc_is_visible :: "u64 \<Rightarrow> bool"
  gc_allow_blob :: bool

definition finish_merge :: "get_context \<Rightarrow> slice \<Rightarrow> slice option \<Rightarrow> Saver \<Rightarrow> Saver" where
  "finish_merge g ukey v s =
    (case gc_merge_operator g of
       None \<Rightarrow> s
     | Some mop \<Rightarrow>
         let (st, r) = TimedFullMerge mop ukey v (rev (sv_operands s)) (sv_value s)
         in s\<lparr>sv_status := st, sv_value := r\<rparr>)"

definition SaveValue :: "get_context \<Rightarrow> u64 \<Rightarrow> slice \<Rightarrow> bytes \<Rightarrow> Saver \<Rightarrow> bool \<times> Saver" where
  "SaveValue g max_covering_tombstone_seq ukey entry s =
    (let (ikey, rest) = prefixed_slice entry
     in if cmp_Equal (gc_comparator g) (take (length ikey - 8) ikey) ukey then
          let tag = DecodeFixed64 (drop (length ikey - 8) ikey);
              (seq, t) = UnPackSequenceAndType tag
          in if \<not> gc_is_visible g seq then (True, s)
             else
               let s = s\<lparr>sv_seq := seq\<rparr>;
                   t = (if (t = kTypeValue \<or> t = kTypeMerge \<or> t = kTypeBlobIndex) \<and> max_covering_tombstone_seq > seq
                        then kTypeRangeDeletion else t)
               in if t = kTypeBlobIndex \<and> \<not> gc_allow_blob g then
                    (False, s\<lparr>sv_status := NotSupported ''Encounter unsupported blob value. Please open DB with rocksdb::blob_db::BlobDB instead.'',
                              sv_found_final_value := True\<rparr>)
                  else if t = kTypeBlobIndex \<and> sv_merge_in_progress s then
                    (False, s\<lparr>sv_status := NotSupported ''Blob DB does not support merge operator.'',
                              sv_found_final_value := True\<rparr>)
                  else if t = kTypeBlobIndex \<and> \<not> ok (sv_status s) then
                    (False, s\<lparr>sv_found_final_value := True\<rparr>)
                  else if t = kTypeBlobIndex \<or> t = kTypeValue then
                    let v = fst (prefixed_slice rest);
                        s = s\<lparr>sv_status := Status_OK\<rparr>;
                        s = (if sv_merge_in_progress s then finish_merge g ukey (Some v) s else s\<lparr>sv_value := v\<rparr>);
                        s = s\<lparr>sv_found_final_value := True\<rparr>
                    in (False, if gc_allow_blob g then s\<lparr>sv_is_blob_index := (t = kTypeBlobIndex)\<rparr> else s)
                  else if t = kTypeDeletion \<or> t = kTypeSingleDeletion \<or> t = kTypeRangeDeletion then
                    let s = (if sv_merge_in_progress s then finish_merge g ukey None s
                             else s\<lparr>sv_status := NotFound ''''\<rparr>)
                    in (False, s\<lparr>sv_found_final_value := True\<rparr>)
                  else if t = kTypeMerge then
                    (case gc_merge_operator g of
                       None \<Rightarrow>
                         (False, s\<lparr>sv_status := InvalidArgument ''merge_operator is not properly initialized.'',
                                   sv_found_final_value := True\<rparr>)
                     | Some mop \<Rightarrow>
                         let v = fst (prefixed_slice rest);
                             s = s\<lparr>sv_merge_in_progress := True, sv_operands := sv_operands s @ [v]\<rparr>
                         in if mo_ShouldMerge mop (sv_operands s) then
                              (False, (finish_merge g ukey None s)\<lparr>sv_found_final_value := True\<rparr>)
                            else (True, s))
                  else (True, s)
        else (False, s))"

text \<open>The loop of \<^verbatim>\<open>MemTableRep::Get\<close>: the callback on one entry after the other, while it returns true.\<close>

fun callback_loop :: "(bytes \<Rightarrow> 's \<Rightarrow> bool \<times> 's) \<Rightarrow> bytes list \<Rightarrow> 's \<Rightarrow> 's" where
  "callback_loop cb [] s = s"
| "callback_loop cb (e # es) s = (case cb e s of (continue, s) \<Rightarrow> if continue then callback_loop cb es s else s)"

section \<open>\<^verbatim>\<open>VectorRep\<close>\<close>

text \<open>
  \<^verbatim>\<open>std::sort\<close> by the comparator. It may order entries that compare equal in any way; the entries of a
  memtable differ in key or sequence number.
\<close>

fun insert_sorted :: "(bytes \<Rightarrow> bytes \<Rightarrow> int) \<Rightarrow> bytes \<Rightarrow> bytes list \<Rightarrow> bytes list" where
  "insert_sorted cmp x [] = [x]"
| "insert_sorted cmp x (y # ys) = (if cmp y x < 0 then y # insert_sorted cmp x ys else x # y # ys)"

definition sort_entries :: "(bytes \<Rightarrow> bytes \<Rightarrow> int) \<Rightarrow> bytes list \<Rightarrow> bytes list" where
  "sort_entries cmp xs = foldr (insert_sorted cmp) xs []"

text \<open>\<^verbatim>\<open>std::equal_range(...).first\<close> on a sorted vector.\<close>

definition lower_bound :: "(bytes \<Rightarrow> bytes \<Rightarrow> int) \<Rightarrow> bytes \<Rightarrow> bytes list \<Rightarrow> nat" where
  "lower_bound cmp key xs = length (takeWhile (\<lambda>e. cmp e key < 0) xs)"

record VectorRep =
  vr_bucket :: "bytes list"
  vr_immutable :: bool
  vr_sorted :: bool

definition VectorRep_new :: VectorRep where
  "VectorRep_new = \<lparr>vr_bucket = [], vr_immutable = False, vr_sorted = False\<rparr>"

definition VectorRep_Insert :: "VectorRep \<Rightarrow> bytes \<Rightarrow> VectorRep" where
  "VectorRep_Insert r key = r\<lparr>vr_bucket := vr_bucket r @ [key]\<rparr>"

definition VectorRep_MarkReadOnly :: "VectorRep \<Rightarrow> VectorRep" where
  "VectorRep_MarkReadOnly r = r\<lparr>vr_immutable := True\<rparr>"

text \<open>
  The iterator. On an immutable container it shares the vector, which it sorts in place once;
  otherwise it has a copy of its own. Its position is an index, the length of the vector at the end.
\<close>

record VectorIter =
  vi_shared :: bool
  vi_copy :: "bytes list"
  vi_cit :: nat
  vi_sorted :: bool

definition vi_bucket :: "VectorRep \<Rightarrow> VectorIter \<Rightarrow> bytes list" where
  "vi_bucket r it = (if vi_shared it then vr_bucket r else vi_copy it)"

definition VectorRep_GetIterator :: "VectorRep \<Rightarrow> VectorIter" where
  "VectorRep_GetIterator r =
    (if vr_immutable r then \<lparr>vi_shared = True, vi_copy = [], vi_cit = length (vr_bucket r), vi_sorted = False\<rparr>
     else \<lparr>vi_shared = False, vi_copy = vr_bucket r, vi_cit = length (vr_bucket r), vi_sorted = False\<rparr>)"

definition DoSort :: "Comparator \<Rightarrow> VectorRep \<times> VectorIter \<Rightarrow> VectorRep \<times> VectorIter" where
  "DoSort c ri =
    (let (r, it) = ri
     in if \<not> vi_sorted it \<and> vi_shared it then
          if \<not> vr_sorted r then
            (r\<lparr>vr_bucket := sort_entries (KeyComparator c) (vr_bucket r), vr_sorted := True\<rparr>,
             it\<lparr>vi_cit := 0, vi_sorted := True\<rparr>)
          else (r, it\<lparr>vi_sorted := True\<rparr>)
        else if \<not> vi_sorted it then
          (r, it\<lparr>vi_copy := sort_entries (KeyComparator c) (vi_copy it), vi_cit := 0, vi_sorted := True\<rparr>)
        else (r, it))"

definition VectorIter_Valid :: "Comparator \<Rightarrow> VectorRep \<times> VectorIter \<Rightarrow> bool \<times> VectorRep \<times> VectorIter" where
  "VectorIter_Valid c ri =
    (let (r, it) = DoSort c ri in (vi_cit it \<noteq> length (vi_bucket r it), r, it))"

definition VectorIter_key :: "VectorRep \<times> VectorIter \<Rightarrow> bytes" where
  "VectorIter_key ri = vi_bucket (fst ri) (snd ri) ! vi_cit (snd ri)"

definition VectorIter_Next :: "VectorRep \<times> VectorIter \<Rightarrow> VectorRep \<times> VectorIter" where
  "VectorIter_Next ri =
    (let (r, it) = ri
     in if vi_cit it = length (vi_bucket r it) then (r, it) else (r, it\<lparr>vi_cit := vi_cit it + 1\<rparr>))"

definition VectorIter_Prev :: "VectorRep \<times> VectorIter \<Rightarrow> VectorRep \<times> VectorIter" where
  "VectorIter_Prev ri =
    (let (r, it) = ri
     in if vi_cit it = 0 then (r, it\<lparr>vi_cit := length (vi_bucket r it)\<rparr>) else (r, it\<lparr>vi_cit := vi_cit it - 1\<rparr>))"

definition VectorIter_Seek :: "Comparator \<Rightarrow> slice \<Rightarrow> bytes option \<Rightarrow> VectorRep \<times> VectorIter \<Rightarrow> VectorRep \<times> VectorIter" where
  "VectorIter_Seek c ukey memtable_key ri =
    (let (r, it) = DoSort c ri;
         encoded_key = (case memtable_key of Some k \<Rightarrow> k | None \<Rightarrow> MemTable_EncodeKey ukey)
     in (r, it\<lparr>vi_cit := lower_bound (KeyComparator c) encoded_key (vi_bucket r it)\<rparr>))"

definition VectorIter_SeekToFirst :: "Comparator \<Rightarrow> VectorRep \<times> VectorIter \<Rightarrow> VectorRep \<times> VectorIter" where
  "VectorIter_SeekToFirst c ri = (let (r, it) = DoSort c ri in (r, it\<lparr>vi_cit := 0\<rparr>))"

definition VectorIter_SeekToLast :: "Comparator \<Rightarrow> VectorRep \<times> VectorIter \<Rightarrow> VectorRep \<times> VectorIter" where
  "VectorIter_SeekToLast c ri =
    (let (r, it) = DoSort c ri;
         n = length (vi_bucket r it)
     in (r, it\<lparr>vi_cit := (if n \<noteq> 0 then n - 1 else n)\<rparr>))"

text \<open>The loop of \<^verbatim>\<open>VectorRep::Get\<close>; the fuel bounds the steps to the end of the vector.\<close>

fun vector_get_loop :: "nat \<Rightarrow> Comparator \<Rightarrow> (bytes \<Rightarrow> 's \<Rightarrow> bool \<times> 's) \<Rightarrow> VectorRep \<times> VectorIter \<Rightarrow> 's \<Rightarrow> 's \<times> VectorRep" where
  "vector_get_loop 0 c cb ri s = (s, fst ri)"
| "vector_get_loop (Suc n) c cb ri s =
    (let (valid, ri) = VectorIter_Valid c ri
     in if valid then
          case cb (VectorIter_key ri) s of
            (continue, s) \<Rightarrow> if continue then vector_get_loop n c cb (VectorIter_Next ri) s else (s, fst ri)
        else (s, fst ri))"

definition VectorRep_Get :: "Comparator \<Rightarrow> VectorRep \<Rightarrow> LookupKey \<Rightarrow> (bytes \<Rightarrow> 's \<Rightarrow> bool \<times> 's) \<Rightarrow> 's \<Rightarrow> 's \<times> VectorRep" where
  "VectorRep_Get c r k cb s =
    vector_get_loop (length (vr_bucket r) + 1) c cb
      (VectorIter_Seek c (lk_user_key k) (Some (lk_memtable_key k)) (r, VectorRep_GetIterator r)) s"

section \<open>\<^verbatim>\<open>MemTable\<close>\<close>

text \<open>
  The virtual functions of the container that the memtable calls: \<^verbatim>\<open>InsertKey\<close> and
  \<^verbatim>\<open>InsertKeyConcurrently\<close>, which return false when the key and sequence number are present, and \<^verbatim>\<open>Get\<close>.
  \<^verbatim>\<open>InsertKeyConcurrently\<close> of a container that does not override \<^verbatim>\<open>InsertConcurrently\<close> throws: that is \<open>None\<close>.
\<close>

record 'r MemTableRep =
  mr_InsertKey :: "'r \<Rightarrow> bytes \<Rightarrow> bool \<times> 'r"
  mr_InsertKeyConcurrently :: "'r \<Rightarrow> bytes \<Rightarrow> (bool \<times> 'r) option"
  mr_Get :: "'r \<Rightarrow> LookupKey \<Rightarrow> (bytes \<Rightarrow> Saver \<Rightarrow> bool \<times> Saver) \<Rightarrow> Saver \<Rightarrow> Saver \<times> 'r"
  mr_entries_from :: "'r \<Rightarrow> bytes \<Rightarrow> bytes list"

text \<open>The default of \<^verbatim>\<open>InsertConcurrently\<close>, which the vector container inherits.\<close>

definition MemTableRep_InsertKeyConcurrently :: "'r \<Rightarrow> bytes \<Rightarrow> (bool \<times> 'r) option" where
  "MemTableRep_InsertKeyConcurrently r entry = None"

definition VectorRep_ops :: "Comparator \<Rightarrow> VectorRep MemTableRep" where
  "VectorRep_ops c = \<lparr>
    mr_InsertKey = \<lambda>r e. (True, VectorRep_Insert r e),
    mr_InsertKeyConcurrently = MemTableRep_InsertKeyConcurrently,
    mr_Get = VectorRep_Get c,
    mr_entries_from = \<lambda>r k.
      (let xs = sort_entries (KeyComparator c) (vr_bucket r) in drop (lower_bound (KeyComparator c) k xs) xs)\<rparr>"

record 'r MemTable =
  mt_table :: 'r
  mt_range_del_table :: 'r
  mt_is_range_del_table_empty :: bool
  mt_data_size :: u64
  mt_num_entries :: u64
  mt_num_deletes :: u64
  mt_first_seqno :: u64
  mt_earliest_seqno :: u64
  mt_min_prep_log_referenced :: u64

definition MemTable_new :: "'r \<Rightarrow> 'r \<Rightarrow> u64 \<Rightarrow> 'r MemTable" where
  "MemTable_new table range_del_table latest_seq =
    \<lparr>mt_table = table, mt_range_del_table = range_del_table, mt_is_range_del_table_empty = True,
     mt_data_size = 0, mt_num_entries = 0, mt_num_deletes = 0, mt_first_seqno = 0,
     mt_earliest_seqno = latest_seq, mt_min_prep_log_referenced = 0\<rparr>"

definition RefLogContainingPrepSection :: "u64 \<Rightarrow> 'r MemTable \<Rightarrow> 'r MemTable" where
  "RefLogContainingPrepSection log m =
    (if log < mt_min_prep_log_referenced m \<or> mt_min_prep_log_referenced m = 0
     then m\<lparr>mt_min_prep_log_referenced := log\<rparr> else m)"

definition table_insert :: "'r MemTableRep \<Rightarrow> 'r MemTable \<Rightarrow> byte \<Rightarrow> bytes \<Rightarrow> bool \<times> 'r MemTable" where
  "table_insert ops m t entry =
    (if t = kTypeRangeDeletion then
       let (res, r) = mr_InsertKey ops (mt_range_del_table m) entry in (res, m\<lparr>mt_range_del_table := r\<rparr>)
     else let (res, r) = mr_InsertKey ops (mt_table m) entry in (res, m\<lparr>mt_table := r\<rparr>))"

definition MemTable_Add :: "'r MemTableRep \<Rightarrow> 'r MemTable \<Rightarrow> u64 \<Rightarrow> byte \<Rightarrow> slice \<Rightarrow> slice \<Rightarrow> bool \<times> 'r MemTable" where
  "MemTable_Add ops m s t key v =
    (let (res, m) = table_insert ops m t (encode_entry s t key v)
     in if \<not> res then (res, m)
        else
          let m = m\<lparr>mt_num_entries := mt_num_entries m + 1,
                    mt_data_size := mt_data_size m + ucast (encoded_len key v),
                    mt_num_deletes := mt_num_deletes m + (if t = kTypeDeletion then 1 else 0)\<rparr>;
              m = (if mt_first_seqno m = 0 then
                     m\<lparr>mt_first_seqno := s,
                       mt_earliest_seqno := (if mt_earliest_seqno m = kMaxSequenceNumber then s else mt_earliest_seqno m)\<rparr>
                   else m);
              m = (if mt_is_range_del_table_empty m \<and> t = kTypeRangeDeletion
                   then m\<lparr>mt_is_range_del_table_empty := False\<rparr> else m)
          in (True, m))"

text \<open>
  The branch of \<^verbatim>\<open>Add\<close> for concurrent writers: the counters go to the caller's
  \<^verbatim>\<open>MemTablePostProcessInfo\<close>, and two loops of \<^verbatim>\<open>compare_exchange_weak\<close> lower the sequence numbers. The
  second loop exchanges \<^verbatim>\<open>first_seqno_\<close> as well; a failed exchange loads its value. \<open>None\<close> is an exception of the
  container.
\<close>

record MemTablePostProcessInfo =
  pp_data_size :: u64
  pp_num_entries :: u64
  pp_num_deletes :: u64

definition lower_first_seqno :: "u64 \<Rightarrow> 'r MemTable \<Rightarrow> 'r MemTable" where
  "lower_first_seqno s m =
    (if mt_first_seqno m = 0 \<or> s < mt_first_seqno m then m\<lparr>mt_first_seqno := s\<rparr> else m)"

fun earliest_loop :: "nat \<Rightarrow> u64 \<Rightarrow> u64 \<Rightarrow> 'r MemTable \<Rightarrow> 'r MemTable" where
  "earliest_loop 0 s cur m = m"
| "earliest_loop (Suc n) s cur m =
    (if cur = kMaxSequenceNumber \<or> s < cur then
       if mt_first_seqno m = cur then m\<lparr>mt_first_seqno := s\<rparr>
       else earliest_loop n s (mt_first_seqno m) m
     else m)"

definition table_insert_concurrently ::
    "'r MemTableRep \<Rightarrow> 'r MemTable \<Rightarrow> byte \<Rightarrow> bytes \<Rightarrow> (bool \<times> 'r MemTable) option" where
  "table_insert_concurrently ops m t entry =
    (if t = kTypeRangeDeletion then
       map_option (\<lambda>(res, r). (res, m\<lparr>mt_range_del_table := r\<rparr>)) (mr_InsertKeyConcurrently ops (mt_range_del_table m) entry)
     else map_option (\<lambda>(res, r). (res, m\<lparr>mt_table := r\<rparr>)) (mr_InsertKeyConcurrently ops (mt_table m) entry))"

definition MemTable_AddConcurrent ::
    "'r MemTableRep \<Rightarrow> 'r MemTable \<Rightarrow> u64 \<Rightarrow> byte \<Rightarrow> slice \<Rightarrow> slice \<Rightarrow> MemTablePostProcessInfo \<Rightarrow>
     (bool \<times> 'r MemTable \<times> MemTablePostProcessInfo) option" where
  "MemTable_AddConcurrent ops m s t key v info =
    (case table_insert_concurrently ops m t (encode_entry s t key v) of
       None \<Rightarrow> None
     | Some (res, m) \<Rightarrow>
        if \<not> res then Some (res, m, info)
        else
          let info = info\<lparr>pp_num_entries := pp_num_entries info + 1,
                          pp_data_size := pp_data_size info + ucast (encoded_len key v),
                          pp_num_deletes := pp_num_deletes info + (if t = kTypeDeletion then 1 else 0)\<rparr>;
              m = lower_first_seqno s m;
              m = earliest_loop 2 s (mt_earliest_seqno m) m;
              m = (if mt_is_range_del_table_empty m \<and> t = kTypeRangeDeletion
                   then m\<lparr>mt_is_range_del_table_empty := False\<rparr> else m)
          in Some (True, m, info))"

definition BatchPostProcess :: "'r MemTable \<Rightarrow> MemTablePostProcessInfo \<Rightarrow> 'r MemTable" where
  "BatchPostProcess m info =
    m\<lparr>mt_num_entries := mt_num_entries m + pp_num_entries info,
      mt_data_size := mt_data_size m + pp_data_size info,
      mt_num_deletes := (if pp_num_deletes info \<noteq> 0 then mt_num_deletes m + pp_num_deletes info else mt_num_deletes m)\<rparr>"

text \<open>
  \<^verbatim>\<open>Get\<close>: whether a final value was found, the result and the memtable, whose container may have
  been sorted. \<^verbatim>\<open>status\<close>, \<^verbatim>\<open>value\<close> and the operands come in from the caller. \<open>max_covering\<close> is what the
  range tombstones give, zero when there are none.
\<close>

definition MergeInProgress :: status where
  "MergeInProgress = \<lparr>st_code = KMergeInProgress, st_subcode = KNone, st_msg = []\<rparr>"

definition MemTable_Get ::
    "'r MemTableRep \<Rightarrow> get_context \<Rightarrow> ('r \<Rightarrow> slice \<Rightarrow> u64 \<Rightarrow> u64) \<Rightarrow> LookupKey \<Rightarrow> u64 \<Rightarrow> Saver \<Rightarrow> 'r MemTable \<Rightarrow>
     bool \<times> Saver \<times> 'r MemTable" where
  "MemTable_Get ops g max_covering key max_seq s m =
    (if mt_first_seqno m = 0 then (False, s, m)
     else
       let max_seq = (if mt_is_range_del_table_empty m then max_seq
                      else max max_seq (max_covering (mt_range_del_table m) (lk_user_key key)
                                          (GetInternalKeySeqno (lk_internal_key key))));
           s0 = s\<lparr>sv_found_final_value := False, sv_merge_in_progress := (st_code (sv_status s) = KMergeInProgress),
                  sv_seq := kMaxSequenceNumber\<rparr>;
           (s1, r) = mr_Get ops (mt_table m) key (SaveValue g max_seq (lk_user_key key)) s0;
           s2 = (if \<not> sv_found_final_value s1 \<and> sv_merge_in_progress s1
                 then s1\<lparr>sv_status := MergeInProgress\<rparr> else s1)
       in (sv_found_final_value s2, s2, m\<lparr>mt_table := r\<rparr>))"

text \<open>The entries from the position of a lookup key on, while they are merge entries of the key.\<close>

fun count_merges :: "Comparator \<Rightarrow> slice \<Rightarrow> bytes list \<Rightarrow> nat" where
  "count_merges c ukey [] = 0"
| "count_merges c ukey (e # es) =
    (let ikey = fst (prefixed_slice e)
     in if \<not> cmp_Equal c (take (length ikey - 8) ikey) ukey then 0
        else if snd (UnPackSequenceAndType (DecodeFixed64 (drop (length ikey - 8) ikey))) \<noteq> kTypeMerge then 0
        else 1 + count_merges c ukey es)"

definition CountSuccessiveMergeEntries :: "'r MemTableRep \<Rightarrow> Comparator \<Rightarrow> LookupKey \<Rightarrow> 'r MemTable \<Rightarrow> nat" where
  "CountSuccessiveMergeEntries ops c key m =
    count_merges c (lk_user_key key) (mr_entries_from ops (mt_table m) (lk_memtable_key key))"

section \<open>Well-formed entries\<close>

definition sizes_ok :: "slice \<Rightarrow> slice \<Rightarrow> bool" where
  "sizes_ok key v \<longleftrightarrow> length key + 8 < 2 ^ 32 \<and> length v < 2 ^ 32"

lemma prefixed_slice_Encode:
  "length x < 2 ^ 32 \<Longrightarrow> prefixed_slice (EncodeVarint32 (word_of_nat (length x)) @ x @ r) = (x, r)"
  using GetVarint32_Encode [of "word_of_nat (length x)" "x @ r"]
  by (simp add: prefixed_slice_def GetVarint32_def unsigned_of_nat take_bit_nat_eq_self split: option.splits)

lemma encode_entry_eq:
  assumes "sizes_ok key v"
  shows "encode_entry s t key v =
    EncodeVarint32 (word_of_nat (length (InternalKey key s t))) @ InternalKey key s t
    @ EncodeVarint32 (word_of_nat (length v)) @ v"
proof -
  have "unat (word_of_nat (length key) :: u32) = length key" "unat (word_of_nat (length v) :: u32) = length v"
    using assms by (simp_all add: sizes_ok_def unsigned_of_nat take_bit_nat_eq_self)
  then show ?thesis by (simp add: encode_entry_def Let_def InternalKey_eq)
qed

lemma prefixed_entry:
  assumes "sizes_ok key v"
  shows "prefixed_slice (encode_entry s t key v) = (InternalKey key s t, EncodeVarint32 (word_of_nat (length v)) @ v)"
proof -
  have "length (InternalKey key s t) < 2 ^ 32" using assms by (simp add: sizes_ok_def)
  from prefixed_slice_Encode [OF this] show ?thesis unfolding encode_entry_eq [OF assms] by simp
qed

lemma prefixed_value:
  assumes "sizes_ok key v"
  shows "prefixed_slice (EncodeVarint32 (word_of_nat (length v)) @ v) = (v, [])"
  using prefixed_slice_Encode [of v "[]"] assms by (simp add: sizes_ok_def)

lemma prefixed_lookup_key:
  assumes "length u + 8 < 2 ^ 32"
  shows "prefixed_slice (lk_memtable_key (LookupKey_new u s)) = (InternalKey u s kValueTypeForSeek, [])"
  using prefixed_slice_Encode [of "InternalKey u s kValueTypeForSeek" "[]"] assms by (simp add: lookup_key_parts)

lemma seqno_InternalKey: "s \<le> kMaxSequenceNumber \<Longrightarrow> GetInternalKeySeqno (InternalKey u s t) = s"
  by (simp add: GetInternalKeySeqno_def InternalKey_eq unpack_pack)

lemma UnPack_Pack: "s \<le> kMaxSequenceNumber \<Longrightarrow> UnPackSequenceAndType (PackSequenceAndType s t) = (s, t)"
  by (simp add: UnPackSequenceAndType_def unpack_pack)

text \<open>The order of entries, by key and descending sequence number.\<close>

definition seq_compare :: "Comparator \<Rightarrow> slice \<Rightarrow> u64 \<Rightarrow> slice \<Rightarrow> u64 \<Rightarrow> int" where
  "seq_compare c u s u' s' =
    (let r = cmp_Compare c u u' in if r \<noteq> 0 then r else if s' < s then - 1 else if s < s' then 1 else 0)"

lemma keyed_InternalKey:
  "s \<le> kMaxSequenceNumber \<Longrightarrow> s' \<le> kMaxSequenceNumber \<Longrightarrow>
    keyed_compare c GetInternalKeySeqno (InternalKey u s t) (InternalKey u' s' t') = seq_compare c u s u' s'"
  by (simp add: keyed_compare_def seq_compare_def seqno_InternalKey Let_def)

lemma KeyComparator_entries:
  assumes "sizes_ok u v" "sizes_ok u' v'" "s \<le> kMaxSequenceNumber" "s' \<le> kMaxSequenceNumber"
  shows "KeyComparator c (encode_entry s t u v) (encode_entry s' t' u' v') = seq_compare c u s u' s'"
  using assms by (simp add: KeyComparator_def prefixed_entry IKC_CompareKeySeq_keyed keyed_InternalKey)

lemma KeyComparator_lookup:
  assumes "sizes_ok u v" "length u' + 8 < 2 ^ 32" "s \<le> kMaxSequenceNumber" "s' \<le> kMaxSequenceNumber"
  shows "KeyComparator c (encode_entry s t u v) (lk_memtable_key (LookupKey_new u' s')) = seq_compare c u s u' s'"
  using assms by (simp add: KeyComparator_def prefixed_entry prefixed_lookup_key IKC_CompareKeySeq_keyed keyed_InternalKey)

section \<open>Sorting\<close>

lemma mset_insert_sorted [simp]: "mset (insert_sorted cmp x xs) = add_mset x (mset xs)"
  by (induction xs) auto

lemma mset_sort_entries [simp]: "mset (sort_entries cmp xs) = mset xs"
  by (induction xs) (auto simp: sort_entries_def)

lemma set_sort_entries [simp]: "set (sort_entries cmp xs) = set xs"
  using mset_eq_setD [OF mset_sort_entries] .

lemma length_sort_entries [simp]: "length (sort_entries cmp xs) = length xs"
  using mset_eq_length [OF mset_sort_entries] .

text \<open>The contract of a comparison of entries, on the entries of \<open>A\<close>.\<close>

locale entry_order =
  fixes cmp :: "bytes \<Rightarrow> bytes \<Rightarrow> int" and A :: "bytes set"
  assumes cmp_swap: "a \<in> A \<Longrightarrow> b \<in> A \<Longrightarrow> cmp b a < 0 \<longleftrightarrow> 0 < cmp a b"
    and cmp_trans: "a \<in> A \<Longrightarrow> b \<in> A \<Longrightarrow> d \<in> A \<Longrightarrow> cmp a b \<le> 0 \<Longrightarrow> cmp b d \<le> 0 \<Longrightarrow> cmp a d \<le> 0"
begin

lemma insert_sorted_sorted:
  assumes "x \<in> A" "set xs \<subseteq> A" "sorted_wrt (\<lambda>a b. cmp a b \<le> 0) xs"
  shows "sorted_wrt (\<lambda>a b. cmp a b \<le> 0) (insert_sorted cmp x xs)"
  using assms
proof (induction xs)
  case (Cons y ys)
  have set: "set (insert_sorted cmp x ys) = insert x (set ys)"
    using mset_eq_setD [of "insert_sorted cmp x ys" "x # ys"] by simp
  show ?case
  proof (cases "cmp y x < 0")
    case True
    then show ?thesis using Cons set by auto
  next
    case False
    then have xy: "cmp x y \<le> 0" using cmp_swap [of x y] Cons.prems by auto
    then have "cmp x z \<le> 0" if "z \<in> set ys" for z
      using cmp_trans [of x y z] Cons.prems that by auto
    then show ?thesis using False xy Cons.prems by auto
  qed
qed simp

lemma sort_entries_sorted:
  "set xs \<subseteq> A \<Longrightarrow> sorted_wrt (\<lambda>a b. cmp a b \<le> 0) (sort_entries cmp xs)"
proof (induction xs)
  case (Cons x xs)
  then show ?case
    using insert_sorted_sorted [of x "sort_entries cmp xs"] by (simp add: sort_entries_def [of _ "x # xs"] sort_entries_def [of _ xs, symmetric])
qed (simp add: sort_entries_def)

lemma lower_bound_splits:
  assumes "set xs \<subseteq> A" "k \<in> A" "sorted_wrt (\<lambda>a b. cmp a b \<le> 0) xs"
  shows "drop (lower_bound cmp k xs) xs = filter (\<lambda>e. 0 \<le> cmp e k) xs"
  using assms
proof (induction xs)
  case (Cons x xs)
  show ?case
  proof (cases "cmp x k < 0")
    case True
    then show ?thesis using Cons by (simp add: lower_bound_def)
  next
    case False
    have "0 \<le> cmp y k" if "y \<in> set xs" for y
    proof -
      have "cmp k x \<le> 0" using False cmp_swap [of k x] Cons.prems by auto
      then have "cmp k y \<le> 0" using cmp_trans [of k x y] Cons.prems that by auto
      then show ?thesis using cmp_swap [of k y] Cons.prems that by force
    qed
    then show ?thesis using False by (simp add: lower_bound_def)
  qed
qed (simp add: lower_bound_def)

end

section \<open>The contract of a container\<close>

text \<open>
  A container in the active memtable takes every entry whose key and sequence number are new; \<^verbatim>\<open>Get\<close> runs
  the callback on the entries from the lookup key on, in ascending order, until it returns false.
\<close>

locale memtable_rep = comparator c "\<lambda>_. True" for c +
  fixes ops :: "'r MemTableRep" and elems :: "'r \<Rightarrow> bytes multiset" and active inv :: "'r \<Rightarrow> bool"
  assumes active_inv: "active r \<Longrightarrow> inv r"
    and insert_new: "active r \<Longrightarrow> (\<And>e. e \<in># elems r \<Longrightarrow> KeyComparator c e x \<noteq> 0) \<Longrightarrow>
      \<exists>r'. mr_InsertKey ops r x = (True, r') \<and> elems r' = add_mset x (elems r) \<and> active r'"
    and get_visits: "inv r \<Longrightarrow> sorted_wrt (\<lambda>a b. KeyComparator c a b < 0) xs \<Longrightarrow>
      mset xs = filter_mset (\<lambda>e. 0 \<le> KeyComparator c e (lk_memtable_key k)) (elems r) \<Longrightarrow>
      \<exists>r'. mr_Get ops r k cb s = (callback_loop cb xs s, r') \<and> elems r' = elems r \<and> inv r' \<and> (active r \<longrightarrow> active r')"

lemma comparator_entry_order:
  assumes "comparator c (\<lambda>_. True)"
  shows "entry_order (KeyComparator c) UNIV"
  using comparator.keyed_swap [OF assms] comparator.keyed_trans [OF assms]
  by unfold_locales (auto simp: KeyComparator_def IKC_CompareKeySeq_keyed)

interpretation bytewise_entries: entry_order "KeyComparator BytewiseComparator" UNIV
  by (rule comparator_entry_order) (rule bytewise.comparator_axioms)

lemma strictly_sorted_unique:
  assumes "entry_order cmp UNIV" "sorted_wrt (\<lambda>a b. cmp a b < 0) xs" "mset xs = mset ys"
    "sorted_wrt (\<lambda>a b. cmp a b \<le> 0) ys"
  shows "xs = ys"
  using assms(2-)
proof (induction xs arbitrary: ys)
  case (Cons x xs)
  then obtain y ys' where ys: "ys = y # ys'" by (cases ys) auto
  have "x = y"
  proof (rule ccontr)
    assume "x \<noteq> y"
    then have "y \<in> set xs" "x \<in> set ys'"
      using mset_eq_setD [OF Cons.prems(2)] ys by auto
    then have "cmp x y < 0" "cmp y x \<le> 0" using Cons.prems(1,3) ys by auto
    then show False using entry_order.cmp_swap [OF assms(1), of y x] by auto
  qed
  then show ?case using Cons.IH [of ys'] Cons.prems ys by auto
qed simp

lemma DoSort_shared:
  "vi_sorted it \<Longrightarrow> DoSort c (r, it) = (r, it)"
  by (simp add: DoSort_def)

lemma vector_get_loop_eq:
  assumes "vi_sorted it" "vi_cit it \<le> length (vi_bucket r it)" "length (vi_bucket r it) - vi_cit it < n"
  shows "vector_get_loop n c cb (r, it) s = (callback_loop cb (drop (vi_cit it) (vi_bucket r it)) s, r)"
  using assms
proof (induction n arbitrary: it s)
  case (Suc n)
  show ?case
  proof (cases "vi_cit it = length (vi_bucket r it)")
    case True
    then show ?thesis using Suc.prems(1) by (simp add: VectorIter_Valid_def DoSort_shared)
  next
    case False
    then have lt: "vi_cit it < length (vi_bucket r it)" using Suc.prems(2) by simp
    then have "drop (vi_cit it) (vi_bucket r it) =
        vi_bucket r it ! vi_cit it # drop (Suc (vi_cit it)) (vi_bucket r it)"
      by (simp add: Cons_nth_drop_Suc)
    moreover have "vi_bucket r (it\<lparr>vi_cit := Suc (vi_cit it)\<rparr>) = vi_bucket r it" by (simp add: vi_bucket_def)
    ultimately show ?thesis
      using Suc.IH [of "it\<lparr>vi_cit := Suc (vi_cit it)\<rparr>"] Suc.prems lt False
      by (auto simp: VectorIter_Valid_def DoSort_shared VectorIter_key_def VectorIter_Next_def split: prod.splits)
  qed
qed simp

definition sorted_bucket :: "Comparator \<Rightarrow> VectorRep \<Rightarrow> bytes list" where
  "sorted_bucket c r =
    (if vr_immutable r \<and> vr_sorted r then vr_bucket r else sort_entries (KeyComparator c) (vr_bucket r))"

lemma VectorRep_Get_eq:
  "VectorRep_Get c r k cb s =
    (callback_loop cb (drop (lower_bound (KeyComparator c) (lk_memtable_key k) (sorted_bucket c r)) (sorted_bucket c r)) s,
     if vr_immutable r then r\<lparr>vr_bucket := sorted_bucket c r, vr_sorted := True\<rparr> else r)"
proof -
  let ?ys = "sorted_bucket c r"
  let ?r = "if vr_immutable r then r\<lparr>vr_bucket := ?ys, vr_sorted := True\<rparr> else r"
  let ?it = "\<lparr>vi_shared = vr_immutable r, vi_copy = (if vr_immutable r then [] else ?ys),
    vi_cit = lower_bound (KeyComparator c) (lk_memtable_key k) ?ys, vi_sorted = True\<rparr>"
  have seek: "VectorIter_Seek c (lk_user_key k) (Some (lk_memtable_key k)) (r, VectorRep_GetIterator r) = (?r, ?it)"
    by (auto simp: VectorIter_Seek_def DoSort_def VectorRep_GetIterator_def vi_bucket_def sorted_bucket_def)
  have bucket: "vi_bucket ?r ?it = ?ys" by (simp add: vi_bucket_def)
  have "lower_bound (KeyComparator c) (lk_memtable_key k) ?ys \<le> length ?ys"
    by (simp add: lower_bound_def length_takeWhile_le)
  moreover have "length ?ys = length (vr_bucket r)" by (simp add: sorted_bucket_def)
  ultimately show ?thesis
    unfolding VectorRep_Get_def seek using vector_get_loop_eq [of ?it ?r "length (vr_bucket r) + 1" c cb s] bucket
    by simp
qed

definition vector_active :: "VectorRep \<Rightarrow> bool" where
  "vector_active r \<longleftrightarrow> \<not> vr_immutable r \<and> \<not> vr_sorted r"

definition vector_inv :: "Comparator \<Rightarrow> VectorRep \<Rightarrow> bool" where
  "vector_inv c r \<longleftrightarrow> (vr_sorted r \<longrightarrow>
     vr_immutable r \<and> sorted_wrt (\<lambda>a b. KeyComparator c a b \<le> 0) (vr_bucket r))"

lemma vector_memtable_rep:
  assumes "comparator c (\<lambda>_. True)"
  shows "memtable_rep c (VectorRep_ops c) (\<lambda>r. mset (vr_bucket r)) vector_active (vector_inv c)"
proof -
  note eo = comparator_entry_order [OF assms]
  have sorted: "sorted_wrt (\<lambda>a b. KeyComparator c a b \<le> 0) (sorted_bucket c r)" if "vector_inv c r" for r
    using that entry_order.sort_entries_sorted [OF eo, of "vr_bucket r"] by (auto simp: sorted_bucket_def vector_inv_def)
  have mset: "mset (sorted_bucket c r) = mset (vr_bucket r)" for r by (simp add: sorted_bucket_def)
  show ?thesis
  proof (intro memtable_rep.intro [OF assms] memtable_rep_axioms.intro)
    fix r xs k s and cb :: "bytes \<Rightarrow> Saver \<Rightarrow> bool \<times> Saver"
    assume inv: "vector_inv c r" and xs: "sorted_wrt (\<lambda>a b. KeyComparator c a b < 0) xs"
      "mset xs = filter_mset (\<lambda>e. 0 \<le> KeyComparator c e (lk_memtable_key k)) (mset (vr_bucket r))"
    let ?ys = "filter (\<lambda>e. 0 \<le> KeyComparator c e (lk_memtable_key k)) (sorted_bucket c r)"
    have "xs = ?ys"
    proof (rule strictly_sorted_unique [OF eo xs(1)])
      show "mset xs = mset ?ys" by (simp add: xs(2) mset)
      show "sorted_wrt (\<lambda>a b. KeyComparator c a b \<le> 0) ?ys" by (rule sorted_wrt_filter) (rule sorted [OF inv])
    qed
    then have "drop (lower_bound (KeyComparator c) (lk_memtable_key k) (sorted_bucket c r)) (sorted_bucket c r) = xs"
      using entry_order.lower_bound_splits [OF eo _ _ sorted [OF inv]] by simp
    then show "\<exists>r'. mr_Get (VectorRep_ops c) r k cb s = (callback_loop cb xs s, r') \<and>
        mset (vr_bucket r') = mset (vr_bucket r) \<and> vector_inv c r' \<and> (vector_active r \<longrightarrow> vector_active r')"
      using sorted [OF inv] inv by (auto simp: VectorRep_ops_def VectorRep_Get_eq mset vector_inv_def vector_active_def)
  qed (auto simp: vector_active_def vector_inv_def VectorRep_ops_def VectorRep_Insert_def)
qed

interpretation bytewise_vector: memtable_rep BytewiseComparator "VectorRep_ops BytewiseComparator"
    "\<lambda>r. mset (vr_bucket r)" vector_active "vector_inv BytewiseComparator"
  by (rule vector_memtable_rep) (rule bytewise.comparator_axioms)

section \<open>What a memtable holds\<close>

text \<open>An abstract entry: user key, sequence number, type, value.\<close>

type_synonym mt_entry = "slice \<times> u64 \<times> byte \<times> slice"

definition mt_encode :: "mt_entry \<Rightarrow> bytes" where
  "mt_encode e = (case e of (u, s, t, v) \<Rightarrow> encode_entry s t u v)"

definition mt_entry_ok :: "mt_entry \<Rightarrow> bool" where
  "mt_entry_ok e = (case e of (u, s, t, v) \<Rightarrow>
     sizes_ok u v \<and> 0 < s \<and> s \<le> kMaxSequenceNumber \<and> t \<noteq> kTypeRangeDeletion)"

definition mt_compare :: "Comparator \<Rightarrow> mt_entry \<Rightarrow> mt_entry \<Rightarrow> int" where
  "mt_compare c a b = seq_compare c (fst a) (fst (snd a)) (fst b) (fst (snd b))"

definition mt_holds :: "Comparator \<Rightarrow> ('r \<Rightarrow> bytes multiset) \<Rightarrow> 'r MemTable \<Rightarrow> mt_entry list \<Rightarrow> bool" where
  "mt_holds c elems m es \<longleftrightarrow>
    elems (mt_table m) = mset (map mt_encode es) \<and> (\<forall>e\<in>set es. mt_entry_ok e) \<and>
    sorted_wrt (\<lambda>a b. mt_compare c a b \<noteq> 0) es \<and> (mt_first_seqno m = 0 \<longleftrightarrow> es = []) \<and> mt_is_range_del_table_empty m"

text \<open>The version of a key that a read at sequence number \<open>s\<close> sees.\<close>

definition version_of :: "Comparator \<Rightarrow> slice \<Rightarrow> u64 \<Rightarrow> mt_entry \<Rightarrow> bool" where
  "version_of c u s e \<longleftrightarrow> cmp_Compare c (fst e) u = 0 \<and> fst (snd e) \<le> s"

definition newest_version :: "Comparator \<Rightarrow> mt_entry list \<Rightarrow> slice \<Rightarrow> u64 \<Rightarrow> mt_entry \<Rightarrow> bool" where
  "newest_version c es u s e \<longleftrightarrow> e \<in> set es \<and> version_of c u s e \<and>
    (\<forall>e'\<in>set es. version_of c u s e' \<longrightarrow> fst (snd e') \<le> fst (snd e))"

lemma KeyComparator_mt:
  "mt_entry_ok a \<Longrightarrow> mt_entry_ok b \<Longrightarrow> KeyComparator c (mt_encode a) (mt_encode b) = mt_compare c a b"
  by (auto simp: mt_entry_ok_def mt_encode_def mt_compare_def KeyComparator_entries split: prod.splits)

lemma KeyComparator_mt_lookup:
  "mt_entry_ok a \<Longrightarrow> length u + 8 < 2 ^ 32 \<Longrightarrow> s \<le> kMaxSequenceNumber \<Longrightarrow>
    KeyComparator c (mt_encode a) (lk_memtable_key (LookupKey_new u s)) = seq_compare c (fst a) (fst (snd a)) u s"
  by (auto simp: mt_entry_ok_def mt_encode_def KeyComparator_lookup split: prod.splits)

text \<open>\<^verbatim>\<open>SaveValue\<close> on an entry of another key, and on a plain entry of the key.\<close>

lemma SaveValue_other:
  assumes "mt_entry_ok e" "\<not> cmp_Equal (gc_comparator g) (fst e) u"
  shows "SaveValue g 0 u (mt_encode e) s = (False, s)"
proof -
  obtain k q t v where e: "e = (k, q, t, v)" by (cases e)
  have "sizes_ok k v" using assms(1) by (simp add: e mt_entry_ok_def)
  then show ?thesis using assms(2)
    by (simp add: SaveValue_def Let_def e mt_encode_def prefixed_entry InternalKey_eq)
qed

definition plain_type :: "byte \<Rightarrow> bool" where
  "plain_type t \<longleftrightarrow> t = kTypeValue \<or> t = kTypeDeletion \<or> t = kTypeSingleDeletion"

definition plain_result :: "get_context \<Rightarrow> mt_entry \<Rightarrow> Saver \<Rightarrow> Saver" where
  "plain_result g e s = (case e of (u, q, t, v) \<Rightarrow>
     if t = kTypeValue then
       let s = s\<lparr>sv_seq := q, sv_status := Status_OK, sv_value := v, sv_found_final_value := True\<rparr>
       in if gc_allow_blob g then s\<lparr>sv_is_blob_index := False\<rparr> else s
     else s\<lparr>sv_seq := q, sv_status := NotFound [], sv_found_final_value := True\<rparr>)"

lemma SaveValue_plain:
  assumes "mt_entry_ok e" "cmp_Equal (gc_comparator g) (fst e) u" "gc_is_visible g (fst (snd e))"
    "plain_type (fst (snd (snd e)))" "\<not> sv_merge_in_progress s"
  shows "SaveValue g 0 u (mt_encode e) s = (False, plain_result g e s)"
proof -
  obtain k q t v where e: "e = (k, q, t, v)" by (cases e)
  have sz: "sizes_ok k v" and q: "q \<le> kMaxSequenceNumber" using assms(1) by (simp_all add: e mt_entry_ok_def)
  have "\<not> q < 0" by simp
  with assms(2-) show ?thesis
    by (auto simp: SaveValue_def Let_def e mt_encode_def prefixed_entry [OF sz] prefixed_value [OF sz] InternalKey_eq
        UnPack_Pack [OF q] plain_type_def plain_result_def value_type_defs)
qed

context entry_order
begin

lemma insert_sorted_strict:
  assumes "x \<in> A" "set xs \<subseteq> A" "sorted_wrt (\<lambda>a b. cmp a b < 0) xs" "\<forall>y\<in>set xs. cmp x y \<noteq> 0"
  shows "sorted_wrt (\<lambda>a b. cmp a b < 0) (insert_sorted cmp x xs)"
  using assms
proof (induction xs)
  case (Cons y ys)
  have set: "set (insert_sorted cmp x ys) = insert x (set ys)"
    using mset_eq_setD [of "insert_sorted cmp x ys" "x # ys"] by simp
  show ?case
  proof (cases "cmp y x < 0")
    case True
    then show ?thesis using Cons set by auto
  next
    case False
    then have xy: "cmp x y < 0" using cmp_swap [of x y] Cons.prems by fastforce
    then have "cmp x z < 0" if "z \<in> set ys" for z
      using cmp_trans [of x y z] Cons.prems that by (auto simp: order_less_le)
    then show ?thesis using False xy Cons.prems by auto
  qed
qed simp

lemma sort_entries_strict:
  "set xs \<subseteq> A \<Longrightarrow> sorted_wrt (\<lambda>a b. cmp a b \<noteq> 0) xs \<Longrightarrow> sorted_wrt (\<lambda>a b. cmp a b < 0) (sort_entries cmp xs)"
proof (induction xs)
  case (Cons x xs)
  then show ?case using insert_sorted_strict [of x "sort_entries cmp xs"]
    by (simp add: sort_entries_def [of _ "x # xs"] sort_entries_def [of _ xs, symmetric])
qed (simp add: sort_entries_def)

end

lemma sorted_wrt_map_ok:
  assumes "\<forall>e\<in>set es. mt_entry_ok e" "sorted_wrt (\<lambda>a b. mt_compare c a b \<noteq> 0) es"
  shows "sorted_wrt (\<lambda>a b. KeyComparator c a b \<noteq> 0) (map mt_encode es)"
  using assms by (induction es) (auto simp: KeyComparator_mt)

context memtable_rep
begin

lemma MemTable_Add_new:
  assumes holds: "mt_holds c elems m es" and active: "active (mt_table m)"
    and e: "mt_entry_ok (u, s, t, v)" "\<forall>e\<in>set es. mt_compare c e (u, s, t, v) \<noteq> 0"
  shows "\<exists>m'. MemTable_Add ops m s t u v = (True, m') \<and> mt_holds c elems m' (es @ [(u, s, t, v)]) \<and> active (mt_table m')"
proof -
  have t: "t \<noteq> kTypeRangeDeletion" and s: "s \<noteq> 0" using e(1) by (auto simp: mt_entry_ok_def)
  have "KeyComparator c x (encode_entry s t u v) \<noteq> 0" if "x \<in># elems (mt_table m)" for x
    using that holds e KeyComparator_mt [OF _ e(1), of _ c] by (auto simp: mt_holds_def mt_encode_def [of "(u, s, t, v)"])
  from insert_new [OF active this] obtain r' where r': "mr_InsertKey ops (mt_table m) (encode_entry s t u v) = (True, r')"
    "elems r' = add_mset (encode_entry s t u v) (elems (mt_table m))" "active r'" by auto
  show ?thesis
    using holds e r' t s
    by (auto simp: MemTable_Add_def table_insert_def Let_def mt_holds_def mt_encode_def sorted_wrt_append)
qed

text \<open>\<^verbatim>\<open>Get\<close> runs its callback on the sorted entries from the lookup key on.\<close>

lemma visited_entries:
  assumes "mt_holds c elems m es" "inv (mt_table m)"
  shows "\<exists>xs r'. mset xs = filter_mset (\<lambda>e. 0 \<le> KeyComparator c e (lk_memtable_key k)) (mset (map mt_encode es)) \<and>
    sorted_wrt (\<lambda>a b. KeyComparator c a b < 0) xs \<and>
    mr_Get ops (mt_table m) k cb s = (callback_loop cb xs s, r') \<and> elems r' = elems (mt_table m) \<and> inv r' \<and>
    (active (mt_table m) \<longrightarrow> active r')"
proof -
  let ?xs = "filter (\<lambda>e. 0 \<le> KeyComparator c e (lk_memtable_key k)) (sort_entries (KeyComparator c) (map mt_encode es))"
  have sorted: "sorted_wrt (\<lambda>a b. KeyComparator c a b < 0) ?xs"
    using assms(1) entry_order.sort_entries_strict [OF comparator_entry_order [OF comparator_axioms]]
    by (intro sorted_wrt_filter) (auto simp: mt_holds_def intro!: sorted_wrt_map_ok)
  have mset: "mset ?xs = filter_mset (\<lambda>e. 0 \<le> KeyComparator c e (lk_memtable_key k)) (elems (mt_table m))"
    using assms(1) by (simp add: mt_holds_def)
  obtain r' where "mr_Get ops (mt_table m) k cb s = (callback_loop cb ?xs s, r')" "elems r' = elems (mt_table m)"
    "inv r'" "active (mt_table m) \<longrightarrow> active r'"
    using get_visits [OF assms(2) sorted mset, of cb s] by blast
  then show ?thesis using sorted mset assms(1) unfolding mt_holds_def by metis
qed

end

definition start_saver :: "Saver \<Rightarrow> Saver" where
  "start_saver sv = sv\<lparr>sv_found_final_value := False, sv_merge_in_progress := False, sv_seq := kMaxSequenceNumber\<rparr>"

lemma start_saver_simps [simp]:
  "sv_found_final_value (start_saver sv) = False" "sv_merge_in_progress (start_saver sv) = False"
  "sv_status (start_saver sv) = sv_status sv" "sv_value (start_saver sv) = sv_value sv"
  by (simp_all add: start_saver_def)

context memtable_rep
begin

lemma compare_cong_right:
  "cmp_Compare c b d = 0 \<Longrightarrow> cmp_Compare c a b < 0 \<Longrightarrow> cmp_Compare c a d < 0"
  "cmp_Compare c b d = 0 \<Longrightarrow> cmp_Compare c a b = 0 \<Longrightarrow> cmp_Compare c a d = 0"
  using compare_less_le_trans [of a b d] compare_trans [of a b d] compare_trans [of d b a]
    compare_zero_sym [of b d] compare_zero_sym [of a b] compare_swap [of a d]
  by force+

lemma newest_first:
  assumes ok: "\<forall>e\<in>set es. mt_entry_ok e" and u: "length u + 8 < 2 ^ 32" "s \<le> kMaxSequenceNumber"
    and xs: "mset xs = filter_mset (\<lambda>e. 0 \<le> KeyComparator c e (lk_memtable_key (LookupKey_new u s))) (mset (map mt_encode es))"
      "sorted_wrt (\<lambda>a b. KeyComparator c a b < 0) xs"
    and new: "newest_version c es u s e"
  shows "\<exists>ys. xs = mt_encode e # ys"
proof -
  have mem: "x \<in> set xs \<longleftrightarrow> (\<exists>e\<in>set es. x = mt_encode e \<and> 0 \<le> seq_compare c (fst e) (fst (snd e)) u s)" for x
  proof -
    have "x \<in> set xs \<longleftrightarrow> x \<in># mset xs" by simp
    also have "\<dots> \<longleftrightarrow> (\<exists>e\<in>set es. x = mt_encode e \<and> 0 \<le> seq_compare c (fst e) (fst (snd e)) u s)"
      unfolding xs(1) using ok KeyComparator_mt_lookup [OF _ u] by auto
    finally show ?thesis .
  qed
  have e: "e \<in> set es" "cmp_Compare c (fst e) u = 0" "fst (snd e) \<le> s"
    using new by (auto simp: newest_version_def version_of_def)
  have "mt_encode e \<in> set xs" unfolding mem using e by (auto simp: seq_compare_def)
  then obtain h ys where h: "xs = h # ys" by (cases xs) auto
  then obtain e' where e': "e' \<in> set es" "h = mt_encode e'" "0 \<le> seq_compare c (fst e') (fst (snd e')) u s"
    using mem [of h] by auto
  have "h = mt_encode e"
  proof (rule ccontr)
    assume "h \<noteq> mt_encode e"
    then have "mt_compare c e' e < 0"
      using xs(2) h \<open>mt_encode e \<in> set xs\<close> e' KeyComparator_mt [of e' e c] ok e(1) by auto
    then have lt: "cmp_Compare c (fst e') (fst e) < 0 \<or> cmp_Compare c (fst e') (fst e) = 0 \<and> fst (snd e) < fst (snd e')"
      by (auto simp: mt_compare_def seq_compare_def Let_def split: if_splits)
    then have "version_of c u s e' \<and> fst (snd e) < fst (snd e')"
      using e'(3) compare_cong_right [OF e(2), of "fst e'"]
      by (auto simp: version_of_def seq_compare_def Let_def split: if_splits)
    then show False using new e'(1) by (auto simp: newest_version_def)
  qed
  then show ?thesis using h by blast
qed

lemma no_version_first:
  assumes ok: "\<forall>e\<in>set es. mt_entry_ok e" and u: "length u + 8 < 2 ^ 32" "s \<le> kMaxSequenceNumber"
    and xs: "mset xs = filter_mset (\<lambda>e. 0 \<le> KeyComparator c e (lk_memtable_key (LookupKey_new u s))) (mset (map mt_encode es))"
    and none: "\<forall>e\<in>set es. \<not> version_of c u s e"
  shows "xs = [] \<or> (\<exists>e\<in>set es. \<exists>ys. xs = mt_encode e # ys \<and> cmp_Compare c (fst e) u \<noteq> 0)"
proof (cases xs)
  case (Cons h ys)
  then have "h \<in># mset xs" by simp
  then obtain e where e: "e \<in> set es" "h = mt_encode e" "0 \<le> seq_compare c (fst e) (fst (snd e)) u s"
    unfolding xs using ok KeyComparator_mt_lookup [OF _ u] by auto
  then have "cmp_Compare c (fst e) u \<noteq> 0"
    using none by (auto simp: version_of_def seq_compare_def Let_def split: if_splits)
  then show ?thesis using Cons e by blast
qed simp

lemma MemTable_Get_found:
  assumes holds: "mt_holds c elems m es" and inv: "inv (mt_table m)" and u: "length u + 8 < 2 ^ 32" "s \<le> kMaxSequenceNumber"
    and g: "gc_comparator g = c" "\<forall>q. gc_is_visible g q" and sv: "st_code (sv_status sv) \<noteq> KMergeInProgress"
    and new: "newest_version c es u s e" "plain_type (fst (snd (snd e)))"
  shows "\<exists>m'. MemTable_Get ops g mc (LookupKey_new u s) 0 sv m = (True, plain_result g e (start_saver sv), m') \<and>
    mt_holds c elems m' es \<and> inv (mt_table m') \<and> (active (mt_table m) \<longrightarrow> active (mt_table m'))"
proof -
  let ?cb = "SaveValue g 0 u"
  obtain xs r' where xs: "mset xs = filter_mset (\<lambda>e. 0 \<le> KeyComparator c e (lk_memtable_key (LookupKey_new u s))) (mset (map mt_encode es))"
      "sorted_wrt (\<lambda>a b. KeyComparator c a b < 0) xs"
    and get: "mr_Get ops (mt_table m) (LookupKey_new u s) ?cb (start_saver sv) = (callback_loop ?cb xs (start_saver sv), r')"
    and r': "elems r' = elems (mt_table m)" "inv r'" "active (mt_table m) \<longrightarrow> active r'"
    using visited_entries [OF holds inv] by metis
  have ok: "\<forall>e\<in>set es. mt_entry_ok e" and e: "e \<in> set es" "cmp_Compare c (fst e) u = 0"
    using holds new by (auto simp: mt_holds_def newest_version_def version_of_def)
  obtain ys where "xs = mt_encode e # ys" using newest_first [OF ok u xs new(1)] by blast
  then have loop: "callback_loop ?cb xs (start_saver sv) = plain_result g e (start_saver sv)"
    using SaveValue_plain [of e g u "start_saver sv"] ok e g new(2) equal_compare [of "fst e" u]
    by (simp add: start_saver_def)
  have first: "mt_first_seqno m \<noteq> 0" "mt_is_range_del_table_empty m" using holds e(1) by (auto simp: mt_holds_def)
  have sv0: "sv\<lparr>sv_found_final_value := False, sv_merge_in_progress := (st_code (sv_status sv) = KMergeInProgress),
      sv_seq := kMaxSequenceNumber\<rparr> = start_saver sv"
    using sv by (simp add: start_saver_def)
  have found: "sv_found_final_value (plain_result g e (start_saver sv))"
    by (auto simp: plain_result_def Let_def split: prod.splits)
  have "MemTable_Get ops g mc (LookupKey_new u s) 0 sv m = (True, plain_result g e (start_saver sv), m\<lparr>mt_table := r'\<rparr>)"
    using first found unfolding MemTable_Get_def sv0 lookup_key_parts by (simp add: get loop Let_def)
  then show ?thesis using holds r' by (auto simp: mt_holds_def)
qed

lemma MemTable_Get_missing:
  assumes holds: "mt_holds c elems m es" and inv: "inv (mt_table m)" and u: "length u + 8 < 2 ^ 32" "s \<le> kMaxSequenceNumber"
    and g: "gc_comparator g = c" and sv: "st_code (sv_status sv) \<noteq> KMergeInProgress"
    and none: "\<forall>e\<in>set es. \<not> version_of c u s e"
  shows "\<exists>sv' m'. MemTable_Get ops g mc (LookupKey_new u s) 0 sv m = (False, sv', m') \<and>
    sv_status sv' = sv_status sv \<and> sv_value sv' = sv_value sv \<and>
    mt_holds c elems m' es \<and> inv (mt_table m') \<and> (active (mt_table m) \<longrightarrow> active (mt_table m'))"
proof (cases "mt_first_seqno m = 0")
  case True
  then show ?thesis using holds inv by (simp add: MemTable_Get_def)
next
  case False
  let ?cb = "SaveValue g 0 u"
  obtain xs r' where xs: "mset xs = filter_mset (\<lambda>e. 0 \<le> KeyComparator c e (lk_memtable_key (LookupKey_new u s))) (mset (map mt_encode es))"
      "sorted_wrt (\<lambda>a b. KeyComparator c a b < 0) xs"
    and get: "mr_Get ops (mt_table m) (LookupKey_new u s) ?cb (start_saver sv) = (callback_loop ?cb xs (start_saver sv), r')"
    and r': "elems r' = elems (mt_table m)" "inv r'" "active (mt_table m) \<longrightarrow> active r'"
    using visited_entries [OF holds inv] by metis
  have ok: "\<forall>e\<in>set es. mt_entry_ok e" using holds by (simp add: mt_holds_def)
  have loop: "callback_loop ?cb xs (start_saver sv) = start_saver sv"
    using no_version_first [OF ok u xs(1) none] ok SaveValue_other [of _ g u "start_saver sv"] g equal_compare
    by auto
  have sv0: "sv\<lparr>sv_found_final_value := False, sv_merge_in_progress := (st_code (sv_status sv) = KMergeInProgress),
      sv_seq := kMaxSequenceNumber\<rparr> = start_saver sv"
    using sv by (simp add: start_saver_def)
  have "mt_is_range_del_table_empty m" using holds by (simp add: mt_holds_def)
  then have "MemTable_Get ops g mc (LookupKey_new u s) 0 sv m = (False, start_saver sv, m\<lparr>mt_table := r'\<rparr>)"
    using False unfolding MemTable_Get_def sv0 lookup_key_parts by (simp add: get loop Let_def)
  then show ?thesis using holds r' by (auto simp: mt_holds_def start_saver_def)
qed

end

section \<open>Reading what was added\<close>

fun mt_adds :: "'r MemTableRep \<Rightarrow> mt_entry list \<Rightarrow> 'r MemTable \<Rightarrow> 'r MemTable" where
  "mt_adds ops [] m = m"
| "mt_adds ops (e # es) m =
    mt_adds ops es (snd (MemTable_Add ops m (fst (snd e)) (fst (snd (snd e))) (fst e) (snd (snd (snd e)))))"

lemma mt_holds_new:
  "elems r = {#} \<Longrightarrow> mt_holds c elems (MemTable_new r r' l) []"
  by (simp add: mt_holds_def MemTable_new_def)

context memtable_rep
begin

lemma mt_adds_holds:
  assumes "mt_holds c elems m es" "active (mt_table m)" "\<forall>e\<in>set fs. mt_entry_ok e"
    "sorted_wrt (\<lambda>a b. mt_compare c a b \<noteq> 0) (es @ fs)"
  shows "mt_holds c elems (mt_adds ops fs m) (es @ fs) \<and> active (mt_table (mt_adds ops fs m))"
  using assms
proof (induction fs arbitrary: m es)
  case (Cons e fs)
  obtain u s t v where e: "e = (u, s, t, v)" by (cases e)
  obtain m' where "MemTable_Add ops m s t u v = (True, m')" "mt_holds c elems m' (es @ [e])" "active (mt_table m')"
    using MemTable_Add_new [of m es u s t v] Cons.prems by (auto simp: e sorted_wrt_append)
  then show ?case using Cons.IH [of m' "es @ [e]"] Cons.prems by (simp add: e)
qed simp

end

text \<open>
  C10: Reads of a memtable. For every container that keeps its contract and every comparator, after any
  sequence of values, deletions and single deletions with different keys or sequence numbers: a read at a
  snapshot gives the newest version of the key that is not newer than the snapshot, the value with
  status OK or NotFound for a deletion; and when there is no such version, \<^verbatim>\<open>Get\<close> reports that nothing
  was found and leaves the caller's status and value.
\<close>

theorem memtable_snapshot_reads:
  assumes rep: "memtable_rep c ops elems active good" and r: "active r" "elems r = {#}"
    and es: "\<forall>e\<in>set es. mt_entry_ok e \<and> plain_type (fst (snd (snd e)))" "sorted_wrt (\<lambda>a b. mt_compare c a b \<noteq> 0) es"
    and u: "length u + 8 < 2 ^ 32" "s \<le> kMaxSequenceNumber"
    and g: "gc_comparator g = c" "\<forall>q. gc_is_visible g q" and sv: "st_code (sv_status sv) \<noteq> KMergeInProgress"
  shows "(\<forall>e. newest_version c es u s e \<longrightarrow> (\<exists>m'.
        MemTable_Get ops g mc (LookupKey_new u s) 0 sv (mt_adds ops es (MemTable_new r r' l)) =
        (True, plain_result g e (start_saver sv), m'))) \<and>
    ((\<forall>e\<in>set es. \<not> version_of c u s e) \<longrightarrow> (\<exists>sv' m'.
        MemTable_Get ops g mc (LookupKey_new u s) 0 sv (mt_adds ops es (MemTable_new r r' l)) = (False, sv', m') \<and>
        sv_status sv' = sv_status sv \<and> sv_value sv' = sv_value sv))"
proof -
  let ?m = "mt_adds ops es (MemTable_new r r' l)"
  have act: "active (mt_table (MemTable_new r r' l))" using r(1) by (simp add: MemTable_new_def)
  have h: "mt_holds c elems ?m es" "active (mt_table ?m)"
    using memtable_rep.mt_adds_holds [OF rep mt_holds_new [where elems = elems, OF r(2)] act] es by auto
  have "good (mt_table ?m)" using memtable_rep.active_inv [OF rep h(2)] .
  note found = memtable_rep.MemTable_Get_found [OF rep h(1) this u g sv]
    and missing = memtable_rep.MemTable_Get_missing [OF rep h(1) this u g(1) sv]
  show ?thesis
    using found missing es(1) by (metis newest_version_def)
qed

definition demo_context :: get_context where
  "demo_context = \<lparr>gc_comparator = BytewiseComparator, gc_merge_operator = None, gc_is_visible = \<lambda>_. True,
    gc_allow_blob = False\<rparr>"

definition demo_saver :: Saver where
  "demo_saver = \<lparr>sv_status = Status_OK, sv_found_final_value = False, sv_merge_in_progress = False,
    sv_value = [], sv_seq = 0, sv_operands = [], sv_is_blob_index = False\<rparr>"

theorem memtable_snapshot_reads_witness:
  "\<exists>m'. MemTable_Get (VectorRep_ops BytewiseComparator) demo_context (\<lambda>_ _ _. 0) (LookupKey_new [7] 5) 0 demo_saver
      (mt_adds (VectorRep_ops BytewiseComparator) [([7], 3, kTypeValue, [1, 2]), ([7], 6, kTypeDeletion, [])]
        (MemTable_new VectorRep_new VectorRep_new 0)) =
    (True, plain_result demo_context ([7], 3, kTypeValue, [1, 2]) (start_saver demo_saver), m')"
proof -
  let ?es = "[([7], 3, kTypeValue, [1, 2]), ([7], 6, kTypeDeletion, [])] :: mt_entry list"
  have "newest_version BytewiseComparator ?es [7] 5 ([7], 3, kTypeValue, [1, 2])"
    by (auto simp: newest_version_def version_of_def BytewiseComparator_def)
  moreover have "\<forall>e\<in>set ?es. mt_entry_ok e \<and> plain_type (fst (snd (snd e)))"
    by (simp add: mt_entry_ok_def sizes_ok_def max_sequence plain_type_def value_type_defs)
  moreover have "sorted_wrt (\<lambda>a b. mt_compare BytewiseComparator a b \<noteq> 0) ?es"
    by (simp add: mt_compare_def seq_compare_def BytewiseComparator_def)
  ultimately show ?thesis
    using memtable_snapshot_reads [OF bytewise_vector.memtable_rep_axioms, of VectorRep_new ?es "[7]" 5 demo_context
        demo_saver "\<lambda>_ _ _. 0" VectorRep_new 0]
    by (auto simp: vector_active_def VectorRep_new_def demo_context_def demo_saver_def max_sequence Status_OK_def)
qed

section \<open>Sequence numbers under concurrent writers\<close>

text \<open>Two rounds of the second loop are enough: a failed exchange loads a number that is not greater than \<open>s\<close>.\<close>

lemma earliest_loop_bound:
  assumes "mt_first_seqno m \<le> s" "s < kMaxSequenceNumber"
  shows "earliest_loop (Suc (Suc n)) s cur m = earliest_loop 2 s cur m"
  using assms by (auto simp: numeral_2_eq_2)

text \<open>
  C31: A memtable that was created without a known sequence number gets its earliest sequence number from
  the first entry that is added. In the branch for concurrent writers, over any container that supports them, it
  never does: the loop that should lower \<^verbatim>\<open>earliest_seqno_\<close> exchanges \<^verbatim>\<open>first_seqno_\<close>. Over the vector container, which
  does not support them, that branch throws.
\<close>

theorem concurrent_add_keeps_earliest:
  assumes "mr_InsertKey ops r (encode_entry s t key v) = (True, r1)"
    "mr_InsertKeyConcurrently ops r (encode_entry s t key v) = Some (True, r2)"
    "t \<noteq> kTypeRangeDeletion" "s \<noteq> 0" "s < kMaxSequenceNumber"
  shows "mt_earliest_seqno (snd (MemTable_Add ops (MemTable_new r rd kMaxSequenceNumber) s t key v)) = s \<and>
    (\<exists>m info'. MemTable_AddConcurrent ops (MemTable_new r rd kMaxSequenceNumber) s t key v info = Some (True, m, info') \<and>
       mt_table m = r2 \<and> mt_first_seqno m = s \<and> mt_earliest_seqno m = kMaxSequenceNumber) \<and>
    MemTable_AddConcurrent (VectorRep_ops c) m0 s t key v info = None"
  using assms by (auto simp: MemTable_Add_def MemTable_AddConcurrent_def table_insert_def table_insert_concurrently_def
      MemTable_new_def lower_first_seqno_def numeral_2_eq_2 Let_def VectorRep_ops_def MemTableRep_InsertKeyConcurrently_def)

text \<open>A container whose concurrent insert is one atomic insert into the vector.\<close>

definition atomic_rep :: "VectorRep MemTableRep" where
  "atomic_rep = (VectorRep_ops BytewiseComparator)
    \<lparr>mr_InsertKeyConcurrently := \<lambda>r e. Some (True, VectorRep_Insert r e)\<rparr>"

theorem concurrent_add_keeps_earliest_witness:
  "mt_earliest_seqno (snd (MemTable_Add atomic_rep
      (MemTable_new VectorRep_new VectorRep_new kMaxSequenceNumber) 5 kTypeValue [1] [2])) = 5 \<and>
   (\<exists>m info'. MemTable_AddConcurrent atomic_rep (MemTable_new VectorRep_new VectorRep_new kMaxSequenceNumber) 5 kTypeValue [1] [2]
        \<lparr>pp_data_size = 0, pp_num_entries = 0, pp_num_deletes = 0\<rparr> = Some (True, m, info') \<and>
      mt_earliest_seqno m = kMaxSequenceNumber) \<and>
   MemTable_AddConcurrent (VectorRep_ops BytewiseComparator) (MemTable_new VectorRep_new VectorRep_new 0) 5 kTypeValue [1] [2]
     \<lparr>pp_data_size = 0, pp_num_entries = 0, pp_num_deletes = 0\<rparr> = None"
proof -
  let ?r = "VectorRep_Insert VectorRep_new (encode_entry 5 kTypeValue [1] [2])"
  have i: "mr_InsertKey atomic_rep VectorRep_new (encode_entry 5 kTypeValue [1] [2]) = (True, ?r)"
    "mr_InsertKeyConcurrently atomic_rep VectorRep_new (encode_entry 5 kTypeValue [1] [2]) = Some (True, ?r)"
    by (simp_all add: atomic_rep_def VectorRep_ops_def)
  have s: "kTypeValue \<noteq> kTypeRangeDeletion" "(5 :: u64) \<noteq> 0" "(5 :: u64) < kMaxSequenceNumber"
    by (simp_all add: value_type_defs kMaxSequenceNumber_def)
  show ?thesis
    using concurrent_add_keeps_earliest [OF i s, of VectorRep_new "\<lparr>pp_data_size = 0, pp_num_entries = 0, pp_num_deletes = 0\<rparr>"
        BytewiseComparator "MemTable_new VectorRep_new VectorRep_new 0"] by blast
qed

end
