(* ===== verification/PrepTracker.thy ===== *)
theory PrepTracker
  imports Coding "HOL-Library.AList"
begin

text \<open>
  \<^verbatim>\<open>LogsWithPrepTracker\<close> (\<^verbatim>\<open>db/logs_with_prep_tracker.cc\<close>): which logs hold the prepare section of a
  transaction that is not yet committed and flushed. A list of logs in ascending order with the number of
  prepare sections found in each, and a map with the number of those that are completed. The counters are
  of unbounded size, the two mutexes are not modelled.
\<close>

record LogsWithPrepTracker =
  logs_with_prep :: "(u64 \<times> nat) list"
  prepared_section_completed :: "(u64 \<times> nat) list"

definition LogsWithPrepTracker_new :: LogsWithPrepTracker where
  "LogsWithPrepTracker_new = \<lparr>logs_with_prep = [], prepared_section_completed = []\<rparr>"

definition MarkLogAsHavingPrepSectionFlushed :: "u64 \<Rightarrow> LogsWithPrepTracker \<Rightarrow> LogsWithPrepTracker" where
  "MarkLogAsHavingPrepSectionFlushed log t =
    (case map_of (prepared_section_completed t) log of
       None \<Rightarrow> t\<lparr>prepared_section_completed := AList.update log 1 (prepared_section_completed t)\<rparr>
     | Some n \<Rightarrow> t\<lparr>prepared_section_completed := AList.update log (n + 1) (prepared_section_completed t)\<rparr>)"

text \<open>
  The search from the end of the vector, on the reversed list: the part behind the position is
  passed over, and the new element is inserted there when the log was not found.
\<close>

fun mark_from_end :: "u64 \<Rightarrow> (u64 \<times> nat) list \<Rightarrow> (u64 \<times> nat) list" where
  "mark_from_end log [] = [(log, 1)]"
| "mark_from_end log ((l, cnt) # rest) =
    (if l \<ge> log then if l = log then (l, cnt + 1) # rest else (l, cnt) # mark_from_end log rest
     else (log, 1) # (l, cnt) # rest)"

definition MarkLogAsContainingPrepSection :: "u64 \<Rightarrow> LogsWithPrepTracker \<Rightarrow> LogsWithPrepTracker" where
  "MarkLogAsContainingPrepSection log t =
    t\<lparr>logs_with_prep := rev (mark_from_end log (rev (logs_with_prep t)))\<rparr>"

fun find_min_log :: "(u64 \<times> nat) list \<Rightarrow> (u64 \<times> nat) list \<Rightarrow> u64 \<times> LogsWithPrepTracker" where
  "find_min_log [] completed = (0, \<lparr>logs_with_prep = [], prepared_section_completed = completed\<rparr>)"
| "find_min_log ((min_log, cnt) # rest) completed =
    (case map_of completed min_log of
       None \<Rightarrow> (min_log, \<lparr>logs_with_prep = (min_log, cnt) # rest, prepared_section_completed = completed\<rparr>)
     | Some n \<Rightarrow>
         if n < cnt
         then (min_log, \<lparr>logs_with_prep = (min_log, cnt) # rest, prepared_section_completed = completed\<rparr>)
         else find_min_log rest (AList.delete min_log completed))"

definition FindMinLogContainingOutstandingPrep :: "LogsWithPrepTracker \<Rightarrow> u64 \<times> LogsWithPrepTracker" where
  "FindMinLogContainingOutstandingPrep t = find_min_log (logs_with_prep t) (prepared_section_completed t)"

section \<open>What the tracker stands for\<close>

text \<open>
  The number of prepare sections of each log that are outstanding. The tracker is sound when its logs are in
  ascending order and not 0, each with a positive count, and no more sections are completed than were found.
\<close>

definition count_of :: "(u64 \<times> nat) list \<Rightarrow> u64 \<Rightarrow> nat" where
  "count_of xs l = (case map_of xs l of None \<Rightarrow> 0 | Some n \<Rightarrow> n)"

definition outstanding :: "LogsWithPrepTracker \<Rightarrow> u64 \<Rightarrow> nat" where
  "outstanding t l = count_of (logs_with_prep t) l - count_of (prepared_section_completed t) l"

definition tracker_ok :: "LogsWithPrepTracker \<Rightarrow> bool" where
  "tracker_ok t \<longleftrightarrow> sorted_wrt (\<lambda>x y. fst x < fst y) (logs_with_prep t) \<and>
    (\<forall>x \<in> set (logs_with_prep t). fst x \<noteq> 0 \<and> 0 < snd x) \<and>
    (\<forall>x \<in> set (prepared_section_completed t). snd x \<le> count_of (logs_with_prep t) (fst x)) \<and>
    distinct (map fst (prepared_section_completed t))"

text \<open>What happens to a tracker, and what each event does to the numbers of outstanding sections.\<close>

datatype tracker_event = Prepared u64 | Flushed u64 | Queried

fun tracker_apply :: "tracker_event \<Rightarrow> LogsWithPrepTracker \<Rightarrow> LogsWithPrepTracker" where
  "tracker_apply (Prepared l) t = MarkLogAsContainingPrepSection l t"
| "tracker_apply (Flushed l) t = MarkLogAsHavingPrepSectionFlushed l t"
| "tracker_apply Queried t = snd (FindMinLogContainingOutstandingPrep t)"

fun spec_apply :: "tracker_event \<Rightarrow> (u64 \<Rightarrow> nat) \<Rightarrow> u64 \<Rightarrow> nat" where
  "spec_apply (Prepared l) c = c(l := c l + 1)"
| "spec_apply (Flushed l) c = c(l := c l - 1)"
| "spec_apply Queried c = c"

text \<open>No log has number 0, and a section is completed only while one of its log is outstanding.\<close>

fun tracker_valid :: "tracker_event list \<Rightarrow> (u64 \<Rightarrow> nat) \<Rightarrow> bool" where
  "tracker_valid [] c \<longleftrightarrow> True"
| "tracker_valid (e # es) c \<longleftrightarrow>
    (case e of Prepared l \<Rightarrow> l \<noteq> 0 | Flushed l \<Rightarrow> 0 < c l | Queried \<Rightarrow> True) \<and> tracker_valid es (spec_apply e c)"

section \<open>The tracker implements the counts\<close>

lemma mark_from_end_keys: "fst ` set (mark_from_end l xs) = insert l (fst ` set xs)"
  by (induction l xs rule: mark_from_end.induct) auto

lemma mark_from_end_sorted:
  "sorted_wrt (\<lambda>x y. fst y < fst x) xs \<Longrightarrow> sorted_wrt (\<lambda>x y. fst y < fst x) (mark_from_end l xs)"
proof (induction l xs rule: mark_from_end.induct)
  case (2 l k c rest)
  have "fst y < k" if "l < k" "y \<in> set (mark_from_end l rest)" for y
  proof -
    have "fst y \<in> insert l (fst ` set rest)" using mark_from_end_keys that(2) by blast
    then show ?thesis using 2(2) that(1) by auto
  qed
  moreover have "fst y < l" if "k < l" "y \<in> set rest" for y
    using 2(2) that by (auto intro: order.strict_trans)
  ultimately show ?case using 2 by auto
qed simp

lemma mark_from_end_count:
  "sorted_wrt (\<lambda>x y. fst y < fst x) xs \<Longrightarrow> count_of (mark_from_end l xs) = (count_of xs)(l := count_of xs l + 1)"
proof (induction l xs rule: mark_from_end.induct)
  case (1 l)
  then show ?case by (auto simp: count_of_def)
next
  case (2 l k c rest)
  have fresh: "map_of rest l = None" if "k \<le> l" using 2(2) that by (auto simp: map_of_eq_None_iff)
  show ?case
  proof (cases "l < k")
    case True
    then have "count_of (mark_from_end l rest) = (count_of rest)(l := count_of rest l + 1)" using 2 by auto
    then show ?thesis using True by (auto simp: count_of_def fun_eq_iff)
  next
    case False
    then show ?thesis using fresh by (auto simp: count_of_def fun_eq_iff)
  qed
qed

lemma mark_from_end_positive:
  "\<forall>x \<in> set xs. fst x \<noteq> 0 \<and> 0 < snd x \<Longrightarrow> l \<noteq> 0 \<Longrightarrow> \<forall>x \<in> set (mark_from_end l xs). fst x \<noteq> 0 \<and> 0 < snd x"
  by (induction l xs rule: mark_from_end.induct) auto

lemma sorted_logs_distinct: "sorted_wrt (\<lambda>x y. fst x < (fst y :: u64)) xs \<Longrightarrow> distinct (map fst xs)"
  by (induction xs) auto

lemma count_of_rev:
  assumes "distinct (map fst xs)"
  shows "count_of (rev xs) = count_of xs"
proof -
  have "map_of (rev xs) = map_of xs"
    using assms by (intro map_of_inject_set [THEN iffD2]) (simp_all add: rev_map [symmetric])
  then show ?thesis by (simp add: count_of_def fun_eq_iff)
qed

lemma count_of_update: "count_of (AList.update k v xs) = (count_of xs)(k := v)"
  by (auto simp: count_of_def fun_eq_iff update_conv)

lemma count_of_delete: "count_of (AList.delete k xs) = (count_of xs)(k := 0)"
  by (auto simp: count_of_def fun_eq_iff delete_conv)

lemma flushed_eq:
  "MarkLogAsHavingPrepSectionFlushed l t =
    t\<lparr>prepared_section_completed :=
      AList.update l (count_of (prepared_section_completed t) l + 1) (prepared_section_completed t)\<rparr>"
  by (simp add: MarkLogAsHavingPrepSectionFlushed_def count_of_def split: option.split)

lemma prepared_logs:
  assumes "tracker_ok t"
  shows "sorted_wrt (\<lambda>x y. fst x < fst y) (logs_with_prep (MarkLogAsContainingPrepSection l t))"
    and "count_of (logs_with_prep (MarkLogAsContainingPrepSection l t)) =
      (count_of (logs_with_prep t))(l := count_of (logs_with_prep t) l + 1)"
proof -
  let ?d = "rev (logs_with_prep t)"
  have s: "sorted_wrt (\<lambda>x y. fst y < fst x) ?d"
    using assms by (simp add: tracker_ok_def sorted_wrt_rev)
  have m: "sorted_wrt (\<lambda>x y. fst y < fst x) (mark_from_end l ?d)" by (rule mark_from_end_sorted [OF s])
  then show sorted: "sorted_wrt (\<lambda>x y. fst x < fst y) (logs_with_prep (MarkLogAsContainingPrepSection l t))"
    by (simp add: MarkLogAsContainingPrepSection_def sorted_wrt_rev)
  have d: "distinct (map fst (mark_from_end l ?d))"
    using sorted_logs_distinct [OF sorted] by (simp add: MarkLogAsContainingPrepSection_def rev_map [symmetric])
  have dt: "distinct (map fst (logs_with_prep t))"
    using assms by (intro sorted_logs_distinct) (simp add: tracker_ok_def)
  show "count_of (logs_with_prep (MarkLogAsContainingPrepSection l t)) =
      (count_of (logs_with_prep t))(l := count_of (logs_with_prep t) l + 1)"
    using mark_from_end_count [OF s] count_of_rev [OF d] count_of_rev [OF dt]
    by (simp add: MarkLogAsContainingPrepSection_def)
qed

text \<open>The second and third clause of \<open>tracker_ok\<close> on counts.\<close>

definition completed_ok :: "LogsWithPrepTracker \<Rightarrow> bool" where
  "completed_ok t \<longleftrightarrow> (\<forall>l. count_of (prepared_section_completed t) l \<le> count_of (logs_with_prep t) l)"

lemma tracker_ok_counts:
  "tracker_ok t \<longleftrightarrow> sorted_wrt (\<lambda>x y. fst x < fst y) (logs_with_prep t) \<and>
    (\<forall>x \<in> set (logs_with_prep t). fst x \<noteq> 0 \<and> 0 < snd x) \<and> completed_ok t \<and>
    distinct (map fst (prepared_section_completed t))"
proof -
  have "(\<forall>x \<in> set (prepared_section_completed t). snd x \<le> count_of (logs_with_prep t) (fst x)) \<longleftrightarrow> completed_ok t"
    if "distinct (map fst (prepared_section_completed t))"
    using that unfolding completed_ok_def count_of_def
    by (fastforce split: option.splits dest: map_of_SomeD)
  then show ?thesis unfolding tracker_ok_def by blast
qed

lemma prepared_ok:
  assumes "tracker_ok t" and "l \<noteq> 0"
  shows "tracker_ok (MarkLogAsContainingPrepSection l t)"
    and "outstanding (MarkLogAsContainingPrepSection l t) = (outstanding t)(l := outstanding t l + 1)"
proof -
  have c: "prepared_section_completed (MarkLogAsContainingPrepSection l t) = prepared_section_completed t"
    by (simp add: MarkLogAsContainingPrepSection_def)
  have le: "count_of (prepared_section_completed t) k \<le> count_of (logs_with_prep t) k" for k
    using assms(1) by (simp add: tracker_ok_counts completed_ok_def)
  have p: "\<forall>x \<in> set (logs_with_prep (MarkLogAsContainingPrepSection l t)). fst x \<noteq> 0 \<and> 0 < snd x"
    using mark_from_end_positive [of "rev (logs_with_prep t)" l] assms
    by (simp add: tracker_ok_def MarkLogAsContainingPrepSection_def)
  show "tracker_ok (MarkLogAsContainingPrepSection l t)"
    using assms(1) prepared_logs [OF assms(1), of l] p le
    by (auto simp: tracker_ok_counts completed_ok_def c intro: le_SucI)
  show "outstanding (MarkLogAsContainingPrepSection l t) = (outstanding t)(l := outstanding t l + 1)"
    using prepared_logs(2) [OF assms(1), of l] le [of l] by (auto simp: outstanding_def c fun_eq_iff)
qed

lemma flushed_ok:
  assumes "tracker_ok t" and "0 < outstanding t l"
  shows "tracker_ok (MarkLogAsHavingPrepSectionFlushed l t)"
    and "outstanding (MarkLogAsHavingPrepSectionFlushed l t) = (outstanding t)(l := outstanding t l - 1)"
  using assms
  by (auto simp: tracker_ok_counts completed_ok_def flushed_eq count_of_update outstanding_def fun_eq_iff
      intro: distinct_update)

lemma find_min_spec:
  assumes "tracker_ok \<lparr>logs_with_prep = logs, prepared_section_completed = done\<rparr>"
    and "find_min_log logs done = (m, t')"
  shows "tracker_ok t' \<and> outstanding t' = outstanding \<lparr>logs_with_prep = logs, prepared_section_completed = done\<rparr> \<and>
    (if m = 0 then \<forall>l. outstanding t' l = 0 else 0 < outstanding t' m \<and> (\<forall>l. l < m \<longrightarrow> outstanding t' l = 0))"
  using assms
proof (induction logs "done" rule: find_min_log.induct)
  case (1 completed)
  then show ?case by (auto simp: outstanding_def count_of_def)
next
  case (2 k c rest completed)
  let ?t = "\<lparr>logs_with_prep = (k, c) # rest, prepared_section_completed = completed\<rparr>"
  have k: "k \<noteq> 0" "0 < c" using 2(2) by (auto simp: tracker_ok_def)
  have after: "map_of rest l = None" if "l \<le> k" for l
    using 2(2) that by (auto simp: tracker_ok_def map_of_eq_None_iff)
  have le: "count_of completed l \<le> count_of ((k, c) # rest) l" for l
    using 2(2) by (simp add: tracker_ok_counts completed_ok_def)
  show ?case
  proof (cases "c \<le> count_of completed k")
    case True
    then have n: "map_of completed k = Some c" using le [of k] k(2) by (auto simp: count_of_def split: option.splits)
    let ?u = "\<lparr>logs_with_prep = rest, prepared_section_completed = AList.delete k completed\<rparr>"
    have "outstanding ?u = outstanding ?t"
      using True after [of k] by (auto simp: outstanding_def fun_eq_iff count_of_delete) (auto simp: count_of_def)
    moreover have "tracker_ok ?u"
      unfolding tracker_ok_counts completed_ok_def
    proof (intro conjI allI)
      fix l
      show "count_of (prepared_section_completed ?u) l \<le> count_of (logs_with_prep ?u) l"
        using le [of l] by (auto simp: count_of_delete) (auto simp: count_of_def)
    qed (use 2(2) in \<open>auto simp: tracker_ok_counts intro: distinct_delete\<close>)
    moreover have "find_min_log rest (AList.delete k completed) = (m, t')" using 2(3) n by simp
    ultimately show ?thesis using 2(1) [OF n] by simp metis
  next
    case False
    then have r: "m = k" "t' = ?t" using 2(3) by (auto simp: count_of_def split: option.splits if_splits)
    have "outstanding ?t l = 0" if "l < k" for l
      using after [of l] that by (auto simp: outstanding_def count_of_def)
    moreover have "0 < outstanding ?t k" using False by (simp add: outstanding_def count_of_def)
    ultimately show ?thesis using 2(2) k(1) by (simp add: r)
  qed
qed

lemma find_min_ok:
  assumes "tracker_ok t"
  shows "tracker_ok (snd (FindMinLogContainingOutstandingPrep t))"
    and "outstanding (snd (FindMinLogContainingOutstandingPrep t)) = outstanding t"
    and "fst (FindMinLogContainingOutstandingPrep t) = 0 \<Longrightarrow> outstanding t l = 0"
    and "fst (FindMinLogContainingOutstandingPrep t) \<noteq> 0 \<Longrightarrow>
      0 < outstanding t (fst (FindMinLogContainingOutstandingPrep t))"
    and "l < fst (FindMinLogContainingOutstandingPrep t) \<Longrightarrow> outstanding t l = 0"
proof -
  obtain m t' where r: "FindMinLogContainingOutstandingPrep t = (m, t')" by (cases "FindMinLogContainingOutstandingPrep t")
  have ok: "tracker_ok \<lparr>logs_with_prep = logs_with_prep t, prepared_section_completed = prepared_section_completed t\<rparr>"
    using assms by (simp add: tracker_ok_def)
  note f = find_min_spec [OF ok r [unfolded FindMinLogContainingOutstandingPrep_def]]
  have out: "outstanding t' = outstanding t" using f by (simp add: outstanding_def fun_eq_iff)
  show "tracker_ok (snd (FindMinLogContainingOutstandingPrep t))"
    "outstanding (snd (FindMinLogContainingOutstandingPrep t)) = outstanding t"
    "fst (FindMinLogContainingOutstandingPrep t) = 0 \<Longrightarrow> outstanding t l = 0"
    "fst (FindMinLogContainingOutstandingPrep t) \<noteq> 0 \<Longrightarrow> 0 < outstanding t (fst (FindMinLogContainingOutstandingPrep t))"
    "l < fst (FindMinLogContainingOutstandingPrep t) \<Longrightarrow> outstanding t l = 0"
    using f by (auto simp: r out split: if_splits)
qed

lemma tracker_run:
  assumes "tracker_ok t" and "tracker_valid es (outstanding t)"
  shows "tracker_ok (fold tracker_apply es t) \<and> outstanding (fold tracker_apply es t) = fold spec_apply es (outstanding t)"
  using assms
proof (induction es arbitrary: t)
  case (Cons e es)
  have "tracker_ok (tracker_apply e t) \<and> outstanding (tracker_apply e t) = spec_apply e (outstanding t)"
    using Cons.prems by (cases e) (auto simp: prepared_ok flushed_ok find_min_ok)
  then show ?case using Cons by simp
qed simp

text \<open>
  C20: after any sequence of prepare sections found, sections completed and queries, the tracker answers
  with the smallest log that holds an outstanding prepare section, and with 0 exactly when there is none. A
  query, which drops the completed logs, changes none of the counts.
\<close>

theorem tracker_finds_min_log:
  assumes "tracker_valid es (\<lambda>l. 0)"
  shows "fst (FindMinLogContainingOutstandingPrep (fold tracker_apply es LogsWithPrepTracker_new)) =
    (let c = fold spec_apply es (\<lambda>l. 0) in if \<exists>l. 0 < c l then LEAST l. 0 < c l else 0)"
proof -
  let ?t = "fold tracker_apply es LogsWithPrepTracker_new"
  have n: "tracker_ok LogsWithPrepTracker_new" "outstanding LogsWithPrepTracker_new = (\<lambda>l. 0)"
    by (simp_all add: tracker_ok_def LogsWithPrepTracker_new_def outstanding_def count_of_def fun_eq_iff)
  then have t: "tracker_ok ?t" "outstanding ?t = fold spec_apply es (\<lambda>l. 0)"
    using tracker_run [OF n(1), of es] assms by simp_all
  note f = find_min_ok(3-5) [OF t(1)]
  show ?thesis
  proof (cases "fst (FindMinLogContainingOutstandingPrep ?t) = 0")
    case True
    then show ?thesis using f(1) by (simp add: t(2))
  next
    case False
    have "(LEAST l. 0 < outstanding ?t l) = fst (FindMinLogContainingOutstandingPrep ?t)"
      by (rule Least_equality) (use f(2) [OF False] f(3) in \<open>auto simp: not_less [symmetric]\<close>)
    then show ?thesis using f(2) [OF False] by (auto simp: t(2) Let_def)
  qed
qed

theorem tracker_finds_min_log_witness:
  "fst (FindMinLogContainingOutstandingPrep (fold tracker_apply
      [Prepared 9, Prepared 4, Prepared 4, Flushed 4, Queried, Prepared 6, Flushed 4] LogsWithPrepTracker_new)) = 6"
proof -
  let ?es = "[Prepared 9, Prepared 4, Prepared 4, Flushed 4, Queried, Prepared 6, Flushed 4]"
  have c: "fold spec_apply ?es (\<lambda>l. 0) = (\<lambda>l. 0)(9 := 1, 6 := 1)" by (auto simp: fun_eq_iff)
  have "(LEAST l. 0 < ((\<lambda>l. 0 :: nat)(9 := 1, 6 := 1)) (l :: u64)) = 6"
    by (rule Least_equality) (auto split: if_splits)
  then show ?thesis using tracker_finds_min_log [of ?es] unfolding c by (auto simp: Let_def)
qed

end
