(* ===== verification/DbWrite.thy ===== *)
theory DbWrite
  imports MemTable LogReader PrepTracker
begin

text \<open>
  The write path of the database: \<^verbatim>\<open>MemTableInserter\<close> and \<^verbatim>\<open>InsertInto\<close> (\<^verbatim>\<open>db/write_batch.cc\<close>), the
  group write of \<^verbatim>\<open>db/db_impl_write.cc\<close>, \<^verbatim>\<open>DB::Put\<close> and its siblings, the read from the active
  memtable, and the replay of a log at open (\<^verbatim>\<open>db/db_impl_open.cc\<close>). One column family, the write
  policy of ordinary transactions (a sequence number per key, memtable writes after the commit), writers
  that are not run in parallel, no updates in place, no limit on successive merges, and no flush: the data is
  in the log and in the active memtable.
\<close>

section \<open>\<^verbatim>\<open>MemTableInserter\<close>\<close>

text \<open>
  The prepared transactions that the replay of a log finds, by name: their batches by the sequence number of
  the first key, with the log that holds them.
\<close>

record BatchInfo =
  bi_log_number :: u64
  bi_batch :: WriteBatch

record RecoveredTransaction =
  rt_unprepared :: bool
  rt_batches :: "(u64 \<times> BatchInfo) list"

fun map_set :: "u64 \<Rightarrow> 'a \<Rightarrow> (u64 \<times> 'a) list \<Rightarrow> (u64 \<times> 'a) list" where
  "map_set k v [] = [(k, v)]"
| "map_set k v ((l, x) # xs) =
    (if k < l then (k, v) # (l, x) # xs else if k = l then (k, v) # xs else (l, x) # map_set k v xs)"

definition AddBatch :: "u64 \<Rightarrow> u64 \<Rightarrow> WriteBatch \<Rightarrow> bool \<Rightarrow> RecoveredTransaction \<Rightarrow> RecoveredTransaction" where
  "AddBatch seq log b unprepared t =
    t\<lparr>rt_batches := map_set seq \<lparr>bi_log_number = log, bi_batch = b\<rparr> (rt_batches t), rt_unprepared := unprepared\<rparr>"

record trx_table =
  tt_recovered :: "(slice \<times> RecoveredTransaction) list"
  tt_tracker :: LogsWithPrepTracker

definition trx_table_new :: trx_table where
  "trx_table_new = \<lparr>tt_recovered = [], tt_tracker = LogsWithPrepTracker_new\<rparr>"

definition GetRecoveredTransaction :: "slice \<Rightarrow> trx_table \<Rightarrow> RecoveredTransaction option" where
  "GetRecoveredTransaction name d = map_of (tt_recovered d) name"

definition InsertRecoveredTransaction ::
    "u64 \<Rightarrow> slice \<Rightarrow> WriteBatch \<Rightarrow> u64 \<Rightarrow> bool \<Rightarrow> trx_table \<Rightarrow> trx_table" where
  "InsertRecoveredTransaction log name b seq unprepared d =
    (let t = (case map_of (tt_recovered d) name of
                None \<Rightarrow> \<lparr>rt_unprepared = unprepared, rt_batches = [(seq, \<lparr>bi_log_number = log, bi_batch = b\<rparr>)]\<rparr>
              | Some t \<Rightarrow> AddBatch seq log b unprepared t)
     in \<lparr>tt_recovered = AList.update name t (tt_recovered d),
         tt_tracker = MarkLogAsContainingPrepSection log (tt_tracker d)\<rparr>)"

definition DeleteRecoveredTransaction :: "slice \<Rightarrow> trx_table \<Rightarrow> trx_table" where
  "DeleteRecoveredTransaction name d =
    (case map_of (tt_recovered d) name of
       None \<Rightarrow> d
     | Some t \<Rightarrow>
         \<lparr>tt_recovered = AList.delete name (tt_recovered d),
          tt_tracker = fold (\<lambda>x. MarkLogAsHavingPrepSectionFlushed (bi_log_number (snd x))) (rt_batches t) (tt_tracker d)\<rparr>)"

record inserter_conf =
  ic_ignore_missing_column_families :: bool
  ic_recovering_log_number :: u64
  ic_cf_log_number :: u64
  ic_delete_range_supported :: bool
  ic_allow_2pc :: bool

record 'r inserter =
  in_sequence :: u64
  in_mem :: "'r MemTable"
  in_log_number_ref :: u64
  in_has_valid_writes :: bool
  in_rebuilding_trx :: "WriteBatch option"
  in_rebuilding_trx_seq :: u64
  in_unprepared_batch :: bool
  in_trx :: trx_table

definition MemTableInserter_new :: "u64 \<Rightarrow> 'r MemTable \<Rightarrow> trx_table \<Rightarrow> 'r inserter" where
  "MemTableInserter_new seq mem trx =
    \<lparr>in_sequence = seq, in_mem = mem, in_log_number_ref = 0, in_has_valid_writes = False,
     in_rebuilding_trx = None, in_rebuilding_trx_seq = 0, in_unprepared_batch = False,
     in_trx = trx\<rparr>"

definition TryAgain :: "string \<Rightarrow> status" where
  "TryAgain msg = \<lparr>st_code = KTryAgain, st_subcode = KNone, st_msg = msg\<rparr>"

text \<open>\<^verbatim>\<open>seq_per_batch_\<close> is false: the sequence number advances unless the call marks a batch boundary.\<close>

definition MaybeAdvanceSeq :: "bool \<Rightarrow> 'r inserter \<Rightarrow> 'r inserter" where
  "MaybeAdvanceSeq batch_boundry st =
    (if batch_boundry = False then st\<lparr>in_sequence := in_sequence st + 1\<rparr> else st)"

definition SeekToColumnFamily :: "inserter_conf \<Rightarrow> u32 \<Rightarrow> 'r inserter \<Rightarrow> bool \<times> status \<times> 'r inserter" where
  "SeekToColumnFamily conf cf st =
    (if cf \<noteq> 0 then
       (False, if ic_ignore_missing_column_families conf then Status_OK
               else InvalidArgument ''Invalid column family specified in write batch'', st)
     else if ic_recovering_log_number conf \<noteq> 0 \<and> ic_recovering_log_number conf < ic_cf_log_number conf then
       (False, Status_OK, st)
     else
       let st = st\<lparr>in_has_valid_writes := True\<rparr>
       in (True, Status_OK,
           if in_log_number_ref st > 0
           then st\<lparr>in_mem := RefLogContainingPrepSection (in_log_number_ref st) (in_mem st)\<rparr> else st))"

text \<open>\<^verbatim>\<open>DeleteImpl\<close>, which is also how \<^verbatim>\<open>PutCFImpl\<close> and \<^verbatim>\<open>MergeCF\<close> add to the memtable.\<close>

definition mem_Add :: "'r MemTableRep \<Rightarrow> byte \<Rightarrow> slice \<Rightarrow> slice \<Rightarrow> 'r inserter \<Rightarrow> status \<times> 'r inserter" where
  "mem_Add ops t key v st =
    (let (mem_res, m) = MemTable_Add ops (in_mem st) (in_sequence st) t key v;
         st = st\<lparr>in_mem := m\<rparr>;
         st = (if \<not> mem_res then MaybeAdvanceSeq True st else st)
     in (if mem_res then Status_OK else TryAgain ''key+seq exists'', MaybeAdvanceSeq False st))"

text \<open>
  The part that the calls for a record share: during the rebuilding of a transaction the record is
  added to its batch, for a column family that is missing or already flushed it is skipped.
\<close>

definition inserter_record ::
    "'r MemTableRep \<Rightarrow> inserter_conf \<Rightarrow> (WriteBatch \<Rightarrow> status \<times> WriteBatch) \<Rightarrow> u32 \<Rightarrow> byte \<Rightarrow> slice \<Rightarrow> slice \<Rightarrow>
     'r inserter \<Rightarrow> status \<times> 'r inserter" where
  "inserter_record ops conf rebuild cf t key v st =
    (case in_rebuilding_trx st of
       Some b \<Rightarrow> (Status_OK, st\<lparr>in_rebuilding_trx := Some (snd (rebuild b))\<rparr>)
     | None \<Rightarrow>
         let (found, seek_status, st) = SeekToColumnFamily conf cf st
         in if \<not> found then (seek_status, MaybeAdvanceSeq False st)
            else mem_Add ops t key v st)"

definition PutCFImpl :: "'r MemTableRep \<Rightarrow> inserter_conf \<Rightarrow> byte \<Rightarrow> u32 \<Rightarrow> slice \<Rightarrow> slice \<Rightarrow> 'r inserter \<Rightarrow> status \<times> 'r inserter" where
  "PutCFImpl ops conf t cf key v = inserter_record ops conf (\<lambda>b. WB_Put b cf key v) cf t key v"

definition Inserter_DeleteCF :: "'r MemTableRep \<Rightarrow> inserter_conf \<Rightarrow> u32 \<Rightarrow> slice \<Rightarrow> 'r inserter \<Rightarrow> status \<times> 'r inserter" where
  "Inserter_DeleteCF ops conf cf key = inserter_record ops conf (\<lambda>b. WB_Delete b cf key) cf kTypeDeletion key []"

definition Inserter_SingleDeleteCF :: "'r MemTableRep \<Rightarrow> inserter_conf \<Rightarrow> u32 \<Rightarrow> slice \<Rightarrow> 'r inserter \<Rightarrow> status \<times> 'r inserter" where
  "Inserter_SingleDeleteCF ops conf cf key =
    inserter_record ops conf (\<lambda>b. WB_SingleDelete b cf key) cf kTypeSingleDeletion key []"

definition Inserter_DeleteRangeCF ::
    "'r MemTableRep \<Rightarrow> inserter_conf \<Rightarrow> u32 \<Rightarrow> slice \<Rightarrow> slice \<Rightarrow> 'r inserter \<Rightarrow> status \<times> 'r inserter" where
  "Inserter_DeleteRangeCF ops conf cf begin_key end_key st =
    (case in_rebuilding_trx st of
       Some b \<Rightarrow> (Status_OK, st\<lparr>in_rebuilding_trx := Some (snd (WB_DeleteRange b cf begin_key end_key))\<rparr>)
     | None \<Rightarrow>
         let (found, seek_status, st) = SeekToColumnFamily conf cf st
         in if \<not> found then (seek_status, MaybeAdvanceSeq False st)
            else if \<not> ic_delete_range_supported conf then
              (NotSupported ''DeleteRange not supported for table type '', st)
            else mem_Add ops kTypeRangeDeletion begin_key end_key st)"

definition Inserter_MergeCF ::
    "'r MemTableRep \<Rightarrow> inserter_conf \<Rightarrow> u32 \<Rightarrow> slice \<Rightarrow> slice \<Rightarrow> 'r inserter \<Rightarrow> status \<times> 'r inserter" where
  "Inserter_MergeCF ops conf cf key v = inserter_record ops conf (\<lambda>b. WB_Merge b cf key v) cf kTypeMerge key v"

definition Inserter_MarkBeginPrepare :: "inserter_conf \<Rightarrow> bool \<Rightarrow> 'r inserter \<Rightarrow> status \<times> 'r inserter" where
  "Inserter_MarkBeginPrepare conf unprepare st =
    (if ic_recovering_log_number conf \<noteq> 0 then
       if \<not> ic_allow_2pc conf then
         (NotSupported ''WAL contains prepared transactions. Open with TransactionDB::Open().'', st)
       else (Status_OK, st\<lparr>in_rebuilding_trx := Some (WriteBatch_new 0), in_rebuilding_trx_seq := in_sequence st,
                           in_unprepared_batch := unprepare, in_has_valid_writes := True\<rparr>)
     else (Status_OK, st))"

definition Inserter_MarkEndPrepare :: "inserter_conf \<Rightarrow> slice \<Rightarrow> 'r inserter \<Rightarrow> status \<times> 'r inserter" where
  "Inserter_MarkEndPrepare conf name st =
    (let st = (if ic_recovering_log_number conf \<noteq> 0 then
                 case in_rebuilding_trx st of
                   Some b \<Rightarrow>
                     st\<lparr>in_trx := InsertRecoveredTransaction (ic_recovering_log_number conf) name b
                          (in_rebuilding_trx_seq st) (in_unprepared_batch st) (in_trx st),
                        in_rebuilding_trx := None\<rparr>
                 | None \<Rightarrow> st
               else st)
     in (Status_OK, MaybeAdvanceSeq True st))"

definition Inserter_MarkNoop :: "bool \<Rightarrow> 'r inserter \<Rightarrow> status \<times> 'r inserter" where
  "Inserter_MarkNoop empty_batch st = (Status_OK, if \<not> empty_batch then MaybeAdvanceSeq True st else st)"

definition Inserter_MarkRollback :: "inserter_conf \<Rightarrow> slice \<Rightarrow> 'r inserter \<Rightarrow> status \<times> 'r inserter" where
  "Inserter_MarkRollback conf name st =
    (let st = (if ic_recovering_log_number conf \<noteq> 0 \<and> GetRecoveredTransaction name (in_trx st) \<noteq> None
               then st\<lparr>in_trx := DeleteRecoveredTransaction name (in_trx st)\<rparr> else st)
     in (Status_OK, MaybeAdvanceSeq True st))"

text \<open>
  The handler without \<^verbatim>\<open>MarkCommit\<close>, which replays a rebuilt transaction: such a batch holds only
  puts, deletions and merges.
\<close>

definition inserter_handler :: "'r MemTableRep \<Rightarrow> inserter_conf \<Rightarrow> 'r inserter Handler" where
  "inserter_handler ops conf = Handler_default\<lparr>
    h_PutCF := PutCFImpl ops conf kTypeValue,
    h_DeleteCF := Inserter_DeleteCF ops conf,
    h_SingleDeleteCF := Inserter_SingleDeleteCF ops conf,
    h_DeleteRangeCF := Inserter_DeleteRangeCF ops conf,
    h_MergeCF := Inserter_MergeCF ops conf,
    h_PutBlobIndexCF := PutCFImpl ops conf kTypeBlobIndex,
    h_MarkBeginPrepare := Inserter_MarkBeginPrepare conf,
    h_MarkEndPrepare := Inserter_MarkEndPrepare conf,
    h_MarkNoop := Inserter_MarkNoop,
    h_MarkRollback := Inserter_MarkRollback conf\<rparr>"

definition Inserter_MarkCommit :: "'r MemTableRep \<Rightarrow> inserter_conf \<Rightarrow> slice \<Rightarrow> 'r inserter \<Rightarrow> status \<times> 'r inserter" where
  "Inserter_MarkCommit ops conf name st =
    (let (s, st) =
       (if ic_recovering_log_number conf \<noteq> 0 then
          case GetRecoveredTransaction name (in_trx st) of
            None \<Rightarrow> (Status_OK, st)
          | Some trx \<Rightarrow>
              let batch_info = snd (hd (rt_batches trx));
                  (s, st) = Iterate (inserter_handler ops conf) (bi_batch batch_info)
                              (st\<lparr>in_log_number_ref := bi_log_number batch_info\<rparr>);
                  st = st\<lparr>in_log_number_ref := 0\<rparr>;
                  st = (if ok s then st\<lparr>in_trx := DeleteRecoveredTransaction name (in_trx st)\<rparr> else st)
              in (s, st\<lparr>in_has_valid_writes := True\<rparr>)
        else (Status_OK, st))
     in (s, MaybeAdvanceSeq True st))"

definition MemTableInserter :: "'r MemTableRep \<Rightarrow> inserter_conf \<Rightarrow> 'r inserter Handler" where
  "MemTableInserter ops conf = (inserter_handler ops conf)\<lparr>h_MarkCommit := Inserter_MarkCommit ops conf\<rparr>"

section \<open>\<^verbatim>\<open>InsertInto\<close>\<close>

text \<open>A batch from the log: the status, the next sequence number and the inserter at the end.\<close>

definition InsertInto_batch ::
    "'r MemTableRep \<Rightarrow> inserter_conf \<Rightarrow> WriteBatch \<Rightarrow> 'r MemTable \<Rightarrow> trx_table \<Rightarrow> status \<times> u64 \<times> 'r inserter" where
  "InsertInto_batch ops conf b mem trx =
    (let (s, st) = Iterate (MemTableInserter ops conf) b (MemTableInserter_new (WB_Sequence b) mem trx)
     in (s, in_sequence st, st))"

text \<open>
  A writer of a write group: its batch, the log that the memtable is to reference, and the result of its
  callback, which is \<open>Status_OK\<close> when there is none.
\<close>

record writer =
  w_batch :: WriteBatch
  w_log_ref :: u64
  w_disable_memtable :: bool
  w_callback_status :: status

definition Writer_of :: "WriteBatch \<Rightarrow> writer" where
  "Writer_of b = \<lparr>w_batch = b, w_log_ref = 0, w_disable_memtable = False, w_callback_status = Status_OK\<rparr>"

definition CallbackFailed :: "writer \<Rightarrow> bool" where
  "CallbackFailed w \<longleftrightarrow> \<not> ok (w_callback_status w)"

definition ShouldWriteToMemtable :: "writer \<Rightarrow> bool" where
  "ShouldWriteToMemtable w \<longleftrightarrow> \<not> CallbackFailed w \<and> \<not> w_disable_memtable w"

text \<open>The batches of a write group, one after the other, up to the first that fails.\<close>

fun InsertInto_loop :: "'r MemTableRep \<Rightarrow> inserter_conf \<Rightarrow> writer list \<Rightarrow> 'r inserter \<Rightarrow> status \<times> 'r inserter" where
  "InsertInto_loop ops conf [] st = (Status_OK, st)"
| "InsertInto_loop ops conf (w # ws) st =
    (if CallbackFailed w then InsertInto_loop ops conf ws st
     else if \<not> ShouldWriteToMemtable w then InsertInto_loop ops conf ws (MaybeAdvanceSeq True st)
     else
       let (s, st) = Iterate (MemTableInserter ops conf) (SetSequence (w_batch w) (in_sequence st))
                       (st\<lparr>in_log_number_ref := w_log_ref w\<rparr>)
       in if \<not> ok s then (s, st) else InsertInto_loop ops conf ws st)"

definition InsertInto_group ::
    "'r MemTableRep \<Rightarrow> inserter_conf \<Rightarrow> writer list \<Rightarrow> u64 \<Rightarrow> 'r MemTable \<Rightarrow> status \<times> 'r inserter" where
  "InsertInto_group ops conf ws seq mem = InsertInto_loop ops conf ws (MemTableInserter_new seq mem trx_table_new)"

section \<open>Writing to the database\<close>

record ('r, 'd) DBImpl =
  db_last_sequence :: u64
  db_mem :: "'r MemTable"
  db_log :: "'d log_writer"
  db_total_log_size :: nat
  db_has_unpersisted_data :: bool

text \<open>The operations of the memtable's container and of the file that the log is written to.\<close>

record ('r, 'd) db_env =
  de_rep :: "'r MemTableRep"
  de_append :: "'d \<Rightarrow> slice \<Rightarrow> status \<times> 'd"
  de_flush :: "'d \<Rightarrow> status \<times> 'd"
  de_sync :: "'d \<Rightarrow> status \<times> 'd"
  de_get :: get_context
  de_covering :: "'r \<Rightarrow> slice \<Rightarrow> u64 \<Rightarrow> u64"

record WriteOptions =
  wo_sync :: bool
  wo_disableWAL :: bool
  wo_ignore_missing_column_families :: bool

definition WriteOptions_default :: WriteOptions where
  "WriteOptions_default = \<lparr>wo_sync = False, wo_disableWAL = False, wo_ignore_missing_column_families = False\<rparr>"

definition write_conf :: "WriteOptions \<Rightarrow> inserter_conf" where
  "write_conf wo = \<lparr>ic_ignore_missing_column_families = wo_ignore_missing_column_families wo,
    ic_recovering_log_number = 0, ic_cf_log_number = 0, ic_delete_range_supported = True, ic_allow_2pc = False\<rparr>"

definition MergeBatch :: "writer list \<Rightarrow> WriteBatch" where
  "MergeBatch ws =
    (if length ws = 1 \<and> \<not> CallbackFailed (hd ws) \<and> is_cleared (wal_term_point (w_batch (hd ws)))
     then w_batch (hd ws)
     else fold (\<lambda>w m. if \<not> CallbackFailed w then snd (WB_Append m (w_batch w) True) else m) ws (WriteBatch_new 0))"

definition WriteToWAL ::
    "('r, 'd) db_env \<Rightarrow> bool \<Rightarrow> writer list \<Rightarrow> u64 \<Rightarrow> ('r, 'd) DBImpl \<Rightarrow> status \<times> ('r, 'd) DBImpl" where
  "WriteToWAL env need_log_sync ws seq db =
    (let log_entry = rep (SetSequence (MergeBatch ws) seq);
         (s, w) = AddRecord (de_append env) (de_flush env) (db_log db) log_entry;
         db = db\<lparr>db_log := w, db_total_log_size := db_total_log_size db + length log_entry\<rparr>
     in if ok s \<and> need_log_sync then
          let (s, d) = de_sync env (dest (db_log db))
          in (s, db\<lparr>db_log := (db_log db)\<lparr>dest := d\<rparr>\<rparr>)
        else (s, db))"

definition total_count :: "writer list \<Rightarrow> u64" where
  "total_count ws = sum_list (map (\<lambda>w. if ShouldWriteToMemtable w then scast (WB_Count (w_batch w)) else 0) ws)"

definition FinalStatus :: "status \<Rightarrow> writer \<Rightarrow> status" where
  "FinalStatus s w = (if \<not> ok s then s else if \<not> ok (w_callback_status w) then w_callback_status w else s)"

definition WriteImpl ::
    "('r, 'd) db_env \<Rightarrow> WriteOptions \<Rightarrow> writer list \<Rightarrow> ('r, 'd) DBImpl \<Rightarrow> status \<times> ('r, 'd) DBImpl" where
  "WriteImpl env wo ws db =
    (if wo_sync wo \<and> wo_disableWAL wo then (InvalidArgument ''Sync writes has to enable WAL.'', db)
     else
       let last_sequence = db_last_sequence db;
           seq_inc = total_count ws;
           db = (if wo_disableWAL wo then db\<lparr>db_has_unpersisted_data := True\<rparr> else db);
           (s, db) = (if \<not> wo_disableWAL wo then WriteToWAL env (wo_sync wo) ws (last_sequence + 1) db
                      else (Status_OK, db))
       in if ok s then
            let (w_status, st) = InsertInto_group (de_rep env) (write_conf wo) ws (last_sequence + 1) (db_mem db)
            in (FinalStatus w_status (hd ws), db\<lparr>db_mem := in_mem st, db_last_sequence := last_sequence + seq_inc\<rparr>)
          else (s, db))"

definition DB_Write :: "('r, 'd) db_env \<Rightarrow> WriteBatch \<Rightarrow> ('r, 'd) DBImpl \<Rightarrow> status \<times> ('r, 'd) DBImpl" where
  "DB_Write env b db = WriteImpl env WriteOptions_default [Writer_of b] db"

definition DB_Put :: "('r, 'd) db_env \<Rightarrow> ('r, 'd) DBImpl \<Rightarrow> slice \<Rightarrow> slice \<Rightarrow> status \<times> ('r, 'd) DBImpl" where
  "DB_Put env db key v =
    (let (s, b) = WB_Put (WriteBatch_new 0) 0 key v
     in if \<not> ok s then (s, db) else DB_Write env b db)"

definition DB_Delete :: "('r, 'd) db_env \<Rightarrow> ('r, 'd) DBImpl \<Rightarrow> slice \<Rightarrow> status \<times> ('r, 'd) DBImpl" where
  "DB_Delete env db key = DB_Write env (snd (WB_Delete (WriteBatch_new 0) 0 key)) db"

definition DB_SingleDelete :: "('r, 'd) db_env \<Rightarrow> ('r, 'd) DBImpl \<Rightarrow> slice \<Rightarrow> status \<times> ('r, 'd) DBImpl" where
  "DB_SingleDelete env db key = DB_Write env (snd (WB_SingleDelete (WriteBatch_new 0) 0 key)) db"

definition DB_DeleteRange :: "('r, 'd) db_env \<Rightarrow> ('r, 'd) DBImpl \<Rightarrow> slice \<Rightarrow> slice \<Rightarrow> status \<times> ('r, 'd) DBImpl" where
  "DB_DeleteRange env db begin_key end_key =
    DB_Write env (snd (WB_DeleteRange (WriteBatch_new 0) 0 begin_key end_key)) db"

definition DB_Merge :: "('r, 'd) db_env \<Rightarrow> ('r, 'd) DBImpl \<Rightarrow> slice \<Rightarrow> slice \<Rightarrow> status \<times> ('r, 'd) DBImpl" where
  "DB_Merge env db key v =
    (if gc_merge_operator (de_get env) = None then (NotSupported ''Provide a merge_operator when opening DB'', db)
     else
       let (s, b) = WB_Merge (WriteBatch_new 0) 0 key v
       in if \<not> ok s then (s, db) else DB_Write env b db)"

text \<open>
  \<^verbatim>\<open>GetImpl\<close> without immutable memtables and tables: a key that the memtable does not know is not found.
\<close>

definition DB_Get :: "('r, 'd) db_env \<Rightarrow> ('r, 'd) DBImpl \<Rightarrow> slice \<Rightarrow> slice option" where
  "DB_Get env db key =
    (let (done, s, m) = MemTable_Get (de_rep env) (de_get env) (de_covering env)
           (LookupKey_new key (db_last_sequence db)) 0
           \<lparr>sv_status = Status_OK, sv_found_final_value = False, sv_merge_in_progress = False, sv_value = [],
            sv_seq = 0, sv_operands = [], sv_is_blob_index = False\<rparr> (db_mem db)
     in if done \<and> ok (sv_status s) then Some (sv_value s) else None)"

section \<open>Replaying a log\<close>

text \<open>
  \<^verbatim>\<open>RecoverLogFiles\<close> up to the end of its loop over the logs, without a filter for log records. No memtable is
  full, so that no table is written during the replay. The calls of the reporter during \<^verbatim>\<open>ReadRecord\<close> are applied
  when it returns.
\<close>

record 'r replay =
  rp_status :: status
  rp_stop_for_corruption :: bool
  rp_corrupted_log_number :: u64
  rp_next_sequence :: u64
  rp_last_sequence :: u64
  rp_mem :: "'r MemTable"
  rp_trx :: trx_table

record recover_conf =
  rc_mode :: WALRecoveryMode
  rc_paranoid_checks :: bool
  rc_allow_2pc :: bool
  rc_cf_log_number :: u64
  rc_min_log_number_to_keep_2pc :: u64

definition LogReporter_Corruption :: "recover_conf \<Rightarrow> status \<Rightarrow> 'r replay \<Rightarrow> 'r replay" where
  "LogReporter_Corruption conf s rp =
    (if \<not> (\<not> rc_paranoid_checks conf \<or> rc_mode conf = kSkipAnyCorruptedRecords) \<and> ok (rp_status rp)
     then rp\<lparr>rp_status := s\<rparr> else rp)"

definition MaybeIgnoreError :: "recover_conf \<Rightarrow> status \<Rightarrow> status" where
  "MaybeIgnoreError conf s = (if ok s \<or> rc_paranoid_checks conf then s else Status_OK)"

definition recovery_conf :: "recover_conf \<Rightarrow> u64 \<Rightarrow> inserter_conf" where
  "recovery_conf conf log =
    \<lparr>ic_ignore_missing_column_families = True, ic_recovering_log_number = log, ic_cf_log_number = rc_cf_log_number conf,
     ic_delete_range_supported = True, ic_allow_2pc = rc_allow_2pc conf\<rparr>"

text \<open>The body of the loop for a record; the first component is true for a \<^verbatim>\<open>break\<close>.\<close>

definition recover_record :: "'r MemTableRep \<Rightarrow> recover_conf \<Rightarrow> u64 \<Rightarrow> slice \<Rightarrow> 'r replay \<Rightarrow> bool \<times> 'r replay" where
  "recover_record ops conf log record rp =
    (if length record < kHeader then (False, LogReporter_Corruption conf (Corruption ''log record too small'') rp)
     else
       let b = SetContents (WriteBatch_new 0) record;
           rp = (if rc_mode conf = kPointInTimeRecovery \<and> WB_Sequence b = rp_next_sequence rp
                 then rp\<lparr>rp_stop_for_corruption := False\<rparr> else rp)
       in if rc_mode conf = kPointInTimeRecovery \<and> rp_stop_for_corruption rp then (True, rp)
          else
            let (s, next_seq, st) = InsertInto_batch ops (recovery_conf conf log) b (rp_mem rp) (rp_trx rp);
                rp = rp\<lparr>rp_status := MaybeIgnoreError conf s, rp_next_sequence := next_seq,
                        rp_mem := in_mem st, rp_trx := in_trx st\<rparr>
            in (False, if \<not> ok (rp_status rp) then LogReporter_Corruption conf (rp_status rp) rp else rp))"

definition apply_reports :: "recover_conf \<Rightarrow> 'f log_reader \<Rightarrow> 'r replay \<Rightarrow> 'f log_reader \<times> 'r replay" where
  "apply_reports conf r rp =
    (case reporter r of
       None \<Rightarrow> (r, rp)
     | Some reports \<Rightarrow> (r\<lparr>reporter := Some []\<rparr>, fold (\<lambda>x. LogReporter_Corruption conf (snd x)) reports rp))"

partial_function (option) recover_loop ::
    "('f \<Rightarrow> nat \<Rightarrow> status \<times> slice \<times> 'f) \<Rightarrow> 'r MemTableRep \<Rightarrow> recover_conf \<Rightarrow> u64 \<Rightarrow> 'f log_reader \<Rightarrow> 'r replay \<Rightarrow>
     'r replay option" where
  "recover_loop rd ops conf log r rp =
    (case ReadRecord rd (rc_mode conf) r of
       None \<Rightarrow> None
     | Some (b, record, scratch, r1) \<Rightarrow>
         let (r2, rp1) = apply_reports conf r1 rp
         in if \<not> b \<or> \<not> ok (rp_status rp1) then Some rp1
            else
              let (stop, rp2) = recover_record ops conf log record rp1
              in if stop then Some rp2 else recover_loop rd ops conf log r2 rp2)"

text \<open>After the last record of a log; the first component is true when \<^verbatim>\<open>RecoverLogFiles\<close> returns there.\<close>

definition recover_log_end :: "recover_conf \<Rightarrow> u64 \<Rightarrow> 'r replay \<Rightarrow> bool \<times> 'r replay" where
  "recover_log_end conf log rp =
    (let (returned, rp) =
       (if \<not> ok (rp_status rp) then
          if st_code (rp_status rp) = KNotSupported then (True, rp)
          else if rc_mode conf = kSkipAnyCorruptedRecords then (False, rp\<lparr>rp_status := Status_OK\<rparr>)
          else if rc_mode conf = kPointInTimeRecovery then
            (False, rp\<lparr>rp_status := Status_OK, rp_stop_for_corruption := True, rp_corrupted_log_number := log\<rparr>)
          else (True, rp)
        else (False, rp))
     in if returned then (True, rp)
        else
          let last_sequence = rp_next_sequence rp - 1
          in (False,
              if rp_next_sequence rp \<noteq> kMaxSequenceNumber \<and> rp_last_sequence rp \<le> last_sequence
              then rp\<lparr>rp_last_sequence := last_sequence\<rparr> else rp))"

text \<open>\<open>open_file\<close> is what \<^verbatim>\<open>NewSequentialFile\<close> gives for the file of a log number.\<close>

fun recover_logs ::
    "('f \<Rightarrow> nat \<Rightarrow> status \<times> slice \<times> 'f) \<Rightarrow> (u64 \<Rightarrow> status + 'f) \<Rightarrow> 'r MemTableRep \<Rightarrow> recover_conf \<Rightarrow> u64 list \<Rightarrow>
     'r replay \<Rightarrow> (bool \<times> 'r replay) option" where
  "recover_logs rd open_file ops conf [] rp = Some (False, rp)"
| "recover_logs rd open_file ops conf (log # logs) rp =
    (if log < rc_min_log_number_to_keep_2pc conf then recover_logs rd open_file ops conf logs rp
     else
       (case open_file log of
          Inl s \<Rightarrow>
            let rp = rp\<lparr>rp_status := MaybeIgnoreError conf s\<rparr>
            in if \<not> ok (rp_status rp) then Some (True, rp) else recover_logs rd open_file ops conf logs rp
        | Inr file \<Rightarrow>
            (case recover_loop rd ops conf log (Reader_new file (Some []) True log False) (rp\<lparr>rp_status := Status_OK\<rparr>) of
               None \<Rightarrow> None
             | Some rp \<Rightarrow>
                 let (returned, rp) = recover_log_end conf log rp
                 in if returned then Some (True, rp) else recover_logs rd open_file ops conf logs rp)))"

definition RecoverLogFiles ::
    "('f \<Rightarrow> nat \<Rightarrow> status \<times> slice \<times> 'f) \<Rightarrow> (u64 \<Rightarrow> status + 'f) \<Rightarrow> 'r MemTableRep \<Rightarrow> recover_conf \<Rightarrow> u64 list \<Rightarrow>
     'r replay \<Rightarrow> (status \<times> 'r replay) option" where
  "RecoverLogFiles rd open_file ops conf logs rp =
    (case recover_logs rd open_file ops conf logs rp of
       None \<Rightarrow> None
     | Some (returned, rp) \<Rightarrow>
         Some (if returned then rp_status rp
               else if rp_stop_for_corruption rp \<and>
                       (rc_mode conf = kPointInTimeRecovery \<or> rc_mode conf = kTolerateCorruptedTailRecords) \<and>
                       rc_cf_log_number conf > rp_corrupted_log_number rp
               then Corruption ''SST file is ahead of WALs''
               else rp_status rp, rp))"

definition replay_start :: "u64 \<Rightarrow> 'r MemTable \<Rightarrow> 'r replay" where
  "replay_start last_seq mem =
    \<lparr>rp_status = Status_OK, rp_stop_for_corruption = False, rp_corrupted_log_number = kMaxSequenceNumber,
     rp_next_sequence = kMaxSequenceNumber, rp_last_sequence = last_seq, rp_mem = mem, rp_trx = trx_table_new\<rparr>"

section \<open>What an iteration does with calls that may fail\<close>

text \<open>The call for an operation. The statuses of the calls for markers are dropped.\<close>

fun handler_call :: "'s Handler \<Rightarrow> wb_op \<Rightarrow> bool \<Rightarrow> 's \<Rightarrow> status \<times> 's" where
  "handler_call h (OpPut cf k v) e st = h_PutCF h cf k v st"
| "handler_call h (OpDelete cf k) e st = h_DeleteCF h cf k st"
| "handler_call h (OpSingleDelete cf k) e st = h_SingleDeleteCF h cf k st"
| "handler_call h (OpDeleteRange cf k v) e st = h_DeleteRangeCF h cf k v st"
| "handler_call h (OpMerge cf k v) e st = h_MergeCF h cf k v st"
| "handler_call h (OpBlobIndex cf k v) e st = h_PutBlobIndexCF h cf k v st"
| "handler_call h (OpLogData x) e st = (Status_OK, h_LogData h x st)"
| "handler_call h OpNoop e st = (Status_OK, snd (h_MarkNoop h e st))"
| "handler_call h OpBeginPrepare e st = (Status_OK, snd (h_MarkBeginPrepare h False st))"
| "handler_call h OpBeginPersistedPrepare e st = (Status_OK, snd (h_MarkBeginPrepare h False st))"
| "handler_call h OpBeginUnprepare e st = (Status_OK, snd (h_MarkBeginPrepare h True st))"
| "handler_call h (OpEndPrepare x) e st = (Status_OK, snd (h_MarkEndPrepare h x st))"
| "handler_call h (OpCommit x) e st = (Status_OK, snd (h_MarkCommit h x st))"
| "handler_call h (OpRollback x) e st = (Status_OK, snd (h_MarkRollback h x st))"

text \<open>A call that asks to be tried again is made once more; a second time in a row is an error.\<close>

definition retry_call :: "'s Handler \<Rightarrow> wb_op \<Rightarrow> bool \<Rightarrow> 's \<Rightarrow> status \<times> 's" where
  "retry_call h op e st =
    (case handler_call h op e st of (s, st1) \<Rightarrow>
     if IsTryAgain s then
       case handler_call h op e st1 of (s2, st2) \<Rightarrow>
       if IsTryAgain s2 then
         (Corruption ''two consecutive TryAgain in WriteBatch handler; this is either a software bug or data corruption.'', st2)
       else (s2, st2)
     else (s, st1))"

fun run_calls :: "'s Handler \<Rightarrow> wb_op list \<Rightarrow> bool \<Rightarrow> 's \<Rightarrow> status \<times> 's" where
  "run_calls h [] e st = (Status_OK, st)"
| "run_calls h (op # ops) e st =
    (case retry_call h op e st of (s, st') \<Rightarrow> if ok s then run_calls h ops (empty_after op e) st' else (s, st'))"

lemma run_calls_append:
  "run_calls h (xs @ ys) e st =
    (case run_calls h xs e st of (s, st') \<Rightarrow> if ok s then run_calls h ys (empty_run xs e) st' else (s, st'))"
  by (induction xs arbitrary: e st) (auto split: prod.splits)

text \<open>A handler that never stops the iteration, with the policy of ordinary transactions, and one status for success.\<close>

locale batch_handler =
  fixes h :: "'s Handler"
  assumes continue: "h_Continue h st = (True, st)"
    and policy: "h_WriteAfterCommit h st" "\<not> h_WriteBeforePrepare h st"
    and success: "ok (fst (handler_call h op e st)) \<Longrightarrow> fst (handler_call h op e st) = Status_OK"
begin

lemma switch_call:
  assumes "op_policy True False op"
  shows "Iterate_switch h (op_cursor op r c) Status_OK e found st =
    (let (s, st') = handler_call h op e st
     in if ok s then (Status_OK, empty_after op e, if op_counted op then found + 1 else found, st')
        else (s, e, found, st'))"
  using assms success [of op e st]
  by (cases op)
    (auto simp: Iterate_switch_def Let_def value_type_defs at_record_def set_field_defs counted_call_def policy
      split: prod.splits)

lemma IsTryAgain_not_ok: "IsTryAgain s \<Longrightarrow> \<not> ok s"
  by (auto simp: IsTryAgain_def ok_def)

lemma loop_retry:
  assumes "op_policy True False op" "IsTryAgain s"
  shows "Iterate_loop h (op_cursor op r c) e found s False st =
    (let (s2, st2) = handler_call h op e st
     in if ok s2 then Iterate_loop h (op_cursor op r c) (empty_after op e) (if op_counted op then found + 1 else found) Status_OK True st2
        else if IsTryAgain s2 then
          (Corruption ''two consecutive TryAgain in WriteBatch handler; this is either a software bug or data corruption.'', True, found, st2)
        else (s2, True, found, st2))"
proof -
  obtain s2 st2 where c: "handler_call h op e st = (s2, st2)" by (cases "handler_call h op e st")
  have 1: "Iterate_loop h (op_cursor op r c) e found s False st =
    (case Iterate_switch h (op_cursor op r c) Status_OK e found st of (s, e, found, st) \<Rightarrow>
       Iterate_loop h (op_cursor op r c) e found s True st)"
    using assms(2) by (subst Iterate_loop.simps) (simp add: continue)
  show ?thesis
  proof (cases "ok s2")
    case True
    then show ?thesis unfolding 1 switch_call [OF assms(1)] c by simp
  next
    case False
    then show ?thesis unfolding 1 switch_call [OF assms(1)] c
      by (simp add: Iterate_loop.simps [of h "op_cursor op r c" e found s2 True st2] continue)
  qed
qed

lemma loop_call:
  assumes "op_ok op" "op_policy True False op" "cur_input c = enc_op op @ r"
  shows "\<exists>c' l. cur_input c' = r \<and> Iterate_loop h c e found Status_OK lw st =
    (let (s, st') = retry_call h op e st
     in if ok s then Iterate_loop h c' (empty_after op e) (if op_counted op then found + 1 else found) Status_OK l st'
        else (s, True, found, st'))"
proof -
  let ?c = "c\<lparr>cur_tag := 0, cur_cf := 0\<rparr>"
  let ?c' = "op_cursor op r ?c"
  have 1: "ReadRecordFromWriteBatch ?c = (Status_OK, ?c')"
    by (rule ReadRecord_enc) (use assms in simp_all)
  have 2: "cur_input c \<noteq> []" using assms(3) by simp
  obtain s st' where s: "handler_call h op e st = (s, st')" by (cases "handler_call h op e st")
  have step: "Iterate_loop h c e found Status_OK lw st =
    (case Iterate_switch h ?c' Status_OK e found st of (s, e, found, st) \<Rightarrow> Iterate_loop h ?c' e found s False st)"
    by (subst Iterate_loop.simps) (simp add: 1 2 continue)
  consider "ok s" | "\<not> ok s" "\<not> IsTryAgain s" | "IsTryAgain s" by blast
  then show ?thesis
  proof cases
    case 1
    then have "\<not> IsTryAgain s" using IsTryAgain_not_ok by blast
    then show ?thesis using 1 unfolding step switch_call [OF assms(2)] retry_call_def s
      by (intro exI [of _ ?c'] exI [of _ False]) simp
  next
    case 2
    then show ?thesis unfolding step switch_call [OF assms(2)] retry_call_def s
      by (intro exI [of _ ?c'] exI [of _ False]) (simp add: Iterate_loop.simps [of h ?c' e found s False st'])
  next
    case 3
    note again = this
    obtain s2 st2 where s2: "handler_call h op e st' = (s2, st2)" by (cases "handler_call h op e st'")
    show ?thesis
      using again IsTryAgain_not_ok [OF again] IsTryAgain_not_ok [of s2]
      unfolding step switch_call [OF assms(2)] retry_call_def s
      by (intro exI [of _ ?c'] exI [of _ True]) (auto simp: s2 loop_retry [OF assms(2) again])
  qed
qed

lemma loop_calls:
  assumes "\<forall>op \<in> set ops. op_ok op \<and> op_policy True False op" "cur_input c = enc_ops ops"
  shows "\<exists>n. Iterate_loop h c e found Status_OK lw st =
    (let (s, st') = run_calls h ops e st in (s, True, if ok s then found + count_ops ops else n, st'))"
  using assms
proof (induction ops arbitrary: c e found lw st)
  case Nil
  then show ?case by (simp add: Iterate_loop.simps [of h c e found Status_OK lw st])
next
  case (Cons op ops)
  obtain s st' where s: "retry_call h op e st = (s, st')" by (cases "retry_call h op e st")
  obtain c' l where c': "cur_input c' = enc_ops ops" "Iterate_loop h c e found Status_OK lw st =
    (let (s, st') = retry_call h op e st
     in if ok s then Iterate_loop h c' (empty_after op e) (if op_counted op then found + 1 else found) Status_OK l st'
        else (s, True, found, st'))"
    using loop_call [of op c "enc_ops ops" e found lw st] Cons.prems by auto
  show ?case
  proof (cases "ok s")
    case True
    have "found + (if op_counted op then 1 else 0) + count_ops ops = found + count_ops (op # ops)"
      by (simp add: count_ops_Cons)
    then show ?thesis
      using Cons.IH [OF _ c'(1), of "empty_after op e" "if op_counted op then found + 1 else found" l st'] Cons.prems(1) True
      unfolding c'(2) s by (auto simp: s split: prod.splits if_splits)
  next
    case False
    then show ?thesis unfolding c'(2) s by (auto simp: s)
  qed
qed

lemma run_calls_success: "ok (fst (run_calls h ops e st)) \<Longrightarrow> fst (run_calls h ops e st) = Status_OK"
  by (induction ops arbitrary: e st) (auto split: prod.splits if_splits)

text \<open>An iteration is the run of its calls.\<close>

lemma Iterate_calls:
  assumes "wb_rel b a" "\<forall>op \<in> set (a_ops a). op_ok op \<and> op_policy True False op"
  shows "Iterate h b st = run_calls h (a_ops a) True st"
proof -
  let ?c = "\<lparr>cur_input = drop kHeader (rep b), cur_tag = 0, cur_cf = 0, cur_key = [], cur_value = [],
    cur_blob = [], cur_xid = []\<rparr>"
  obtain hdr where hdr: "length hdr = kHeader" "rep b = hdr @ enc_ops (a_ops a)" by (rule rel_header [OF assms(1)])
  obtain s st' where s: "run_calls h (a_ops a) True st = (s, st')" by (cases "run_calls h (a_ops a) True st")
  have "cur_input ?c = enc_ops (a_ops a)" using hdr by simp
  from loop_calls [OF assms(2) this, of True 0 False st] obtain n where
    l: "Iterate_loop h ?c True 0 Status_OK False st = (s, True, if ok s then 0 + count_ops (a_ops a) else n, st')"
    by (auto simp: s)
  have len: "\<not> length (rep b) < kHeader" using hdr by simp
  show ?thesis
    using run_calls_success [of "a_ops a" True st] rel_count [OF assms(1)]
    unfolding Iterate_def l s if_not_P [OF len] by auto
qed

end

lemma mem_Add_status: "ok (fst (mem_Add ops t k v st)) \<Longrightarrow> fst (mem_Add ops t k v st) = Status_OK"
  by (auto simp: mem_Add_def TryAgain_def Let_def ok_def split: prod.splits if_splits)

lemma inserter_record_status:
  "ok (fst (inserter_record ops conf f cf t k v st)) \<Longrightarrow> fst (inserter_record ops conf f cf t k v st) = Status_OK"
  using mem_Add_status [of ops t k v]
  by (auto simp: inserter_record_def SeekToColumnFamily_def Let_def split: option.splits if_splits)

interpretation inserter: batch_handler "MemTableInserter ops conf" for ops conf
proof unfold_locales
  fix op e and st :: "'a inserter"
  assume "ok (fst (handler_call (MemTableInserter ops conf) op e st))"
  then show "fst (handler_call (MemTableInserter ops conf) op e st) = Status_OK"
    using inserter_record_status [of ops conf] mem_Add_status [of ops]
    by (cases op) (auto simp: MemTableInserter_def inserter_handler_def PutCFImpl_def Inserter_DeleteCF_def
        Inserter_SingleDeleteCF_def Inserter_MergeCF_def Inserter_DeleteRangeCF_def SeekToColumnFamily_def
        NotSupported_def InvalidArgument_def ok_def Let_def split: option.splits if_splits)
qed (simp_all add: MemTableInserter_def inserter_handler_def Handler_default_def Handler_base_def)

section \<open>Replaying a record does what the write did\<close>

text \<open>
  Operations on the default column family, outside of the sections of a two-phase commit: what they add
  to the memtable.
\<close>

fun plain_op :: "wb_op \<Rightarrow> bool" where
  "plain_op (OpPut cf k v) \<longleftrightarrow> cf = 0"
| "plain_op (OpDelete cf k) \<longleftrightarrow> cf = 0"
| "plain_op (OpSingleDelete cf k) \<longleftrightarrow> cf = 0"
| "plain_op (OpDeleteRange cf k v) \<longleftrightarrow> cf = 0"
| "plain_op (OpMerge cf k v) \<longleftrightarrow> cf = 0"
| "plain_op (OpBlobIndex cf k v) \<longleftrightarrow> cf = 0"
| "plain_op (OpLogData x) \<longleftrightarrow> True"
| "plain_op OpNoop \<longleftrightarrow> True"
| "plain_op _ \<longleftrightarrow> False"

fun op_entry :: "wb_op \<Rightarrow> (byte \<times> slice \<times> slice) option" where
  "op_entry (OpPut cf k v) = Some (kTypeValue, k, v)"
| "op_entry (OpDelete cf k) = Some (kTypeDeletion, k, [])"
| "op_entry (OpSingleDelete cf k) = Some (kTypeSingleDeletion, k, [])"
| "op_entry (OpDeleteRange cf k v) = Some (kTypeRangeDeletion, k, v)"
| "op_entry (OpMerge cf k v) = Some (kTypeMerge, k, v)"
| "op_entry (OpBlobIndex cf k v) = Some (kTypeBlobIndex, k, v)"
| "op_entry _ = None"

definition apply_op :: "'r MemTableRep \<Rightarrow> wb_op \<Rightarrow> 'r inserter \<Rightarrow> status \<times> 'r inserter" where
  "apply_op ops op st =
    (case op_entry op of
       None \<Rightarrow> (Status_OK, st)
     | Some (t, k, v) \<Rightarrow> mem_Add ops t k v (st\<lparr>in_has_valid_writes := True\<rparr>))"

definition apply_retry :: "'r MemTableRep \<Rightarrow> wb_op \<Rightarrow> 'r inserter \<Rightarrow> status \<times> 'r inserter" where
  "apply_retry ops op st =
    (case apply_op ops op st of (s, st1) \<Rightarrow>
     if IsTryAgain s then
       case apply_op ops op st1 of (s2, st2) \<Rightarrow>
       if IsTryAgain s2 then
         (Corruption ''two consecutive TryAgain in WriteBatch handler; this is either a software bug or data corruption.'', st2)
       else (s2, st2)
     else (s, st1))"

fun apply_ops :: "'r MemTableRep \<Rightarrow> wb_op list \<Rightarrow> 'r inserter \<Rightarrow> status \<times> 'r inserter" where
  "apply_ops ops [] st = (Status_OK, st)"
| "apply_ops ops (x # xs) st = (case apply_retry ops x st of (s, st') \<Rightarrow> if ok s then apply_ops ops xs st' else (s, st'))"

lemma apply_ops_append:
  "apply_ops ops (xs @ ys) st = (case apply_ops ops xs st of (s, st') \<Rightarrow> if ok s then apply_ops ops ys st' else (s, st'))"
  by (induction xs arbitrary: st) (auto split: prod.splits)

text \<open>The configuration does not matter for plain operations, unless the column family is newer than the log.\<close>

definition plain_conf :: "inserter_conf \<Rightarrow> bool" where
  "plain_conf conf \<longleftrightarrow> ic_delete_range_supported conf \<and>
    (ic_recovering_log_number conf \<noteq> 0 \<longrightarrow> ic_cf_log_number conf \<le> ic_recovering_log_number conf)"

definition outside_trx :: "'r inserter \<Rightarrow> bool" where
  "outside_trx st \<longleftrightarrow> in_rebuilding_trx st = None \<and> in_log_number_ref st = 0"

lemma mem_Add_outside: "outside_trx st \<Longrightarrow> outside_trx (snd (mem_Add ops t k v st))"
  by (auto simp: outside_trx_def mem_Add_def MaybeAdvanceSeq_def Let_def split: prod.splits)

lemma apply_op_outside: "outside_trx st \<Longrightarrow> outside_trx (snd (apply_op ops op st))"
  using mem_Add_outside [of "st\<lparr>in_has_valid_writes := True\<rparr>"]
  by (auto simp: apply_op_def split: option.split) (auto simp: outside_trx_def)

lemma apply_retry_outside: "outside_trx st \<Longrightarrow> outside_trx (snd (apply_retry ops op st))"
  by (auto simp: apply_retry_def split: prod.split) (metis apply_op_outside snd_conv)+

lemma apply_ops_outside: "outside_trx st \<Longrightarrow> outside_trx (snd (apply_ops ops xs st))"
  by (induction xs arbitrary: st) (auto split: prod.split, metis apply_retry_outside snd_conv, metis apply_retry_outside snd_conv)

lemma seek_plain:
  "plain_conf conf \<Longrightarrow> outside_trx st \<Longrightarrow> SeekToColumnFamily conf 0 st = (True, Status_OK, st\<lparr>in_has_valid_writes := True\<rparr>)"
  by (auto simp: SeekToColumnFamily_def plain_conf_def outside_trx_def Let_def)

lemma inserter_record_plain:
  "plain_conf conf \<Longrightarrow> outside_trx st \<Longrightarrow>
    inserter_record ops conf f 0 t k v st = mem_Add ops t k v (st\<lparr>in_has_valid_writes := True\<rparr>)"
  by (frule (1) seek_plain) (simp add: inserter_record_def outside_trx_def)

lemma plain_call:
  assumes "plain_op op" "plain_conf conf" "outside_trx st"
  shows "handler_call (MemTableInserter ops conf) op e st = apply_op ops op st"
  using assms(1)
proof (cases op)
  case (OpDeleteRange cf k v)
  then show ?thesis
    using assms seek_plain [OF assms(2,3)]
    by (simp add: MemTableInserter_def inserter_handler_def Inserter_DeleteRangeCF_def apply_op_def outside_trx_def plain_conf_def)
qed (use assms in \<open>simp_all add: MemTableInserter_def inserter_handler_def Handler_default_def Handler_base_def apply_op_def
    PutCFImpl_def Inserter_DeleteCF_def Inserter_SingleDeleteCF_def Inserter_MergeCF_def inserter_record_plain
    Inserter_MarkNoop_def MaybeAdvanceSeq_def\<close>)

lemma plain_retry:
  assumes "plain_op op" "plain_conf conf" "outside_trx st"
  shows "retry_call (MemTableInserter ops conf) op e st = apply_retry ops op st"
  using apply_op_outside [OF assms(3), of ops op] plain_call [OF assms(1,2), where ops = ops and e = e] assms(3)
  unfolding retry_call_def apply_retry_def by (cases "apply_op ops op st") simp

lemma run_calls_plain:
  assumes "\<forall>op \<in> set xs. plain_op op" "plain_conf conf" "outside_trx st"
  shows "run_calls (MemTableInserter ops conf) xs e st = apply_ops ops xs st"
  using assms(1,3)
proof (induction xs arbitrary: e st)
  case (Cons op xs)
  then show ?case
    using plain_retry [OF _ assms(2), of op st ops e] apply_retry_outside [of st ops op]
    by (cases "apply_retry ops op st") simp
qed simp

lemma mem_Add_trx: "mem_Add ops t k v (st\<lparr>in_trx := x\<rparr>) = apsnd (in_trx_update (\<lambda>_. x)) (mem_Add ops t k v st)"
  by (auto simp: mem_Add_def MaybeAdvanceSeq_def Let_def split: prod.split)

lemma apply_op_trx: "apply_op ops op (st\<lparr>in_trx := x\<rparr>) = apsnd (in_trx_update (\<lambda>_. x)) (apply_op ops op st)"
proof -
  have "st\<lparr>in_trx := x, in_has_valid_writes := True\<rparr> = st\<lparr>in_has_valid_writes := True, in_trx := x\<rparr>" by simp
  then have "mem_Add ops t k v (st\<lparr>in_trx := x, in_has_valid_writes := True\<rparr>) =
      apsnd (in_trx_update (\<lambda>_. x)) (mem_Add ops t k v (st\<lparr>in_has_valid_writes := True\<rparr>))" for t k v
    by (metis mem_Add_trx)
  then show ?thesis by (auto simp: apply_op_def split: option.split)
qed

lemma apply_retry_trx: "apply_retry ops op (st\<lparr>in_trx := x\<rparr>) = apsnd (in_trx_update (\<lambda>_. x)) (apply_retry ops op st)"
  by (auto simp: apply_retry_def apply_op_trx split: prod.split)

lemma apply_ops_trx: "apply_ops ops xs (st\<lparr>in_trx := x\<rparr>) = apsnd (in_trx_update (\<lambda>_. x)) (apply_ops ops xs st)"
  by (induction xs arbitrary: st) (auto simp: apply_retry_trx split: prod.split)

text \<open>
  A writer whose batch holds the operations \<open>xs\<close>, or whose callback failed: then it writes nothing. The batch was
  built by any calls, has no termination point for the log, and belongs to no prepared transaction.
\<close>

definition writer_ops :: "writer \<Rightarrow> wb_op list \<Rightarrow> bool" where
  "writer_ops w xs \<longleftrightarrow>
    (if CallbackFailed w then xs = []
     else \<not> w_disable_memtable w \<and> w_log_ref w = 0 \<and> is_cleared (wal_term_point (w_batch w)) \<and>
       (\<exists>a. wb_rel (w_batch w) a \<and> a_ops a = xs) \<and> (\<forall>op \<in> set xs. op_ok op \<and> plain_op op))"

lemma plain_policy: "plain_op op \<Longrightarrow> op_policy True False op"
  by (cases op) auto

lemma Iterate_plain:
  assumes "wb_rel b a" "\<forall>op \<in> set (a_ops a). op_ok op \<and> plain_op op" "plain_conf conf" "outside_trx st"
  shows "Iterate (MemTableInserter ops conf) b st = apply_ops ops (a_ops a) st"
proof -
  have 1: "\<forall>op \<in> set (a_ops a). op_ok op \<and> op_policy True False op" using assms(2) plain_policy by blast
  have 2: "\<forall>op \<in> set (a_ops a). plain_op op" using assms(2) by blast
  show ?thesis unfolding inserter.Iterate_calls [OF assms(1) 1] by (rule run_calls_plain [OF 2 assms(3,4)])
qed

lemma InsertInto_loop_plain:
  assumes "list_all2 writer_ops ws xss" "plain_conf conf" "outside_trx st"
  shows "InsertInto_loop ops conf ws st = apply_ops ops (concat xss) st"
  using assms(1,3)
proof (induction ws xss arbitrary: st rule: list_all2_induct)
  case (Cons w ws xs xss)
  show ?case
  proof (cases "CallbackFailed w")
    case True
    then show ?thesis using Cons by (simp add: writer_ops_def)
  next
    case False
    with Cons.hyps(1) obtain a where a: "wb_rel (w_batch w) a" "a_ops a = xs" "\<forall>op \<in> set xs. op_ok op \<and> plain_op op"
      "\<not> w_disable_memtable w" "w_log_ref w = 0" by (auto simp: writer_ops_def)
    have st: "st\<lparr>in_log_number_ref := w_log_ref w\<rparr> = st" using Cons.prems a(5) by (simp add: outside_trx_def)
    have i: "Iterate (MemTableInserter ops conf) (SetSequence (w_batch w) (in_sequence st)) st = apply_ops ops xs st"
      using Iterate_plain [OF SetSequence_rel [OF a(1)] _ assms(2) Cons.prems] a(2,3) by simp
    have "outside_trx (snd (apply_ops ops xs st))" by (rule apply_ops_outside [OF Cons.prems])
    then show ?thesis
      using Cons.IH [of "snd (apply_ops ops xs st)"] False a(4)
      by (cases "apply_ops ops xs st") (simp add: ShouldWriteToMemtable_def st i apply_ops_append)
  qed
qed simp

lemma MergeBatch_fold_rel:
  assumes "list_all2 writer_ops ws xss" "wb_rel m a"
  shows "\<exists>a'. wb_rel (fold (\<lambda>w m. if \<not> CallbackFailed w then snd (WB_Append m (w_batch w) True) else m) ws m) a' \<and>
    a_ops a' = a_ops a @ concat xss"
  using assms
proof (induction ws xss arbitrary: m a rule: list_all2_induct)
  case (Cons w ws xs xss)
  show ?case
  proof (cases "CallbackFailed w")
    case True
    then show ?thesis using Cons by (simp add: writer_ops_def)
  next
    case False
    with Cons.hyps(1) obtain b where b: "wb_rel (w_batch w) b" "a_ops b = xs" "is_cleared (wal_term_point (w_batch w))"
      by (auto simp: writer_ops_def)
    have "wb_rel (snd (WB_Append m (w_batch w) True)) (a\<lparr>a_ops := a_ops a @ xs\<rparr>)"
      using WB_Append_rel [OF Cons.prems b(1), of xs True] b by simp
    from Cons.IH [OF this] False show ?thesis by simp
  qed
qed auto

lemma MergeBatch_rel:
  assumes "list_all2 writer_ops ws xss"
  shows "\<exists>a. wb_rel (MergeBatch ws) a \<and> a_ops a = concat xss"
proof (cases "length ws = 1 \<and> \<not> CallbackFailed (hd ws) \<and> is_cleared (wal_term_point (w_batch (hd ws)))")
  case True
  then obtain w where w: "ws = [w]" by (auto simp: length_Suc_conv)
  with assms obtain xs where "xss = [xs]" "writer_ops w xs" by (auto simp: list_all2_Cons1)
  with True w show ?thesis by (auto simp: MergeBatch_def writer_ops_def)
next
  case False
  then show ?thesis
    using MergeBatch_fold_rel [OF assms WriteBatch_new_rel [of 0]] unfolding MergeBatch_def if_not_P [OF False] by simp
qed

lemma group_ops_ok:
  assumes "list_all2 writer_ops ws xss"
  shows "\<forall>op \<in> set (concat xss). op_ok op \<and> plain_op op"
  using assms by (induction ws xss rule: list_all2_induct) (auto simp: writer_ops_def split: if_splits)

lemma Iterate_rep: "rep b = rep b' \<Longrightarrow> Iterate h b st = Iterate h b' st"
  unfolding Iterate_def WB_Count_def by metis

text \<open>The record of a group in the log.\<close>

definition group_record :: "writer list \<Rightarrow> u64 \<Rightarrow> slice" where
  "group_record ws seq = rep (SetSequence (MergeBatch ws) seq)"

lemma record_sequence [simp]: "WB_Sequence (SetContents b (group_record ws seq)) = seq"
  by (simp add: group_record_def SetContents_def WB_Sequence_def SetSequence_def DecodeFixed64_Encode)

lemma record_length:
  assumes "list_all2 writer_ops ws xss"
  shows "\<not> length (group_record ws seq) < kHeader"
proof -
  obtain a where a: "wb_rel (MergeBatch ws) a" "a_ops a = concat xss" using MergeBatch_rel [OF assms] by blast
  obtain hdr where "length hdr = kHeader" "rep (SetSequence (MergeBatch ws) seq) = hdr @ enc_ops (a_ops a)"
    by (rule rel_header [OF SetSequence_rel [OF a(1)]])
  then show ?thesis by (simp add: group_record_def)
qed

lemma replay_group:
  assumes "list_all2 writer_ops ws xss" "plain_conf conf"
  shows "InsertInto_batch ops conf (SetContents b (group_record ws seq)) mem trx =
    (case apply_ops ops (concat xss) (MemTableInserter_new seq mem trx) of (s, st) \<Rightarrow> (s, in_sequence st, st))"
proof -
  obtain a where a: "wb_rel (MergeBatch ws) a" "a_ops a = concat xss" using MergeBatch_rel [OF assms(1)] by blast
  have o: "outside_trx (MemTableInserter_new seq mem trx)" by (simp add: outside_trx_def MemTableInserter_new_def)
  have "Iterate (MemTableInserter ops conf) (SetContents b (group_record ws seq)) (MemTableInserter_new seq mem trx) =
      Iterate (MemTableInserter ops conf) (SetSequence (MergeBatch ws) seq) (MemTableInserter_new seq mem trx)"
    by (rule Iterate_rep) (simp add: SetContents_def group_record_def)
  also have "\<dots> = apply_ops ops (concat xss) (MemTableInserter_new seq mem trx)"
    using Iterate_plain [OF SetSequence_rel [OF a(1)] _ assms(2) o] a(2) group_ops_ok [OF assms(1)] by simp
  finally show ?thesis by (simp add: InsertInto_batch_def)
qed

lemma write_conf_plain: "plain_conf (write_conf wo)"
  by (simp add: plain_conf_def write_conf_def)

lemma recovery_conf_plain: "rc_cf_log_number conf \<le> log \<Longrightarrow> plain_conf (recovery_conf conf log)"
  by (simp add: plain_conf_def recovery_conf_def)

lemma InsertInto_group_plain:
  assumes "list_all2 writer_ops ws xss"
  shows "InsertInto_group ops (write_conf wo) ws seq mem = apply_ops ops (concat xss) (MemTableInserter_new seq mem trx_table_new)"
  unfolding InsertInto_group_def
  by (rule InsertInto_loop_plain [OF assms write_conf_plain]) (simp add: outside_trx_def MemTableInserter_new_def)


section \<open>What the memtable holds after writes\<close>

text \<open>
  The entries of a list of operations that starts with sequence number \<open>n\<close>. Markers and log data take no number.
\<close>

fun number_ops :: "nat \<Rightarrow> wb_op list \<Rightarrow> mt_entry list" where
  "number_ops n [] = []"
| "number_ops n (x # xs) =
    (case op_entry x of
       None \<Rightarrow> number_ops n xs
     | Some (t, k, v) \<Rightarrow> (k, word_of_nat n, t, v) # number_ops (Suc n) xs)"

definition num_entries :: "wb_op list \<Rightarrow> nat" where
  "num_entries xs = length (filter op_counted xs)"

definition op_sizes :: "wb_op \<Rightarrow> bool" where
  "op_sizes x \<longleftrightarrow> (case op_entry x of None \<Rightarrow> True | Some (t, k, v) \<Rightarrow> sizes_ok k v \<and> t \<noteq> kTypeRangeDeletion)"

lemma op_counted_entry: "op_counted x \<longleftrightarrow> op_entry x \<noteq> None"
  by (cases x) auto

lemma num_entries_simps [simp]:
  "num_entries [] = 0" "num_entries (x # xs) = (if op_counted x then Suc (num_entries xs) else num_entries xs)"
  "num_entries (xs @ ys) = num_entries xs + num_entries ys"
  by (simp_all add: num_entries_def)

lemma count_num_entries: "count_ops xs = word_of_nat (num_entries xs)"
  by (simp add: count_ops_def num_entries_def)

lemma number_ops_append: "number_ops n (xs @ ys) = number_ops n xs @ number_ops (n + num_entries xs) ys"
  by (induction n xs rule: number_ops.induct) (auto simp: op_counted_entry split: option.splits prod.splits)

lemma length_number_ops: "length (number_ops n xs) = num_entries xs"
  by (induction n xs rule: number_ops.induct) (auto simp: op_counted_entry split: option.splits prod.splits)

text \<open>A memtable with the entries \<open>es\<close>, in which the next sequence number is \<open>n\<close>.\<close>

definition mem_at :: "Comparator \<Rightarrow> ('r \<Rightarrow> bytes multiset) \<Rightarrow> ('r \<Rightarrow> bool) \<Rightarrow> 'r MemTable \<Rightarrow> mt_entry list \<Rightarrow> nat \<Rightarrow> bool" where
  "mem_at c elems active m es n \<longleftrightarrow>
    mt_holds c elems m es \<and> active (mt_table m) \<and> (\<forall>e \<in> set es. unat (fst (snd e)) < n)"

lemma seq_of_nat:
  assumes "n < 2 ^ 56"
  shows "unat (word_of_nat n :: u64) = n" "(word_of_nat n :: u64) \<le> kMaxSequenceNumber"
proof -
  show u: "unat (word_of_nat n :: u64) = n"
    using assms by (simp add: unsigned_of_nat take_bit_nat_eq_self)
  show "(word_of_nat n :: u64) \<le> kMaxSequenceNumber"
    using assms by (simp add: max_sequence u)
qed

context memtable_rep
begin

lemma apply_op_new:
  assumes "mem_at c elems active (in_mem st) es n" "op_sizes x" "in_sequence st = word_of_nat n"
    "0 < n" "n + num_entries [x] \<le> 2 ^ 56"
  shows "\<exists>st'. apply_retry ops x st = (Status_OK, st') \<and> in_sequence st' = word_of_nat (n + num_entries [x]) \<and>
    mem_at c elems active (in_mem st') (es @ number_ops n [x]) (n + num_entries [x])"
proof (cases "op_entry x")
  case None
  then show ?thesis using assms(1,3) by (auto simp: apply_retry_def apply_op_def op_counted_entry IsTryAgain_def Status_OK_def)
next
  case (Some y)
  obtain t k v where y: "y = (t, k, v)" by (cases y)
  have n: "n < 2 ^ 56" using assms(5) Some by (simp add: op_counted_entry)
  note s = seq_of_nat [OF n]
  have s0: "(0 :: u64) < word_of_nat n"
    using assms(4) s(1) by (simp add: word_less_nat_alt)
  have e: "mt_entry_ok (k, word_of_nat n, t, v)"
    using assms(2) Some y s(2) s0 by (simp add: mt_entry_ok_def op_sizes_def)
  have "\<forall>e \<in> set es. mt_compare c e (k, word_of_nat n, t, v) \<noteq> 0"
    using assms(1) s(1) by (auto simp: mem_at_def mt_compare_def seq_compare_def Let_def word_less_nat_alt)
  from MemTable_Add_new [OF _ _ e this] assms(1) obtain m' where
    m': "MemTable_Add ops (in_mem st) (word_of_nat n) t k v = (True, m')"
      "mt_holds c elems m' (es @ [(k, word_of_nat n, t, v)])" "active (mt_table m')"
    by (auto simp: mem_at_def)
  have "mem_at c elems active m' (es @ [(k, word_of_nat n, t, v)]) (Suc n)"
    using m'(2,3) assms(1) s(1) by (auto simp: mem_at_def)
  then show ?thesis using m'(1) assms(3) Some
    by (simp add: apply_retry_def apply_op_def y mem_Add_def MaybeAdvanceSeq_def IsTryAgain_def Status_OK_def op_counted_entry)
qed

lemma apply_ops_new:
  assumes "mem_at c elems active (in_mem st) es n" "\<forall>x \<in> set xs. op_sizes x" "in_sequence st = word_of_nat n"
    "0 < n" "n + num_entries xs \<le> 2 ^ 56"
  shows "\<exists>st'. apply_ops ops xs st = (Status_OK, st') \<and> in_sequence st' = word_of_nat (n + num_entries xs) \<and>
    mem_at c elems active (in_mem st') (es @ number_ops n xs) (n + num_entries xs)"
  using assms
proof (induction xs arbitrary: st es n)
  case (Cons x xs)
  have x: "op_sizes x" "n + num_entries [x] \<le> 2 ^ 56" using Cons.prems(2,5) by (auto split: if_splits)
  obtain st1 where st1: "apply_retry ops x st = (Status_OK, st1)" "in_sequence st1 = word_of_nat (n + num_entries [x])"
    "mem_at c elems active (in_mem st1) (es @ number_ops n [x]) (n + num_entries [x])"
    using apply_op_new [OF Cons.prems(1) x(1) Cons.prems(3,4) x(2)] by blast
  have n: "n + num_entries (x # xs) = n + num_entries [x] + num_entries xs"
    "number_ops n (x # xs) = number_ops n [x] @ number_ops (n + num_entries [x]) xs"
    using number_ops_append [of n "[x]" xs] by auto
  have "\<exists>st'. apply_ops ops xs st1 = (Status_OK, st') \<and> in_sequence st' = word_of_nat (n + num_entries [x] + num_entries xs) \<and>
      mem_at c elems active (in_mem st') ((es @ number_ops n [x]) @ number_ops (n + num_entries [x]) xs) (n + num_entries [x] + num_entries xs)"
    by (rule Cons.IH [OF st1(3) _ st1(2)]) (use Cons.prems(2,4,5) n(1) in auto)
  then show ?case unfolding n by (simp add: st1(1) del: number_ops.simps num_entries_simps(2))
qed auto

end

section \<open>Writing groups\<close>

lemma signed_count:
  assumes "num_entries xs < 2 ^ 31"
  shows "(scast (count_ops xs) :: u64) = word_of_nat (num_entries xs)"
  using assms by (simp add: count_num_entries signed_of_nat signed_take_bit_int_eq_self)

text \<open>The operations of a group have the sizes that a memtable and the counter of a batch can hold.\<close>

definition group_sizes :: "wb_op list list \<Rightarrow> bool" where
  "group_sizes xss \<longleftrightarrow> (\<forall>xs \<in> set xss. num_entries xs < 2 ^ 31 \<and> (\<forall>x \<in> set xs. op_sizes x))"

lemma total_count_group:
  assumes "list_all2 writer_ops ws xss" "group_sizes xss"
  shows "total_count ws = word_of_nat (num_entries (concat xss))"
  using assms
proof (induction ws xss rule: list_all2_induct)
  case (Cons w ws xs xss)
  have "(if ShouldWriteToMemtable w then scast (WB_Count (w_batch w)) else 0) = (word_of_nat (num_entries xs) :: u64)"
    using Cons.hyps(1) Cons.prems signed_count [of xs]
    by (auto simp: writer_ops_def ShouldWriteToMemtable_def group_sizes_def rel_count split: if_splits)
  then show ?case using Cons.IH Cons.prems by (simp add: total_count_def group_sizes_def)
qed (simp add: total_count_def)

text \<open>
  A database with the entries \<open>es\<close> in its memtable, the last sequence number \<open>n\<close> and a log that can be written.
\<close>

definition db_at :: "Comparator \<Rightarrow> ('r \<Rightarrow> bytes multiset) \<Rightarrow> ('r \<Rightarrow> bool) \<Rightarrow> ('d \<Rightarrow> bytes) \<Rightarrow> ('d \<Rightarrow> bool) \<Rightarrow>
    ('r, 'd) DBImpl \<Rightarrow> mt_entry list \<Rightarrow> nat \<Rightarrow> bool" where
  "db_at c elems active held sound db es n \<longleftrightarrow>
    mem_at c elems active (db_mem db) es (Suc n) \<and> db_last_sequence db = word_of_nat n \<and>
    writer_ok held sound (db_log db)"

definition plain_options :: "WriteOptions \<Rightarrow> bool" where
  "plain_options wo \<longleftrightarrow> \<not> wo_sync wo \<and> \<not> wo_disableWAL wo"

text \<open>What a database relies on: the container of the memtable, the file of the log, and a comparator of bytes.\<close>

locale database =
  mem: memtable_rep c "de_rep env" elems active good + log: sink "de_append env" "de_flush env" held sound
  for env :: "('r, 'd) db_env" and c elems active good held sound +
  assumes compares: "gc_comparator (de_get env) = c" and visible: "gc_is_visible (de_get env) q"
    and same_key: "cmp_Compare c a b = 0 \<longleftrightarrow> a = b"
begin

lemma WriteToWAL_ok:
  assumes "writer_ok held sound (db_log db)"
  shows "\<exists>w s. WriteToWAL env False ws seq db = (s, db\<lparr>db_log := w,
      db_total_log_size := db_total_log_size db + length (group_record ws seq)\<rparr>) \<and> ok s \<and> writer_ok held sound w \<and>
    held (dest w) = held (dest (db_log db)) @
      record_bytes (recycle_log_files (db_log db)) (log_number (db_log db)) (length (held (dest (db_log db)))) True (group_record ws seq) \<and>
    recycle_log_files w = recycle_log_files (db_log db) \<and> log_number w = log_number (db_log db)"
  using log.AddRecord_sink [OF assms, of "group_record ws seq"]
  by (cases "AddRecord (de_append env) (de_flush env) (db_log db) (group_record ws seq)")
    (simp add: WriteToWAL_def Let_def group_record_def, blast)

lemma WriteImpl_group:
  assumes db: "db_at c elems active held sound db es n" and ws: "list_all2 writer_ops ws xss" "group_sizes xss"
    and wo: "plain_options wo" and n: "n + num_entries (concat xss) < 2 ^ 56"
  shows "\<exists>s db'. WriteImpl env wo ws db = (s, db') \<and> s = FinalStatus Status_OK (hd ws) \<and>
    db_at c elems active held sound db' (es @ number_ops (Suc n) (concat xss)) (n + num_entries (concat xss)) \<and>
    db_mem db' = in_mem (snd (InsertInto_group (de_rep env) (write_conf wo) ws (word_of_nat (Suc n)) (db_mem db))) \<and>
    held (dest (db_log db')) = held (dest (db_log db)) @
      record_bytes (recycle_log_files (db_log db)) (log_number (db_log db)) (length (held (dest (db_log db)))) True
        (group_record ws (word_of_nat (Suc n))) \<and>
    recycle_log_files (db_log db') = recycle_log_files (db_log db) \<and> log_number (db_log db') = log_number (db_log db)"
proof -
  let ?xs = "concat xss" and ?seq = "word_of_nat (Suc n) :: u64"
  have seq: "db_last_sequence db + 1 = ?seq" using db by (simp add: db_at_def)
  obtain w s where w: "WriteToWAL env False ws ?seq db = (s, db\<lparr>db_log := w,
      db_total_log_size := db_total_log_size db + length (group_record ws ?seq)\<rparr>)" "ok s" "writer_ok held sound w"
    "held (dest w) = held (dest (db_log db)) @
      record_bytes (recycle_log_files (db_log db)) (log_number (db_log db)) (length (held (dest (db_log db)))) True (group_record ws ?seq)"
    "recycle_log_files w = recycle_log_files (db_log db)" "log_number w = log_number (db_log db)"
    using WriteToWAL_ok [of db ws ?seq] db unfolding db_at_def by blast
  let ?st = "MemTableInserter_new ?seq (db_mem db) trx_table_new"
  have m: "mem_at c elems active (in_mem ?st) es (Suc n)" using db by (simp add: db_at_def MemTableInserter_new_def)
  have "\<exists>st'. apply_ops (de_rep env) ?xs ?st = (Status_OK, st') \<and> in_sequence st' = word_of_nat (Suc n + num_entries ?xs) \<and>
      mem_at c elems active (in_mem st') (es @ number_ops (Suc n) ?xs) (Suc n + num_entries ?xs)"
    by (rule mem.apply_ops_new [OF m]) (use ws n in \<open>auto simp: group_sizes_def MemTableInserter_new_def\<close>)
  then obtain st' where st': "InsertInto_group (de_rep env) (write_conf wo) ws ?seq (db_mem db) = (Status_OK, st')"
      "mem_at c elems active (in_mem st') (es @ number_ops (Suc n) ?xs) (Suc n + num_entries ?xs)"
    unfolding InsertInto_group_plain [OF ws(1)] by blast
  have "WriteImpl env wo ws db = (FinalStatus Status_OK (hd ws), db\<lparr>db_log := w,
      db_total_log_size := db_total_log_size db + length (group_record ws ?seq), db_mem := in_mem st',
      db_last_sequence := db_last_sequence db + total_count ws\<rparr>)"
    using wo w(1,2) st'(1) by (simp add: WriteImpl_def plain_options_def seq Let_def)
  then show ?thesis
    using w(3-) st' db total_count_group [OF ws] by (simp add: db_at_def)
qed

end

text \<open>
  A sequence of groups, each a list of writers; \<open>opss\<close> are the operations of their batches, and \<open>group_records n\<close> are
  the log records after the sequence number \<open>n\<close>.
\<close>

fun write_groups :: "('r, 'd) db_env \<Rightarrow> WriteOptions \<Rightarrow> writer list list \<Rightarrow> ('r, 'd) DBImpl \<Rightarrow> ('r, 'd) DBImpl" where
  "write_groups env wo [] db = db"
| "write_groups env wo (ws # wss) db = write_groups env wo wss (snd (WriteImpl env wo ws db))"

definition all_ops :: "wb_op list list list \<Rightarrow> wb_op list" where
  "all_ops opss = concat (concat opss)"

fun group_records :: "nat \<Rightarrow> writer list list \<Rightarrow> wb_op list list list \<Rightarrow> slice list" where
  "group_records n (ws # wss) (xss # opss) =
    group_record ws (word_of_nat (Suc n)) # group_records (n + num_entries (concat xss)) wss opss"
| "group_records n _ _ = []"

definition groups_ok :: "writer list list \<Rightarrow> wb_op list list list \<Rightarrow> bool" where
  "groups_ok wss opss \<longleftrightarrow> list_all2 (\<lambda>ws xss. list_all2 writer_ops ws xss \<and> group_sizes xss) wss opss"

lemma all_ops_simps [simp]: "all_ops [] = []" "all_ops (xss # opss) = concat xss @ all_ops opss"
  by (simp_all add: all_ops_def)

lemma groups_ok_simps [simp]:
  "groups_ok [] []" "groups_ok (ws # wss) (xss # opss) \<longleftrightarrow> list_all2 writer_ops ws xss \<and> group_sizes xss \<and> groups_ok wss opss"
  by (auto simp: groups_ok_def)

lemma groups_ok_length: "groups_ok wss opss \<Longrightarrow> length wss = length opss"
  by (auto simp: groups_ok_def dest: list_all2_lengthD)

lemma length_group_records: "groups_ok wss opss \<Longrightarrow> length (group_records n wss opss) = length wss"
  by (induction n wss opss rule: group_records.induct) (auto simp: groups_ok_def)

context database
begin

lemma write_groups_ok:
  assumes "groups_ok wss opss" "db_at c elems active held sound db es n" "plain_options wo"
    "n + num_entries (all_ops opss) < 2 ^ 56"
  shows "db_at c elems active held sound (write_groups env wo wss db) (es @ number_ops (Suc n) (all_ops opss)) (n + num_entries (all_ops opss)) \<and>
    held (dest (db_log (write_groups env wo wss db))) = held (dest (db_log db)) @
      log_bytes (recycle_log_files (db_log db)) (log_number (db_log db)) (length (held (dest (db_log db)))) (group_records n wss opss)"
  using assms
proof (induction n wss opss arbitrary: db es rule: group_records.induct)
  case (1 n ws wss xss opss)
  have ws: "list_all2 writer_ops ws xss" "group_sizes xss" "groups_ok wss opss" using 1(2) by auto
  have n: "n + num_entries (concat xss) < 2 ^ 56" using 1(5) by simp
  obtain db' where db': "snd (WriteImpl env wo ws db) = db'"
    "db_at c elems active held sound db' (es @ number_ops (Suc n) (concat xss)) (n + num_entries (concat xss))"
    "held (dest (db_log db')) = held (dest (db_log db)) @
      record_bytes (recycle_log_files (db_log db)) (log_number (db_log db)) (length (held (dest (db_log db)))) True
        (group_record ws (word_of_nat (Suc n)))"
    "recycle_log_files (db_log db') = recycle_log_files (db_log db)" "log_number (db_log db') = log_number (db_log db)"
    using WriteImpl_group [OF 1(3) ws(1,2) 1(4) n] by force
  have n': "n + num_entries (concat xss) + num_entries (all_ops opss) < 2 ^ 56" using 1(5) by simp
  show ?case
    using 1(1) [OF ws(3) db'(2) 1(4) n'] db'
    by (simp add: number_ops_append add.assoc Let_def)
qed (auto simp: groups_ok_def)

end

section \<open>Recovery\<close>

text \<open>A replay of records that runs through: no record stops it or fails.\<close>

fun replay_records :: "'r MemTableRep \<Rightarrow> recover_conf \<Rightarrow> u64 \<Rightarrow> slice list \<Rightarrow> 'r replay \<Rightarrow> 'r replay option" where
  "replay_records ops conf log [] rp = Some rp"
| "replay_records ops conf log (d # ds) rp =
    (case recover_record ops conf log d rp of (stop, rp') \<Rightarrow>
     if stop \<or> \<not> ok (rp_status rp') then None else replay_records ops conf log ds rp')"

lemma replay_records_take:
  "replay_records ops conf log ds rp = Some rp' \<Longrightarrow> \<exists>rp''. replay_records ops conf log (take j ds) rp = Some rp''"
  by (induction ds arbitrary: rp j) (auto simp: take_Cons' split: prod.splits if_splits)

lemma apply_reports_none: "reporter r = Some [] \<Longrightarrow> apply_reports conf r rp = (r, rp)"
  by (simp add: apply_reports_def)

context seq_source
begin

lemma recover_loop_prefix:
  assumes "reader_at rest F P r" "drop P F = take k (log_bytes rc num P ds)" "reads_number rc num r"
    "rc_mode conf \<noteq> kAbsoluteConsistency" "reporter r = Some []" "ok (rp_status rp)"
    "replay_records ops conf log ds rp = Some rp'"
  shows "\<exists>j. j \<le> length ds \<and> length (log_bytes rc num P (take j ds)) \<le> k \<and>
    (j < length ds \<longrightarrow> k < length (log_bytes rc num P (take (Suc j) ds))) \<and>
    recover_loop rd ops conf log r rp = replay_records ops conf log (take j ds) rp"
  using assms
proof (induction ds arbitrary: P k r rp)
  case Nil
  have "P = length F" by (rule reader_at_all [OF Nil(1)]) (simp add: Nil(2))
  with Nil(1) have "reader_at rest F (length F) r" by simp
  then obtain r' where "ReadPhysicalRecord rd r 0 = Some (kEof, [], 0, r')" "same_reader r r'"
    by (rule phys_at_end [of F r 0])
  then show ?case
    using loop_ends [of r kEof "[]" 0 r' "rc_mode conf" False "[]" 0] Nil(5)
    by (auto simp: recover_loop.simps [of rd ops conf log r rp] ReadRecord_def same_reader_def apply_reports_none)
next
  case (Cons d ds)
  let ?b = "record_bytes rc num P True d"
  show ?case
  proof (cases "length ?b \<le> k")
    case True
    have F: "drop P F = ?b @ take (k - length ?b) (log_bytes rc num (P + length ?b) ds)"
      using Cons.prems(2) True by (simp add: Let_def)
    obtain sc q where q: "ReadRecord rd (rc_mode conf) r = Some (True, d, sc, q)" "reader_at rest F (P + length ?b) q" "same_reader r q"
      using read_record [OF Cons.prems(1) F _ Cons.prems(3), of "rc_mode conf" "[]" 0] by (auto simp: ReadRecord_def)
    have rep: "reporter q = Some []" using q(3) Cons.prems(5) by (simp add: same_reader_def)
    have F': "drop (P + length ?b) F = take (k - length ?b) (log_bytes rc num (P + length ?b) ds)"
      using arg_cong [OF F, of "drop (length ?b)"] by (simp add: add.commute)
    obtain rp1 where rp1: "recover_record ops conf log d rp = (False, rp1)" "ok (rp_status rp1)"
      "replay_records ops conf log ds rp1 = Some rp'"
      using Cons.prems(7) by (auto split: prod.splits if_splits)
    have step: "recover_loop rd ops conf log r rp = recover_loop rd ops conf log q rp1"
      using Cons.prems(6) by (simp add: recover_loop.simps [of rd ops conf log r rp] q(1) apply_reports_none [OF rep] rp1(1))
    obtain j where j: "j \<le> length ds" "length (log_bytes rc num (P + length ?b) (take j ds)) \<le> k - length ?b"
      "j < length ds \<longrightarrow> k - length ?b < length (log_bytes rc num (P + length ?b) (take (Suc j) ds))"
      "recover_loop rd ops conf log q rp1 = replay_records ops conf log (take j ds) rp1"
      using Cons.IH [OF q(2) F' reads_number_same [OF q(3) Cons.prems(3)] Cons.prems(4) rep rp1(2,3)] by blast
    show ?thesis
      using True j rp1(1,2) by (intro exI [of _ "Suc j"]) (simp add: Let_def step, linarith)
  next
    case False
    have F: "drop P F = take k ?b" using Cons.prems(2) False by (simp add: Let_def)
    obtain sc r' where "ReadRecord rd (rc_mode conf) r = Some (False, [], sc, r')" "same_reader r r'"
      using cut_record [OF Cons.prems(1) F _ _ Cons.prems(3) disjI1 [OF Cons.prems(4)], of "[]" 0] False
      by (auto simp: ReadRecord_def)
    then show ?thesis
      using False Cons.prems(5) by (intro exI [of _ 0])
        (simp add: recover_loop.simps [of rd ops conf log r rp] Let_def same_reader_def apply_reports_none)
  qed
qed

end

lemma group_records_take: "take j (group_records n wss opss) = group_records n (take j wss) (take j opss)"
  by (induction n wss opss arbitrary: j rule: group_records.induct) (auto simp: take_Cons')

lemma groups_ok_take: "groups_ok wss opss \<Longrightarrow> groups_ok (take j wss) (take j opss)"
  by (simp add: groups_ok_def list_all2_takeI)

lemma num_entries_take: "num_entries (all_ops (take j opss)) \<le> num_entries (all_ops opss)"
  by (induction opss arbitrary: j) (auto simp: take_Cons')

context database
begin

lemma recover_group:
  assumes ws: "list_all2 writer_ops ws xss" "group_sizes xss" and rp: "mem_at c elems active (rp_mem rp) es (Suc n)" "\<not> rp_stop_for_corruption rp"
    and n: "n + num_entries (concat xss) < 2 ^ 56" and log: "rc_cf_log_number conf \<le> lg"
  shows "\<exists>rp'. recover_record (de_rep env) conf lg (group_record ws (word_of_nat (Suc n))) rp = (False, rp') \<and>
    rp_status rp' = Status_OK \<and> \<not> rp_stop_for_corruption rp' \<and> rp_last_sequence rp' = rp_last_sequence rp \<and>
    rp_next_sequence rp' = word_of_nat (Suc n + num_entries (concat xss)) \<and>
    rp_mem rp' = in_mem (snd (InsertInto_group (de_rep env) (write_conf wo) ws (word_of_nat (Suc n)) (rp_mem rp)))"
proof -
  let ?xs = "concat xss" and ?seq = "word_of_nat (Suc n) :: u64"
  let ?st = "MemTableInserter_new ?seq (rp_mem rp) trx_table_new"
  have m: "mem_at c elems active (in_mem ?st) es (Suc n)" using rp(1) by (simp add: MemTableInserter_new_def)
  have "\<exists>st'. apply_ops (de_rep env) ?xs ?st = (Status_OK, st') \<and> in_sequence st' = word_of_nat (Suc n + num_entries ?xs) \<and>
      mem_at c elems active (in_mem st') (es @ number_ops (Suc n) ?xs) (Suc n + num_entries ?xs)"
    by (rule mem.apply_ops_new [OF m]) (use ws n in \<open>auto simp: group_sizes_def MemTableInserter_new_def\<close>)
  then obtain st' where st': "apply_ops (de_rep env) ?xs ?st = (Status_OK, st')" "in_sequence st' = word_of_nat (Suc n + num_entries ?xs)"
    by blast
  have t: "apply_ops (de_rep env) ?xs (MemTableInserter_new ?seq (rp_mem rp) trx) = (Status_OK, st'\<lparr>in_trx := trx\<rparr>)" for trx
    using apply_ops_trx [where ops = "de_rep env" and xs = ?xs and st = ?st and x = trx] st'(1) by (simp add: MemTableInserter_new_def)
  have i: "InsertInto_batch (de_rep env) (recovery_conf conf lg) (SetContents (WriteBatch_new 0) (group_record ws ?seq)) (rp_mem rp) trx =
      (Status_OK, word_of_nat (Suc n + num_entries ?xs), st'\<lparr>in_trx := trx\<rparr>)" for trx
    unfolding replay_group [OF ws(1) recovery_conf_plain [OF log]] t using st'(2) by simp
  have g: "InsertInto_group (de_rep env) (write_conf wo) ws ?seq (rp_mem rp) = (Status_OK, st')"
    unfolding InsertInto_group_plain [OF ws(1)] st'(1) ..
  show ?thesis
    unfolding recover_record_def if_not_P [OF record_length [OF ws(1)]] Let_def
    using rp(2) g i by (auto simp: MaybeIgnoreError_def)
qed

lemma replay_groups:
  assumes "groups_ok wss opss" "db_at c elems active held sound db es n" "plain_options wo"
    "n + num_entries (all_ops opss) < 2 ^ 56" "rp_mem rp = db_mem db" "\<not> rp_stop_for_corruption rp" "rc_cf_log_number conf \<le> lg"
    "ok (rp_status rp)"
  shows "\<exists>rp'. replay_records (de_rep env) conf lg (group_records n wss opss) rp = Some rp' \<and>
    rp_mem rp' = db_mem (write_groups env wo wss db) \<and> ok (rp_status rp') \<and> (rp_status rp = Status_OK \<longrightarrow> rp_status rp' = Status_OK) \<and>
    \<not> rp_stop_for_corruption rp' \<and> rp_last_sequence rp' = rp_last_sequence rp \<and>
    rp_next_sequence rp' = (if wss = [] then rp_next_sequence rp else word_of_nat (Suc (n + num_entries (all_ops opss))))"
  using assms
proof (induction n wss opss arbitrary: db es rp rule: group_records.induct)
  case (1 n ws wss xss opss)
  have ws: "list_all2 writer_ops ws xss" "group_sizes xss" "groups_ok wss opss" using 1(2) by auto
  have n: "n + num_entries (concat xss) < 2 ^ 56" "n + num_entries (concat xss) + num_entries (all_ops opss) < 2 ^ 56" using 1(5) by simp_all
  have m: "mem_at c elems active (rp_mem rp) es (Suc n)" using 1(3,6) by (simp add: db_at_def)
  obtain db' where db': "snd (WriteImpl env wo ws db) = db'"
    "db_at c elems active held sound db' (es @ number_ops (Suc n) (concat xss)) (n + num_entries (concat xss))"
    "db_mem db' = in_mem (snd (InsertInto_group (de_rep env) (write_conf wo) ws (word_of_nat (Suc n)) (db_mem db)))"
    using WriteImpl_group [OF 1(3) ws(1,2) 1(4) n(1)] by force
  obtain rp1 where rp1: "recover_record (de_rep env) conf lg (group_record ws (word_of_nat (Suc n))) rp = (False, rp1)"
    "rp_status rp1 = Status_OK" "\<not> rp_stop_for_corruption rp1" "rp_last_sequence rp1 = rp_last_sequence rp"
    "rp_next_sequence rp1 = word_of_nat (Suc n + num_entries (concat xss))" "rp_mem rp1 = db_mem db'"
    using recover_group [OF ws(1,2) m 1(7) n(1) 1(8), of wo] db'(3) 1(6) by metis
  have "wss = [] \<Longrightarrow> opss = []" using ws(3) groups_ok_length by fastforce
  then show ?case
    using 1(1) [OF ws(3) db'(2) 1(4) n(2) rp1(6,3) 1(8)] rp1 db'(1)
    by (auto simp: add.assoc split: if_splits)
qed (auto simp: groups_ok_def)

end

text \<open>A database that was just created, with its first log.\<close>

definition DB_new :: "'r MemTable \<Rightarrow> 'd log_writer \<Rightarrow> ('r, 'd) DBImpl" where
  "DB_new m w = \<lparr>db_last_sequence = 0, db_mem = m, db_log = w, db_total_log_size = 0, db_has_unpersisted_data = False\<rparr>"

lemma DB_new_at:
  assumes "active r" "elems r = {#}" "sound d" "held d = []"
  shows "db_at c elems active held sound (DB_new (MemTable_new r r' l) (Writer_new d lg rc manual)) [] 0"
  using assms mt_holds_new [where elems = elems, OF assms(2)] writer_ok_new [where sound = sound and held = held, OF assms(3,4)]
  by (simp add: db_at_def mem_at_def DB_new_def) (simp add: MemTable_new_def)

lemma recover_log_end_sequence:
  assumes "rp_status rp = Status_OK" "\<not> rp_stop_for_corruption rp" "rp_last_sequence rp = 0"
    "rp_next_sequence rp = (if none then kMaxSequenceNumber else word_of_nat (Suc n))" "none \<Longrightarrow> n = 0" "n + 2 < 2 ^ 56"
  shows "\<exists>rp'. recover_log_end conf lg rp = (False, rp') \<and> rp_status rp' = Status_OK \<and> \<not> rp_stop_for_corruption rp' \<and>
    rp_mem rp' = rp_mem rp \<and> rp_last_sequence rp' = word_of_nat n"
proof (cases none)
  case True
  then show ?thesis using assms by (simp add: recover_log_end_def)
next
  case False
  have "unat (word_of_nat (Suc n) :: u64) = Suc n" using assms(6) by (intro seq_of_nat(1)) simp
  moreover have "unat kMaxSequenceNumber = 2 ^ 56 - 1" by (simp add: kMaxSequenceNumber_def)
  ultimately have "(word_of_nat (Suc n) :: u64) \<noteq> kMaxSequenceNumber" using assms(6) by auto
  then show ?thesis using False assms by (simp add: recover_log_end_def)
qed

text \<open>
  C1: Recovery after a crash. A new database executes any sequence of write groups with ordinary
  operations; then the process dies, and of the log any prefix of the bytes is in the file. \<^verbatim>\<open>RecoverLogFiles\<close> returns
  success, and the memtable and the last sequence number are exactly what they were after the first \<open>j\<close> groups,
  where \<open>j\<close> counts the groups whose log record is wholly in the file. No group is recovered in part.
\<close>

theorem wal_recovery:
  assumes db: "database env c elems active good held sound" and new: "active r" "elems r = {#}" "sound d" "held d = []"
    and wss: "groups_ok wss opss" "num_entries (all_ops opss) + 2 < 2 ^ 56" "plain_options wo"
    and conf: "rc_mode conf \<noteq> kAbsoluteConsistency" "rc_cf_log_number conf \<le> lg" "rc_min_log_number_to_keep_2pc conf \<le> lg"
      "rc \<longrightarrow> unat lg < 2 ^ 32"
    and db0: "db0 = DB_new (MemTable_new r r' l) (Writer_new d lg rc manual)"
    and F: "F = take k (held (dest (db_log (write_groups env wo wss db0))))"
  shows "\<exists>j rp. j \<le> length wss \<and>
    length (held (dest (db_log (write_groups env wo (take j wss) db0)))) \<le> k \<and>
    (j < length wss \<longrightarrow> k < length (held (dest (db_log (write_groups env wo (take (Suc j) wss) db0))))) \<and>
    RecoverLogFiles MockSequentialFile_Read (\<lambda>_. Inr (mock_seq_file F)) (de_rep env) conf [lg]
      (replay_start 0 (MemTable_new r r' l)) = Some (Status_OK, rp) \<and>
    rp_mem rp = db_mem (write_groups env wo (take j wss) db0) \<and>
    rp_last_sequence rp = db_last_sequence (write_groups env wo (take j wss) db0)"
proof -
  let ?ds = "group_records 0 wss opss" and ?rp = "replay_start 0 (MemTable_new r r' l) :: 'a replay"
  let ?db = "\<lambda>j. write_groups env wo (take j wss) db0"
  have at0: "db_at c elems active held sound db0 [] 0" unfolding db0 by (rule DB_new_at) (fact new)+
  have nums: "0 + num_entries (all_ops (take j opss)) < 2 ^ 56" for j
    using num_entries_take [of j opss] wss(2) by simp
  note groups = database.write_groups_ok [OF db groups_ok_take [OF wss(1)] at0 wss(3) nums]
  have w0: "recycle_log_files (db_log db0) = rc" "log_number (db_log db0) = lg" "held (dest (db_log db0)) = []"
    by (simp_all add: db0 DB_new_def Writer_new_def new)
  have bytes: "held (dest (db_log (?db j))) = log_bytes rc lg 0 (take j ?ds)" for j
    using groups [of j] by (simp add: w0 group_records_take)
  have len: "length ?ds = length wss" by (rule length_group_records [OF wss(1)])
  have F': "F = take k (log_bytes rc lg 0 ?ds)" using bytes [of "length wss"] len by (simp add: F)
  have rep: "\<exists>rp'. replay_records (de_rep env) conf lg (take j ?ds) ?rp = Some rp' \<and>
      rp_mem rp' = db_mem (?db j) \<and> rp_status rp' = Status_OK \<and> \<not> rp_stop_for_corruption rp' \<and> rp_last_sequence rp' = 0 \<and>
      rp_next_sequence rp' = (if take j wss = [] then kMaxSequenceNumber else word_of_nat (Suc (num_entries (all_ops (take j opss)))))" for j
    using database.replay_groups [OF db groups_ok_take [OF wss(1)] at0 wss(3) nums, of ?rp conf lg j] conf(2)
    by (auto simp: group_records_take replay_start_def db0 DB_new_def)
  obtain rpn where "replay_records (de_rep env) conf lg ?ds ?rp = Some rpn" using rep [of "length ?ds"] by auto
  from mock_seq.recover_loop_prefix [OF reader_at_new [of F "Some []" True lg] _ reads_number_new [OF conf(4)] conf(1) _ _ this] F'
  obtain j where j: "j \<le> length wss" "length (log_bytes rc lg 0 (take j ?ds)) \<le> k"
      "j < length wss \<longrightarrow> k < length (log_bytes rc lg 0 (take (Suc j) ?ds))"
      "recover_loop MockSequentialFile_Read (de_rep env) conf lg (Reader_new (mock_seq_file F) (Some []) True lg False) ?rp =
        replay_records (de_rep env) conf lg (take j ?ds) ?rp"
    by (auto simp: Reader_new_def replay_start_def len)
  obtain rp where rp: "replay_records (de_rep env) conf lg (take j ?ds) ?rp = Some rp" "rp_mem rp = db_mem (?db j)"
    "rp_status rp = Status_OK" "\<not> rp_stop_for_corruption rp" "rp_last_sequence rp = 0"
    "rp_next_sequence rp = (if take j wss = [] then kMaxSequenceNumber else word_of_nat (Suc (num_entries (all_ops (take j opss)))))"
    using rep [of j] by blast
  have last: "db_last_sequence (?db j) = word_of_nat (num_entries (all_ops (take j opss)))" using groups [of j] by (simp add: db_at_def)
  let ?N = "num_entries (all_ops (take j opss))"
  have "\<exists>rp'. recover_log_end conf lg rp = (False, rp') \<and> rp_status rp' = Status_OK \<and> \<not> rp_stop_for_corruption rp' \<and>
      rp_mem rp' = rp_mem rp \<and> rp_last_sequence rp' = word_of_nat ?N"
    by (rule recover_log_end_sequence [OF rp(3-6)])
      (use groups_ok_length [OF wss(1)] num_entries_take [of j opss] wss(2) in auto)
  then obtain rp' where rp': "recover_log_end conf lg rp = (False, rp')" "rp_status rp' = Status_OK" "\<not> rp_stop_for_corruption rp'"
      "rp_mem rp' = rp_mem rp" "rp_last_sequence rp' = word_of_nat ?N" by blast
  have "?rp\<lparr>rp_status := Status_OK\<rparr> = ?rp" by (simp add: replay_start_def)
  then have "RecoverLogFiles MockSequentialFile_Read (\<lambda>_. Inr (mock_seq_file F)) (de_rep env) conf [lg] ?rp = Some (Status_OK, rp')"
    using conf(3) rp' j(4) rp(1) by (simp add: RecoverLogFiles_def not_less)
  then show ?thesis
    using j(1-3) rp(2) rp'(4,5) last by (intro exI [of _ j] exI [of _ rp']) (simp add: bytes)
qed

end
