(* ===== verification/Cluster.thy ===== *)
theory Cluster
  imports Filename "HOL-Library.Multiset" "HOL-Library.Monad_Syntax"
begin

text \<open>
  The cluster around the database: the coordinator that routes keys (\<^verbatim>\<open>cc/coordinator.cc\<close>), the
  instances (\<^verbatim>\<open>cc/instance.cc\<close>), the partitioner that merges their reports
  (\<^verbatim>\<open>cc/partitioner.cc\<close>) and the messages between them (\<^verbatim>\<open>cc/topk.h\<close>). A remote call is a call.
  An access outside a vector is the value \<open>None\<close>. The database of an instance is a record of the
  operations that are called; \<open>kv_store\<close> is its documented contract.
\<close>

section \<open>Messages\<close>

type_synonym TopkData = "(u64 \<times> u64) list"

text \<open>\<^verbatim>\<open>unordered_map<uint64_t, int>\<close>, in the order in which it is iterated.\<close>

type_synonym ExceptionList = "(u64 \<times> int) list"

definition emplace :: "ExceptionList \<Rightarrow> u64 \<Rightarrow> int \<Rightarrow> ExceptionList" where
  "emplace m key i = (case map_of m key of None \<Rightarrow> m @ [(key, i)] | Some _ \<Rightarrow> m)"

definition vec_at :: "'a list \<Rightarrow> nat \<Rightarrow> 'a option" where
  "vec_at xs i = (if i < length xs then Some (xs ! i) else None)"

section \<open>The partitioner\<close>

record merge_state =
  merged :: "(u64 \<times> u64 \<times> int) list"
  curs :: "nat list"
  exceptions :: ExceptionList

text \<open>
  The inner loop of \<^verbatim>\<open>repartition\<close>: the instance whose next entry has the greatest count; the
  initial value \<open>(0, 0)\<close> of \<^verbatim>\<open>max_i\<close> and \<^verbatim>\<open>max_cnt\<close> remains when no count is positive.
\<close>

fun select_max :: "nat \<Rightarrow> TopkData list \<Rightarrow> nat list \<Rightarrow> nat list \<Rightarrow> nat \<times> u64 \<Rightarrow> (nat \<times> u64) option" where
  "select_max k topks cs [] best = Some best"
| "select_max k topks cs (i # is) best = do {
     c \<leftarrow> vec_at cs i;
     if c < k then do {
       t \<leftarrow> vec_at topks i;
       e \<leftarrow> vec_at t c;
       select_max k topks cs is (if snd e > snd best then (i, snd e) else best)
     } else select_max k topks cs is best
   }"

definition assign_exception :: "nat \<Rightarrow> u64 \<Rightarrow> ExceptionList \<Rightarrow> ExceptionList" where
  "assign_exception pos key ex =
    (if pos < 3000 then emplace ex key 0
     else if pos < 4000 then emplace ex key 1
     else if pos < 5000 then emplace ex key 2
     else ex)"

definition merge_step :: "nat \<Rightarrow> nat \<Rightarrow> TopkData list \<Rightarrow> merge_state \<Rightarrow> merge_state option" where
  "merge_step k num topks st = do {
     best \<leftarrow> select_max k topks (curs st) [0..<num] (0, 0);
     let max_i = fst best;
     c \<leftarrow> vec_at (curs st) max_i;
     t \<leftarrow> vec_at topks max_i;
     e \<leftarrow> vec_at t c;
     Some \<lparr>merged = merged st @ [(fst e, snd e, int max_i)],
           curs = (curs st)[max_i := c + 1],
           exceptions = assign_exception (length (merged st)) (fst e) (exceptions st)\<rparr>
   }"

lemma merge_step_length:
  "merge_step k num topks st = Some st' \<Longrightarrow> length (merged st') = Suc (length (merged st))"
  by (auto simp: merge_step_def Let_def split: bind_splits)

function merge_loop :: "nat \<Rightarrow> nat \<Rightarrow> TopkData list \<Rightarrow> merge_state \<Rightarrow> merge_state option" where
  "merge_loop k num topks st =
    (if length (merged st) < k * num
     then Option.bind (merge_step k num topks st) (merge_loop k num topks)
     else Some st)"
  by pat_completeness auto
termination
  by (relation "measure (\<lambda>(k, num, topks, st). k * num - length (merged st))")
     (auto dest: merge_step_length)

declare merge_loop.simps [simp del]

definition merge_init :: "nat \<Rightarrow> merge_state" where
  "merge_init num = \<lparr>merged = [], curs = replicate num 0, exceptions = []\<rparr>"

text \<open>
  What \<^verbatim>\<open>repartition\<close> sends to the coordinator. The counts \<^verbatim>\<open>k\<close> and \<^verbatim>\<open>num\<close> are not negative.
\<close>

definition repartition :: "nat \<Rightarrow> nat \<Rightarrow> TopkData list \<Rightarrow> ExceptionList option" where
  "repartition k num topks = map_option exceptions (merge_loop k num topks (merge_init num))"

text \<open>The overload for reports that have arrived: \<^verbatim>\<open>max_cnt\<close> stays zero and the list it sends is empty.\<close>

fun select_last :: "nat \<Rightarrow> TopkData list \<Rightarrow> nat list \<Rightarrow> nat list \<Rightarrow> nat \<Rightarrow> nat option" where
  "select_last k topks cs [] max_i = Some max_i"
| "select_last k topks cs (i # is) max_i = do {
     c \<leftarrow> vec_at cs i;
     if c < k then do {
       t \<leftarrow> vec_at topks i;
       e \<leftarrow> vec_at t c;
       select_last k topks cs is (if snd e > 0 then i else max_i)
     } else select_last k topks cs is max_i
   }"

definition merge_step_sync :: "nat \<Rightarrow> nat \<Rightarrow> TopkData list \<Rightarrow> merge_state \<Rightarrow> merge_state option" where
  "merge_step_sync k num topks st = do {
     max_i \<leftarrow> select_last k topks (curs st) [0..<num] 0;
     c \<leftarrow> vec_at (curs st) max_i;
     t \<leftarrow> vec_at topks max_i;
     e \<leftarrow> vec_at t c;
     Some (st\<lparr>merged := merged st @ [(fst e, snd e, int max_i)], curs := (curs st)[max_i := c + 1]\<rparr>)
   }"

lemma merge_step_sync_length:
  "merge_step_sync k num topks st = Some st' \<Longrightarrow> length (merged st') = Suc (length (merged st))"
  by (auto simp: merge_step_sync_def Let_def split: bind_splits)

function merge_loop_sync :: "nat \<Rightarrow> nat \<Rightarrow> TopkData list \<Rightarrow> merge_state \<Rightarrow> merge_state option" where
  "merge_loop_sync k num topks st =
    (if length (merged st) < k * num
     then Option.bind (merge_step_sync k num topks st) (merge_loop_sync k num topks)
     else Some st)"
  by pat_completeness auto
termination
  by (relation "measure (\<lambda>(k, num, topks, st). k * num - length (merged st))")
     (auto dest: merge_step_sync_length)

declare merge_loop_sync.simps [simp del]

definition repartition_sync :: "nat \<Rightarrow> nat \<Rightarrow> TopkData list \<Rightarrow> ExceptionList option" where
  "repartition_sync k num topks = map_option (\<lambda>_. []) (merge_loop_sync k num topks (merge_init num))"

section \<open>Instances\<close>

text \<open>The operations of the database that an instance calls.\<close>

record 'd DB =
  db_Put :: "'d \<Rightarrow> slice \<Rightarrow> slice \<Rightarrow> status \<times> 'd"
  db_Delete :: "'d \<Rightarrow> slice \<Rightarrow> status \<times> 'd"
  db_ReportTopk :: "'d \<Rightarrow> nat \<Rightarrow> (TopkData \<times> 'd) option"

definition value_size :: nat where
  "value_size = 1024 * 4"

definition BigSlice :: "nat \<Rightarrow> slice" where
  "BigSlice n = replicate n 1"

text \<open>\<^verbatim>\<open>ss << setw(8) << setfill('0') << key\<close>\<close>

definition key_string :: "u64 \<Rightarrow> string" where
  "key_string key = replicate (8 - length (decimal (unat key))) CHR ''0'' @ decimal (unat key)"

definition string_slice :: "string \<Rightarrow> slice" where
  "string_slice s = map of_char s"

definition instance_put :: "'d DB \<Rightarrow> u64 \<Rightarrow> 'd \<Rightarrow> 'd" where
  "instance_put ops key d = snd (db_Put ops d (string_slice (key_string key)) (BigSlice value_size))"

definition instance_del :: "'d DB \<Rightarrow> u64 \<Rightarrow> 'd \<Rightarrow> 'd" where
  "instance_del ops key d = snd (db_Delete ops d (string_slice (key_string key)))"

definition report_topk :: "'d DB \<Rightarrow> nat \<Rightarrow> 'd \<Rightarrow> (TopkData \<times> 'd) option" where
  "report_topk ops k d = db_ReportTopk ops d k"

section \<open>The coordinator\<close>

record 'd cluster =
  instances :: "'d list"
  routing :: ExceptionList

definition lookup :: "'d cluster \<Rightarrow> u64 \<Rightarrow> int option" where
  "lookup c key =
    (case map_of (routing c) key of
       Some i \<Rightarrow> Some i
     | None \<Rightarrow> if instances c = [] then None else Some (int (unat key mod length (instances c))))"

text \<open>A call on \<^verbatim>\<open>clients[i]\<close>.\<close>

definition call :: "'d cluster \<Rightarrow> int \<Rightarrow> ('d \<Rightarrow> 'd) \<Rightarrow> 'd cluster option" where
  "call c i f =
    (if 0 \<le> i \<and> nat i < length (instances c)
     then Some (c\<lparr>instances := (instances c)[nat i := f (instances c ! nat i)]\<rparr>) else None)"

definition coord_put :: "'d DB \<Rightarrow> 'd cluster \<Rightarrow> u64 \<Rightarrow> 'd cluster option" where
  "coord_put ops c key = do { i \<leftarrow> lookup c key; call c i (instance_put ops key) }"

definition coord_del :: "'d DB \<Rightarrow> 'd cluster \<Rightarrow> int \<Rightarrow> u64 \<Rightarrow> 'd cluster option" where
  "coord_del ops c inst key = call c inst (instance_del ops key)"

fun del_loop :: "'d DB \<Rightarrow> ExceptionList \<Rightarrow> 'd cluster \<Rightarrow> 'd cluster option" where
  "del_loop ops [] c = Some c"
| "del_loop ops (item # items) c = do {
     c \<leftarrow> coord_del ops c (int (unat (fst item) mod 3)) (fst item);
     del_loop ops items c
   }"

definition handle_repartition :: "'d DB \<Rightarrow> ExceptionList \<Rightarrow> 'd cluster \<Rightarrow> 'd cluster option" where
  "handle_repartition ops ex c = del_loop ops ex (c\<lparr>routing := ex\<rparr>)"

text \<open>The cluster before the first key, over instances with the given databases.\<close>

definition Coordinator_new :: "'d list \<Rightarrow> 'd cluster" where
  "Coordinator_new dbs = \<lparr>instances = dbs, routing = []\<rparr>"

text \<open>
  One round: every instance reports, the partitioner merges and the coordinator applies its list.
\<close>

fun collect_reports :: "'d DB \<Rightarrow> nat \<Rightarrow> 'd list \<Rightarrow> (TopkData list \<times> 'd list) option" where
  "collect_reports ops k [] = Some ([], [])"
| "collect_reports ops k (d # ds) = do {
     (t, d) \<leftarrow> report_topk ops k d;
     (ts, ds) \<leftarrow> collect_reports ops k ds;
     Some (t # ts, d # ds)
   }"

definition partitioner_run :: "'d DB \<Rightarrow> nat \<Rightarrow> 'd cluster \<Rightarrow> 'd cluster option" where
  "partitioner_run ops k c = do {
     (topks, ds) \<leftarrow> collect_reports ops (3 * k) (instances c);
     ex \<leftarrow> repartition k (length (instances c)) topks;
     handle_repartition ops ex (c\<lparr>instances := ds\<rparr>)
   }"

section \<open>Puts and a repartition that overlap\<close>

text \<open>
  The thread that reads the keys looks one up under the lock and delivers it without; the thread that
  serves \<^verbatim>\<open>handle_repartition\<close> holds the lock while it deletes. \<open>pending\<close> is the put between its lookup
  and its delivery, \<open>todo\<close> the items that are still to be deleted, \<open>rounds\<close> the number of lists the
  partitioner will still send. A list has distinct keys and the targets 0, 1 and 2 of the partitioner.
\<close>

record 'd coord_state =
  cl :: "'d cluster"
  pending :: "(u64 \<times> int) option"
  todo :: ExceptionList
  rounds :: nat

inductive coord_step :: "'d DB \<Rightarrow> 'd coord_state \<Rightarrow> 'd coord_state \<Rightarrow> bool" for ops where
  step_lookup: "pending s = None \<Longrightarrow> todo s = [] \<Longrightarrow> lookup (cl s) key = Some i \<Longrightarrow>
    coord_step ops s (s\<lparr>pending := Some (key, i)\<rparr>)"
| step_deliver: "pending s = Some (key, i) \<Longrightarrow> call (cl s) i (instance_put ops key) = Some c \<Longrightarrow>
    coord_step ops s (s\<lparr>cl := c, pending := None\<rparr>)"
| step_repartition: "todo s = [] \<Longrightarrow> rounds s = Suc r \<Longrightarrow> distinct (map fst ex) \<Longrightarrow> snd ` set ex \<subseteq> {0, 1, 2} \<Longrightarrow>
    coord_step ops s (s\<lparr>cl := (cl s)\<lparr>routing := ex\<rparr>, todo := ex, rounds := r\<rparr>)"
| step_delete: "todo s = item # items \<Longrightarrow>
    coord_del ops (cl s) (int (unat (fst item) mod 3)) (fst item) = Some c \<Longrightarrow>
    coord_step ops s (s\<lparr>cl := c, todo := items\<rparr>)"

inductive_cases coord_stepE: "coord_step ops s s'"

definition coord_init :: "'d list \<Rightarrow> nat \<Rightarrow> 'd coord_state" where
  "coord_init dbs r = \<lparr>cl = Coordinator_new dbs, pending = None, todo = [], rounds = r\<rparr>"

section \<open>The merge\<close>

lemma vec_at_Some [simp]: "i < length xs \<Longrightarrow> vec_at xs i = Some (xs ! i)"
  by (simp add: vec_at_def)

abbreviation next_count :: "TopkData list \<Rightarrow> nat list \<Rightarrow> nat \<Rightarrow> u64" where
  "next_count topks cs i \<equiv> snd (topks ! i ! (cs ! i))"

lemma select_max_greatest:
  assumes "\<And>i. i \<in> set is \<Longrightarrow> i < length cs \<and> i < length topks \<and> (cs ! i < k \<longrightarrow> cs ! i < length (topks ! i))"
  shows "\<exists>m cnt. select_max k topks cs is best = Some (m, cnt) \<and> snd best \<le> cnt \<and>
    ((m, cnt) = best \<or> m \<in> set is \<and> cs ! m < k \<and> cnt = next_count topks cs m) \<and>
    (\<forall>i\<in>set is. cs ! i < k \<longrightarrow> next_count topks cs i \<le> cnt)"
  using assms
proof (induction "is" arbitrary: best)
  case Nil
  then show ?case by (cases best) auto
next
  case (Cons i "is")
  let ?b = "if cs ! i < k \<and> next_count topks cs i > snd best then (i, next_count topks cs i) else best"
  have "select_max k topks cs (i # is) best = select_max k topks cs is ?b"
    using Cons.prems [of i] by auto
  moreover obtain m cnt where "select_max k topks cs is ?b = Some (m, cnt)" "snd ?b \<le> cnt"
    "(m, cnt) = ?b \<or> m \<in> set is \<and> cs ! m < k \<and> cnt = next_count topks cs m"
    "\<forall>i\<in>set is. cs ! i < k \<longrightarrow> next_count topks cs i \<le> cnt"
    using Cons.IH [of ?b] Cons.prems by auto
  ultimately show ?case by (intro exI [of _ m] exI [of _ cnt]) (auto split: if_splits)
qed

text \<open>What holds of the cursors in every round: they count the entries that were merged.\<close>

definition cursors_ok :: "nat \<Rightarrow> TopkData list \<Rightarrow> merge_state \<Rightarrow> bool" where
  "cursors_ok num topks st \<longleftrightarrow>
    length (curs st) = num \<and> length topks = num \<and> sum_list (curs st) = length (merged st)"

lemma cursor_le: "cursors_ok num topks st \<Longrightarrow> i < num \<Longrightarrow> curs st ! i \<le> length (merged st)"
  by (metis cursors_ok_def elem_le_sum_list)

definition take_entry :: "TopkData list \<Rightarrow> merge_state \<Rightarrow> nat \<Rightarrow> merge_state" where
  "take_entry topks st m =
    (let e = topks ! m ! (curs st ! m)
     in \<lparr>merged = merged st @ [(fst e, snd e, int m)], curs = (curs st)[m := curs st ! m + 1],
         exceptions = assign_exception (length (merged st)) (fst e) (exceptions st)\<rparr>)"

lemma merge_step_defined:
  assumes ok: "cursors_ok num topks st" and num: "0 < num"
    and len: "\<And>i. i < num \<Longrightarrow> curs st ! i < k \<Longrightarrow> curs st ! i < length (topks ! i)"
    and len0: "curs st ! 0 < length (topks ! 0) \<or> (\<exists>i<num. curs st ! i < k \<and> 0 < next_count topks (curs st) i)"
  obtains m where "m < num" "curs st ! m < length (topks ! m)"
    "merge_step k num topks st = Some (take_entry topks st m)"
    "curs st ! m < k \<and> (\<forall>i<num. curs st ! i < k \<longrightarrow> next_count topks (curs st) i \<le> next_count topks (curs st) m)
     \<or> m = 0 \<and> (\<forall>i<num. curs st ! i < k \<longrightarrow> next_count topks (curs st) i = 0)"
proof -
  have "i < length (curs st) \<and> i < length topks \<and> (curs st ! i < k \<longrightarrow> curs st ! i < length (topks ! i))"
    if "i \<in> set [0..<num]" for i
    using ok len [of i] that by (simp add: cursors_ok_def)
  from select_max_greatest [OF this, of "[0..<num]" "(0, 0)"] obtain m cnt where
    sel: "select_max k topks (curs st) [0..<num] (0, 0) = Some (m, cnt)"
    and c: "(m, cnt) = (0, 0) \<or> m < num \<and> curs st ! m < k \<and> cnt = next_count topks (curs st) m"
    and mx: "\<And>i. i < num \<Longrightarrow> curs st ! i < k \<Longrightarrow> next_count topks (curs st) i \<le> cnt"
    by auto
  have m: "m < num" "curs st ! m < length (topks ! m)"
    using c num len [of m] len0 mx by (auto simp: not_less [symmetric])
  show thesis
  proof (rule that [OF m])
    show "merge_step k num topks st = Some (take_entry topks st m)"
      using sel m ok by (simp add: merge_step_def take_entry_def cursors_ok_def Let_def)
    show "curs st ! m < k \<and> (\<forall>i<num. curs st ! i < k \<longrightarrow> next_count topks (curs st) i \<le> next_count topks (curs st) m)
     \<or> m = 0 \<and> (\<forall>i<num. curs st ! i < k \<longrightarrow> next_count topks (curs st) i = 0)"
      using c mx by fastforce
  qed
qed

lemma take_entry_cursors: "cursors_ok num topks st \<Longrightarrow> m < num \<Longrightarrow> cursors_ok num topks (take_entry topks st m)"
  using sum_list_update_nat [of m "curs st" "curs st ! m + 1"]
  by (auto simp: cursors_ok_def take_entry_def Let_def sum_list_update)

lemma merge_loop_total:
  assumes "cursors_ok num topks st" "\<And>t. t \<in> set topks \<Longrightarrow> k * num \<le> length t"
  shows "\<exists>st'. merge_loop k num topks st = Some st'"
  using assms
proof (induction "k * num - length (merged st)" arbitrary: st rule: less_induct)
  case less
  show ?case
  proof (cases "length (merged st) < k * num")
    case True
    then have num: "0 < num" by (cases num) auto
    have short: "curs st ! i < length (topks ! i)" if "i < num" for i
      using cursor_le [OF less.prems(1) that] less.prems(2) [of "topks ! i"] that True less.prems(1)
      by (force simp: cursors_ok_def)
    obtain m where m: "m < num" "merge_step k num topks st = Some (take_entry topks st m)"
      using merge_step_defined [OF less.prems(1) num short] short [OF num] by metis
    have "\<exists>st'. merge_loop k num topks (take_entry topks st m) = Some st'"
      using less.hyps [OF _ take_entry_cursors [OF less.prems(1) m(1)] less.prems(2)] True
      by (simp add: take_entry_def Let_def)
    then show ?thesis using m True by (subst merge_loop.simps) simp
  qed (subst merge_loop.simps, simp)
qed

lemma merge_init_cursors: "length topks = num \<Longrightarrow> cursors_ok num topks (merge_init num)"
  by (simp add: cursors_ok_def merge_init_def sum_list_replicate)

text \<open>The merge of reports with positive counts in descending order.\<close>

definition tag :: "nat \<Rightarrow> u64 \<times> u64 \<Rightarrow> u64 \<times> u64 \<times> int" where
  "tag i e = (fst e, snd e, int i)"

abbreviation count_of :: "u64 \<times> u64 \<times> int \<Rightarrow> u64" where
  "count_of x \<equiv> fst (snd x)"

definition merging :: "nat \<Rightarrow> nat \<Rightarrow> TopkData list \<Rightarrow> merge_state \<Rightarrow> bool" where
  "merging k num topks st \<longleftrightarrow> cursors_ok num topks st \<and> (\<forall>i<num. curs st ! i \<le> k) \<and>
    mset (merged st) = (\<Sum>i<num. mset (map (tag i) (take (curs st ! i) (topks ! i)))) \<and>
    sorted_wrt (\<lambda>x y. count_of y \<le> count_of x) (merged st) \<and>
    (\<forall>x\<in>set (merged st). \<forall>i<num. curs st ! i < k \<longrightarrow> next_count topks (curs st) i \<le> count_of x)"

definition good_reports :: "nat \<Rightarrow> nat \<Rightarrow> TopkData list \<Rightarrow> bool" where
  "good_reports k num topks \<longleftrightarrow> length topks = num \<and>
    (\<forall>t\<in>set topks. k \<le> length t \<and> (\<forall>e\<in>set (take k t). 0 < snd e) \<and> sorted_wrt (\<ge>) (map snd (take k t)))"

lemma good_report_nth:
  assumes "good_reports k num topks" "i < num"
  shows "k \<le> length (topks ! i)" "j < k \<Longrightarrow> 0 < snd (topks ! i ! j)"
    "j \<le> j' \<Longrightarrow> j' < k \<Longrightarrow> snd (topks ! i ! j') \<le> snd (topks ! i ! j)"
proof -
  have t: "topks ! i \<in> set topks" using assms by (simp add: good_reports_def)
  then show k: "k \<le> length (topks ! i)" using assms by (simp add: good_reports_def)
  show "0 < snd (topks ! i ! j)" if "j < k"
  proof -
    have "topks ! i ! j \<in> set (take k (topks ! i))" using that k by (auto simp: in_set_conv_nth)
    then show ?thesis using assms t by (auto simp: good_reports_def)
  qed
  show "snd (topks ! i ! j') \<le> snd (topks ! i ! j)" if "j \<le> j'" "j' < k"
  proof (cases "j = j'")
    case False
    have "sorted_wrt (\<ge>) (map snd (take k (topks ! i)))" using assms t by (auto simp: good_reports_def)
    then show ?thesis using that k False by (auto simp: sorted_wrt_iff_nth_less)
  qed simp
qed

lemma merged_take_entry:
  assumes "i < num" "c = cs ! i" "c < length (topks ! i)" "length cs = num"
  shows "(\<Sum>j<num. mset (map (tag j) (take (cs[i := c + 1] ! j) (topks ! j)))) =
    (\<Sum>j<num. mset (map (tag j) (take (cs ! j) (topks ! j)))) + {#tag i (topks ! i ! c)#}"
proof -
  let ?f = "\<lambda>cs j. mset (map (tag j) (take (cs ! j) (topks ! j)))"
  have "sum (?f cs') {..<num} = ?f cs' i + sum (?f cs') ({..<num} - {i})" for cs'
    using assms(1) by (intro sum.remove) auto
  moreover have "sum (?f (cs[i := c + 1])) ({..<num} - {i}) = sum (?f cs) ({..<num} - {i})"
    by (intro sum.cong) auto
  moreover have "?f (cs[i := c + 1]) i = ?f cs i + {#tag i (topks ! i ! c)#}"
    using assms by (simp add: take_Suc_conv_app_nth)
  ultimately show ?thesis by simp
qed

lemma sum_cursors: "cursors_ok num topks st \<Longrightarrow> (\<Sum>i<num. curs st ! i) = length (merged st)"
  by (metis atLeast0LessThan cursors_ok_def sum_list_sum_nth)

lemma unfinished_cursor:
  assumes "cursors_ok num topks st" "length (merged st) < k * num"
  shows "\<exists>i<num. curs st ! i < k"
proof (rule ccontr)
  assume "\<not> ?thesis"
  then have "(\<Sum>i<num. k) \<le> (\<Sum>i<num. curs st ! i)" by (intro sum_mono) (metis lessThan_iff not_less)
  then show False using assms by (simp add: sum_cursors mult.commute)
qed

lemma merging_take_entry:
  assumes mg: "merging k num topks st" and good: "good_reports k num topks" and m: "m < num" "curs st ! m < k"
    and mx: "\<And>i. i < num \<Longrightarrow> curs st ! i < k \<Longrightarrow> next_count topks (curs st) i \<le> next_count topks (curs st) m"
  shows "merging k num topks (take_entry topks st m)"
proof -
  let ?st = "take_entry topks st m" and ?e = "topks ! m ! (curs st ! m)"
  have cur: "curs st ! m < length (topks ! m)" "length (curs st) = num"
    using good_report_nth(1) [OF good m(1)] m(2) mg by (auto simp: merging_def cursors_ok_def)
  have st: "merged ?st = merged st @ [tag m ?e]" "curs ?st = (curs st)[m := curs st ! m + 1]"
    by (simp_all add: take_entry_def tag_def Let_def)
  have nxt: "next_count topks (curs ?st) i \<le> snd ?e" if "i < num" "curs ?st ! i < k" for i
  proof (cases "i = m")
    case True
    then show ?thesis using good_report_nth(3) [OF good m(1), of "curs st ! m"] that cur m by (simp add: st)
  qed (use mx [of i] that in \<open>simp add: st\<close>)
  have "next_count topks (curs ?st) i \<le> count_of x"
    if "x \<in> set (merged ?st)" "i < num" "curs ?st ! i < k" for x i
  proof (cases "x \<in> set (merged st)")
    case True
    then have "snd ?e \<le> count_of x" using mg m by (auto simp: merging_def)
    then show ?thesis using nxt [OF that(2,3)] by order
  qed (use nxt [OF that(2,3)] that(1) in \<open>auto simp: st tag_def\<close>)
  moreover have "sorted_wrt (\<lambda>x y. count_of y \<le> count_of x) (merged ?st)"
    using mg m by (auto simp: st merging_def sorted_wrt_append tag_def)
  ultimately show ?thesis
    using mg m cur take_entry_cursors [of num topks st m] merged_take_entry [OF m(1) refl cur]
    by (auto simp: merging_def st nth_list_update)
qed

lemma merge_loop_merging:
  assumes "merging k num topks st" "good_reports k num topks" "length (merged st) \<le> k * num"
  shows "\<exists>st'. merge_loop k num topks st = Some st' \<and> merging k num topks st' \<and> length (merged st') = k * num"
  using assms(1,3)
proof (induction "k * num - length (merged st)" arbitrary: st rule: less_induct)
  case less
  have co: "cursors_ok num topks st" using less.prems(1) by (simp add: merging_def)
  show ?case
  proof (cases "length (merged st) < k * num")
    case True
    obtain i where i: "i < num" "curs st ! i < k" using unfinished_cursor [OF co True] by auto
    have pos: "0 < next_count topks (curs st) i" using good_report_nth(2) [OF assms(2)] i by blast
    have short: "curs st ! j < length (topks ! j)" if "j < num" "curs st ! j < k" for j
      using good_report_nth(1) [OF assms(2) that(1)] that(2) by simp
    have num: "0 < num" and ex: "curs st ! 0 < length (topks ! 0) \<or>
        (\<exists>i<num. curs st ! i < k \<and> 0 < next_count topks (curs st) i)"
      using i pos by auto
    obtain m where m: "m < num" "merge_step k num topks st = Some (take_entry topks st m)"
      "curs st ! m < k \<and> (\<forall>i<num. curs st ! i < k \<longrightarrow> next_count topks (curs st) i \<le> next_count topks (curs st) m)
       \<or> m = 0 \<and> (\<forall>i<num. curs st ! i < k \<longrightarrow> next_count topks (curs st) i = 0)"
      by (rule merge_step_defined [OF co num short ex])
    have "merging k num topks (take_entry topks st m)"
      using m(3) i pos by (intro merging_take_entry [OF less.prems(1) assms(2) m(1)]) auto
    then obtain st' where "merge_loop k num topks (take_entry topks st m) = Some st'"
      "merging k num topks st'" "length (merged st') = k * num"
      using less.hyps [of "take_entry topks st m"] True by (force simp: take_entry_def Let_def)
    then show ?thesis using m(2) True by (subst merge_loop.simps) auto
  next
    case False
    then show ?thesis using less.prems by (subst merge_loop.simps) auto
  qed
qed

lemma all_cursors_at_end:
  assumes "merging k num topks st" "length (merged st) = k * num" "i < num"
  shows "curs st ! i = k"
proof (rule ccontr)
  assume ne: "curs st ! i \<noteq> k"
  have len: "length (curs st) = num" and le: "\<And>j. j < num \<Longrightarrow> curs st ! j \<le> k"
    using assms(1) by (auto simp: merging_def cursors_ok_def)
  have "(\<Sum>j<num. curs st ! j) < (\<Sum>j<num. k)"
    using ne assms(3) le [OF assms(3)] by (intro sum_strict_mono_ex1) (auto intro!: le bexI [of _ i])
  moreover have "(\<Sum>j<num. curs st ! j) = k * num"
    using assms(1,2) sum_cursors by (metis merging_def)
  ultimately show False by (simp add: mult.commute)
qed

lemma merging_init: "length topks = num \<Longrightarrow> merging k num topks (merge_init num)"
  using merge_init_cursors [of topks num] by (simp add: merging_def merge_init_def)

text \<open>Which instance a key is assigned to: the first position of the key in the merged list decides.\<close>

definition target :: "nat \<Rightarrow> int" where
  "target pos = (if pos < 3000 then 0 else if pos < 4000 then 1 else 2)"

definition assignment :: "u64 list \<Rightarrow> u64 \<Rightarrow> int option" where
  "assignment keys key =
    (let p = length (takeWhile (\<lambda>x. x \<noteq> key) keys)
     in if p < length keys \<and> p < 5000 then Some (target p) else None)"

definition exceptions_ok :: "merge_state \<Rightarrow> bool" where
  "exceptions_ok st \<longleftrightarrow> distinct (map fst (exceptions st)) \<and>
    map_of (exceptions st) = assignment (map fst (merged st))"

lemma map_of_emplace:
  "map_of (emplace m key i) key' = (if map_of m key = None \<and> key' = key then Some i else map_of m key')"
  by (auto simp: emplace_def map_add_def split: option.splits)

lemma distinct_emplace: "distinct (map fst m) \<Longrightarrow> distinct (map fst (emplace m key i))"
  by (auto simp: emplace_def map_of_eq_None_iff split: option.splits)

lemma assign_exception_eq:
  "assign_exception pos key ex = (if pos < 5000 then emplace ex key (target pos) else ex)"
  by (simp add: assign_exception_def target_def)

lemma takeWhile_found: "length (takeWhile (\<lambda>x. x \<noteq> key) keys) < length keys \<longleftrightarrow> key \<in> set keys"
  by (induction keys) auto

lemma takeWhile_other: "key \<notin> set keys \<Longrightarrow> takeWhile (\<lambda>x. x \<noteq> key) keys = keys"
  by (induction keys) auto

lemma assignment_snoc:
  "assignment (keys @ [x]) key =
    (if length keys < 5000 \<and> x = key \<and> key \<notin> set keys then Some (target (length keys)) else assignment keys key)"
proof (cases "key \<in> set keys")
  case True
  then have "takeWhile (\<lambda>x. x \<noteq> key) (keys @ [x]) = takeWhile (\<lambda>x. x \<noteq> key) keys"
    by (auto simp: takeWhile_append)
  then show ?thesis using True takeWhile_found [of key keys] by (simp add: assignment_def)
next
  case False
  then show ?thesis by (auto simp: assignment_def takeWhile_append takeWhile_other)
qed

lemma assignment_None: "length keys < 5000 \<Longrightarrow> assignment keys key = None \<longleftrightarrow> key \<notin> set keys"
  using takeWhile_found [of key keys] length_takeWhile_le [of "\<lambda>x. x \<noteq> key" keys] by (simp add: assignment_def Let_def)

lemma exceptions_take_entry: "exceptions_ok st \<Longrightarrow> exceptions_ok (take_entry topks st m)"
  by (auto simp: exceptions_ok_def take_entry_def Let_def assign_exception_eq map_of_emplace
      distinct_emplace assignment_snoc assignment_None fun_eq_iff)

lemma merge_step_exceptions:
  assumes "merge_step k num topks st = Some st'" "exceptions_ok st"
  shows "exceptions_ok st'"
proof -
  have "st' = take_entry topks st (fst (the (select_max k topks (curs st) [0..<num] (0, 0))))"
    using assms(1) by (auto simp: merge_step_def vec_at_def take_entry_def Let_def split: bind_splits if_splits)
  then show ?thesis using exceptions_take_entry [OF assms(2)] by simp
qed

lemma merge_loop_exceptions:
  "merge_loop k num topks st = Some st' \<Longrightarrow> exceptions_ok st \<Longrightarrow> exceptions_ok st'"
proof (induction k num topks st rule: merge_loop.induct)
  case (1 k num topks st)
  show ?case
  proof (cases "length (merged st) < k * num")
    case True
    then obtain st1 where "merge_step k num topks st = Some st1" "merge_loop k num topks st1 = Some st'"
      using "1.prems"(1) by (subst (asm) merge_loop.simps) (auto split: bind_splits)
    then show ?thesis using "1.IH" [OF True] merge_step_exceptions "1.prems"(2) by blast
  next
    case False
    then show ?thesis using "1.prems" by (subst (asm) merge_loop.simps) simp
  qed
qed

lemma exceptions_init: "exceptions_ok (merge_init num)"
  by (simp add: exceptions_ok_def merge_init_def assignment_def fun_eq_iff)

text \<open>
  C14: The partitioner's merge. When every instance reports at least \<open>k\<close> entries, the first \<open>k\<close> of them
  with positive counts in descending order, the loop ends with no access outside a report; the merged
  list holds exactly the first \<open>k\<close> entries of every instance, in descending order of their counts; and
  the list that is sent assigns a key by the first position it has there: 0 before position 3000,
  1 before 4000, 2 before 5000, and no exception from there on.
\<close>

theorem partitioner_merges:
  assumes "good_reports k num topks"
  shows "\<exists>st. merge_loop k num topks (merge_init num) = Some st \<and> repartition k num topks = Some (exceptions st) \<and>
    mset (merged st) = (\<Sum>i<num. mset (map (tag i) (take k (topks ! i)))) \<and>
    sorted_wrt (\<lambda>x y. count_of y \<le> count_of x) (merged st) \<and>
    distinct (map fst (exceptions st)) \<and>
    map_of (exceptions st) = assignment (map fst (merged st))"
proof -
  have len: "length topks = num" using assms by (simp add: good_reports_def)
  obtain st where st: "merge_loop k num topks (merge_init num) = Some st" "merging k num topks st"
    "length (merged st) = k * num"
    using merge_loop_merging [OF merging_init [OF len] assms] by (auto simp: merge_init_def)
  have "(\<Sum>i<num. mset (map (tag i) (take (curs st ! i) (topks ! i)))) =
      (\<Sum>i<num. mset (map (tag i) (take k (topks ! i))))"
    using all_cursors_at_end [OF st(2,3)] by (intro sum.cong) simp_all
  then show ?thesis
    using st merge_loop_exceptions [OF st(1) exceptions_init]
    by (auto simp: merging_def repartition_def exceptions_ok_def)
qed

theorem partitioner_merges_witness:
  "good_reports 2 2 [[(7, 5), (8, 3)], [(9, 4), (4, 1)]] \<and>
   repartition 2 2 [[(7, 5), (8, 3)], [(9, 4), (4, 1)]] = Some [(7, 0), (9, 0), (8, 0), (4, 0)] \<and>
   (\<exists>st. merge_loop 2 2 [[(7, 5), (8, 3)], [(9, 4), (4, 1)]] (merge_init 2) = Some st \<and>
      sorted_wrt (\<lambda>x y. count_of y \<le> count_of x) (merged st))"
proof (intro conjI)
  show good: "good_reports 2 2 [[(7, 5), (8, 3)], [(9, 4), (4, 1)]]" by code_simp
  show "repartition 2 2 [[(7, 5), (8, 3)], [(9, 4), (4, 1)]] = Some [(7, 0), (9, 0), (8, 0), (4, 0)]"
    by code_simp
  show "\<exists>st. merge_loop 2 2 [[(7, 5), (8, 3)], [(9, 4), (4, 1)]] (merge_init 2) = Some st \<and>
      sorted_wrt (\<lambda>x y. count_of y \<le> count_of x) (merged st)"
    using partitioner_merges [OF good] by blast
qed

text \<open>
  C16: When every report has at least \<open>k\<close> entries for each instance, the merge returns without an access
  outside a report, whatever the keys and counts are: reports with zero counts, on which it falls back to
  the first instance, included. It sends every key to one instance only, which is one of the three. The
  partitioner asks its three instances for \<open>3 * k\<close> entries each.
\<close>

theorem repartition_safe:
  assumes "length topks = num" "\<forall>t\<in>set topks. k * num \<le> length t"
  shows "\<exists>ex. repartition k num topks = Some ex \<and> distinct (map fst ex) \<and> snd ` set ex \<subseteq> {0, 1, 2}"
proof -
  from merge_loop_total [OF merge_init_cursors [OF assms(1)]] assms(2) obtain st where
    st: "merge_loop k num topks (merge_init num) = Some st" by auto
  then have ok: "exceptions_ok st" using merge_loop_exceptions [OF _ exceptions_init] by blast
  have "i \<in> {0, 1, 2}" if "(key, i) \<in> set (exceptions st)" for key i
  proof -
    have "map_of (exceptions st) key = Some i" by (rule map_of_is_SomeI) (use that ok in \<open>simp_all add: exceptions_ok_def\<close>)
    then have "\<exists>p. i = target p" using ok by (auto simp: exceptions_ok_def assignment_def Let_def split: if_splits)
    then show ?thesis by (auto simp: target_def split: if_splits)
  qed
  then have "snd ` set (exceptions st) \<subseteq> {0, 1, 2}" by fastforce
  then show ?thesis using st ok by (simp add: repartition_def exceptions_ok_def)
qed

theorem repartition_safe_witness:
  "\<exists>ex. repartition 1 2 [[(7, 0), (8, 0), (9, 0)], [(1, 0), (2, 0), (3, 0)]] = Some ex \<and> distinct (map fst ex) \<and> snd ` set ex \<subseteq> {0, 1, 2}"
  using repartition_safe [of "[[(7, 0), (8, 0), (9, 0)], [(1, 0), (2, 0), (3, 0)]]" 2 1] by simp

section \<open>The contract of a database\<close>

text \<open>
  What the cluster relies on, as documented for \<^verbatim>\<open>Put\<close> and \<^verbatim>\<open>Delete\<close>: a write of moderate size
  succeeds and changes the value of its key and no other. A database has room for finitely many writes
  (its sequence numbers are bounded): \<open>room n d\<close> says that \<open>n\<close> more are possible.
\<close>

locale kv_store =
  fixes ops :: "'d DB" and get :: "'d \<Rightarrow> slice \<Rightarrow> slice option" and room :: "nat \<Rightarrow> 'd \<Rightarrow> bool"
  assumes put_stores: "room (Suc n) d \<Longrightarrow> length k + length v < 2 ^ 31 \<Longrightarrow>
      \<exists>d'. db_Put ops d k v = (Status_OK, d') \<and> room n d' \<and> get d' = (get d)(k \<mapsto> v)"
    and delete_removes: "room (Suc n) d \<Longrightarrow> length k < 2 ^ 31 \<Longrightarrow>
      \<exists>d'. db_Delete ops d k = (Status_OK, d') \<and> room n d' \<and> get d' = (get d)(k := None)"
    and room_less: "room (Suc n) d \<Longrightarrow> room n d"

definition key_slice :: "u64 \<Rightarrow> slice" where
  "key_slice key = string_slice (key_string key)"

lemma unat_of_char: "unat (of_char c :: byte) = of_char c"
  using unat_of_nat [where 'a = 8, of "of_char c"] of_char_mod_256 [where 'a = nat, of c]
  by (simp add: of_nat_of_char)

lemma of_char_byte_inj: "(of_char c :: byte) = of_char c' \<longleftrightarrow> c = c'"
  using unat_of_char [of c] unat_of_char [of c'] of_char_eq_iff [where 'a = nat] by metis

lemma key_string_value: "digits_from 0 (key_string key) = unat key"
  by (simp add: key_string_def digits_from_zeros digits_from_decimal)

lemma key_slice_inj [simp]: "key_slice key = key_slice key' \<longleftrightarrow> key = key'"
proof
  assume "key_slice key = key_slice key'"
  then have "key_string key = key_string key'"
    by (simp add: key_slice_def string_slice_def inj_map_eq_map inj_def of_char_byte_inj)
  then show "key = key'" by (metis key_string_value unsigned_word_eqI)
qed simp

lemma length_key_slice: "length (key_slice key) \<le> 20"
  using length_decimal [of "unat key" 19] unat_bound_64 [of key]
  by (simp add: key_slice_def string_slice_def key_string_def)

section \<open>Routing\<close>

text \<open>An instance holds a key; a key is stray on an instance that the coordinator does not route it to.\<close>

definition holds :: "('d \<Rightarrow> slice \<Rightarrow> slice option) \<Rightarrow> 'd cluster \<Rightarrow> nat \<Rightarrow> u64 \<Rightarrow> bool" where
  "holds get c i key \<longleftrightarrow> get (instances c ! i) (key_slice key) \<noteq> None"

definition stray :: "('d \<Rightarrow> slice \<Rightarrow> slice option) \<Rightarrow> 'd cluster \<Rightarrow> u64 \<Rightarrow> bool" where
  "stray get c key \<longleftrightarrow> (\<exists>i < length (instances c). holds get c i key \<and> lookup c key \<noteq> Some (int i))"

definition rooms :: "(nat \<Rightarrow> 'd \<Rightarrow> bool) \<Rightarrow> nat \<Rightarrow> 'd cluster \<Rightarrow> bool" where
  "rooms room n c \<longleftrightarrow> (\<forall>d\<in>set (instances c). room n d)"

lemma roomsD: "rooms room n c \<Longrightarrow> i < length (instances c) \<Longrightarrow> room n (instances c ! i)"
  by (simp add: rooms_def)

lemma lookup_update_instances [simp]:
  "lookup (c\<lparr>instances := (instances c)[i := d]\<rparr>) key = lookup c key"
  by (simp add: lookup_def split: option.splits)

context kv_store
begin

lemma rooms_less: "rooms room (Suc n) c \<Longrightarrow> rooms room n c"
  by (auto simp: rooms_def intro: room_less)

lemma instance_put_stores:
  assumes "room (Suc n) d"
  shows "room n (instance_put ops key d)"
    "get (instance_put ops key d) = (get d)(key_slice key \<mapsto> BigSlice value_size)"
proof -
  have "length (key_slice key) + length (BigSlice value_size) < 2 ^ 31"
    using length_key_slice [of key] by (simp add: BigSlice_def value_size_def)
  from put_stores [OF assms this]
  show "room n (instance_put ops key d)"
    "get (instance_put ops key d) = (get d)(key_slice key \<mapsto> BigSlice value_size)"
    by (auto simp: instance_put_def key_slice_def [symmetric])
qed

lemma instance_del_removes:
  assumes "room (Suc n) d"
  shows "room n (instance_del ops key d)" "get (instance_del ops key d) = (get d)(key_slice key := None)"
proof -
  have "length (key_slice key) < 2 ^ 31" using length_key_slice [of key] by simp
  from delete_removes [OF assms this]
  show "room n (instance_del ops key d)" "get (instance_del ops key d) = (get d)(key_slice key := None)"
    by (auto simp: instance_del_def key_slice_def [symmetric])
qed

lemma call_put:
  assumes "call c i (instance_put ops key) = Some c'" "rooms room (Suc n) c"
  shows "0 \<le> i" "nat i < length (instances c)" "rooms room n c'" "length (instances c') = length (instances c)"
    "routing c' = routing c"
    "j < length (instances c) \<Longrightarrow> holds get c' j key' \<longleftrightarrow> holds get c j key' \<or> int j = i \<and> key' = key"
proof -
  show i: "0 \<le> i" "nat i < length (instances c)" and "length (instances c') = length (instances c)"
    "routing c' = routing c"
    using assms(1) by (auto simp: call_def split: if_splits)
  note p = instance_put_stores [OF roomsD [OF assms(2) i(2)], of key]
  show "rooms room n c'"
    using assms p(1) rooms_less [OF assms(2)] set_update_subset_insert
    by (fastforce simp: call_def rooms_def split: if_splits)
  show "holds get c' j key' \<longleftrightarrow> holds get c j key' \<or> int j = i \<and> key' = key" if "j < length (instances c)"
    using assms(1) i that p(2) by (auto simp: call_def holds_def nth_list_update split: if_splits)
qed

lemma coord_del_removes:
  assumes "coord_del ops c i key = Some c'" "rooms room (Suc n) c"
  shows "0 \<le> i" "nat i < length (instances c)" "rooms room n c'" "length (instances c') = length (instances c)"
    "routing c' = routing c"
    "j < length (instances c) \<Longrightarrow> get (instances c' ! j) =
       (if int j = i then (get (instances c ! j))(key_slice key := None) else get (instances c ! j))"
proof -
  show i: "0 \<le> i" "nat i < length (instances c)" and "length (instances c') = length (instances c)"
    "routing c' = routing c"
    using assms(1) by (auto simp: coord_del_def call_def split: if_splits)
  note p = instance_del_removes [OF roomsD [OF assms(2) i(2)], of key]
  show "rooms room n c'"
    using assms p(1) rooms_less [OF assms(2)] set_update_subset_insert
    by (fastforce simp: coord_del_def call_def rooms_def split: if_splits)
  show "get (instances c' ! j) =
       (if int j = i then (get (instances c ! j))(key_slice key := None) else get (instances c ! j))"
    if "j < length (instances c)"
    using assms(1) i that p(2) by (auto simp: coord_del_def call_def nth_list_update split: if_splits)
qed

end

lemma lookup_cong:
  "routing c' = routing c \<Longrightarrow> length (instances c') = length (instances c) \<Longrightarrow> lookup c' key = lookup c key"
  by (cases "instances c") (auto simp: lookup_def split: option.splits)

lemma lookup_not_routed:
  "key \<notin> fst ` set (routing c) \<Longrightarrow> length (instances c) = 3 \<Longrightarrow> lookup c key = Some (int (unat key mod 3))"
  by (auto simp: lookup_def map_of_eq_None_iff [symmetric])

text \<open>
  The invariant of the coordinator with one repartition. \<open>home i key\<close>: instance \<open>i\<close> is where the key goes
  without exceptions. Once the list is installed, a key on another instance than the one it is routed to
  is still to be deleted there, or it is the one key \<open>x\<close> that was on its way.
\<close>

definition home :: "nat \<Rightarrow> u64 \<Rightarrow> bool" where
  "home i key \<longleftrightarrow> i = unat key mod 3"

definition placed :: "('d \<Rightarrow> slice \<Rightarrow> slice option) \<Rightarrow> u64 \<Rightarrow> 'd coord_state \<Rightarrow> bool" where
  "placed get x s \<longleftrightarrow> length (instances (cl s)) = 3 \<and> set (todo s) \<subseteq> set (routing (cl s)) \<and>
    snd ` set (routing (cl s)) \<subseteq> {0, 1, 2} \<and>
    (\<forall>i<3. \<forall>key. holds get (cl s) i key \<longrightarrow>
       lookup (cl s) key = Some (int i) \<or> home i key \<and> (key \<in> fst ` set (todo s) \<or> key = x)) \<and>
    (\<forall>key i. pending s = Some (key, i) \<longrightarrow>
       lookup (cl s) key = Some i \<or> key = x \<and> i = int (unat key mod 3))"

definition coord_inv :: "('d \<Rightarrow> slice \<Rightarrow> slice option) \<Rightarrow> 'd coord_state \<Rightarrow> bool" where
  "coord_inv get s \<longleftrightarrow> rounds s \<le> 1 \<and>
    (if rounds s = 0 then \<exists>x. placed get x s
     else routing (cl s) = [] \<and> todo s = [] \<and> (\<forall>x. placed get x s))"

lemma placedD:
  assumes "placed get x s"
  shows "length (instances (cl s)) = 3" "set (todo s) \<subseteq> set (routing (cl s))"
    "snd ` set (routing (cl s)) \<subseteq> {0, 1, 2}"
    "i < 3 \<Longrightarrow> holds get (cl s) i key \<Longrightarrow>
       lookup (cl s) key = Some (int i) \<or> home i key \<and> (key \<in> fst ` set (todo s) \<or> key = x)"
    "pending s = Some (key, j) \<Longrightarrow> lookup (cl s) key = Some j \<or> key = x \<and> j = int (unat key mod 3)"
  using assms by (auto simp: placed_def)

lemma placed_lookup:
  assumes "placed get x s" "lookup (cl s) key = Some i"
  shows "placed get x (s\<lparr>pending := Some (key, i)\<rparr>)"
  using assms by (auto simp: placed_def)

lemma placedI:
  assumes "length (instances (cl s)) = 3" "set (todo s) \<subseteq> set (routing (cl s))"
    "snd ` set (routing (cl s)) \<subseteq> {0, 1, 2}"
    "\<And>i key. i < 3 \<Longrightarrow> holds get (cl s) i key \<Longrightarrow> lookup (cl s) key \<noteq> Some (int i) \<Longrightarrow>
       home i key \<and> (key \<in> fst ` set (todo s) \<or> key = x)"
    "\<And>key j. pending s = Some (key, j) \<Longrightarrow> lookup (cl s) key \<noteq> Some j \<Longrightarrow> key = x \<and> j = int (unat key mod 3)"
  shows "placed get x s"
  unfolding placed_def using assms by blast

lemma placed_repartition:
  assumes "placed get x s" "routing (cl s) = []" "todo s = []" "snd ` set ex \<subseteq> {0, 1, 2}"
    "\<And>key i. pending s = Some (key, i) \<Longrightarrow> key = x"
  shows "placed get x (s\<lparr>cl := (cl s)\<lparr>routing := ex\<rparr>, todo := ex, rounds := r\<rparr>)"
proof -
  note pl = placedD [OF assms(1)]
  have home: "lookup (cl s) key = Some (int (unat key mod 3))" for key
    using lookup_not_routed [OF _ pl(1)] assms(2) by simp
  have new: "key \<notin> fst ` set ex \<Longrightarrow> lookup ((cl s)\<lparr>routing := ex\<rparr>) key = Some (int (unat key mod 3))" for key
    using lookup_not_routed [of key "(cl s)\<lparr>routing := ex\<rparr>"] pl(1) by simp
  have at_home: "home i key" if "holds get (cl s) i key" "i < 3" for i key
    using pl(4) [OF that(2,1)] home [of key] by (auto simp: home_def)
  show ?thesis
  proof (rule placedI)
    fix i key assume i: "i < 3"
      and h: "holds get (cl (s\<lparr>cl := (cl s)\<lparr>routing := ex\<rparr>, todo := ex, rounds := r\<rparr>)) i key"
      and l: "lookup (cl (s\<lparr>cl := (cl s)\<lparr>routing := ex\<rparr>, todo := ex, rounds := r\<rparr>)) key \<noteq> Some (int i)"
    have "home i key" using at_home i h by (simp add: holds_def)
    then show "home i key \<and> (key \<in> fst ` set (todo (s\<lparr>cl := (cl s)\<lparr>routing := ex\<rparr>, todo := ex, rounds := r\<rparr>)) \<or> key = x)"
      using new [of key] l by (auto simp: home_def)
  next
    fix key j assume "pending (s\<lparr>cl := (cl s)\<lparr>routing := ex\<rparr>, todo := ex, rounds := r\<rparr>) = Some (key, j)"
    then show "key = x \<and> j = int (unat key mod 3)"
      using pl(5) [of key j] assms(5) [of key j] home [of key] by auto
  qed (use pl(1) assms(4) in simp_all)
qed

context kv_store
begin

lemma placed_deliver:
  assumes "placed get x s" "pending s = Some (key, i)" "call (cl s) i (instance_put ops key) = Some c"
    "rooms room (Suc n) (cl s)"
  shows "placed get x (s\<lparr>cl := c, pending := None\<rparr>)"
proof -
  note pl = placedD [OF assms(1)] and cp = call_put [OF assms(3,4)]
  have l: "lookup c k = lookup (cl s) k" for k by (rule lookup_cong) (simp_all add: cp)
  show ?thesis
  proof (rule placedI)
    fix j k assume j: "j < 3" and h: "holds get (cl (s\<lparr>cl := c, pending := None\<rparr>)) j k"
      and ne: "lookup (cl (s\<lparr>cl := c, pending := None\<rparr>)) k \<noteq> Some (int j)"
    have "holds get (cl s) j k \<or> int j = i \<and> k = key" using cp(6) [of j k] j h pl(1) by simp
    then show "home j k \<and> (k \<in> fst ` set (todo (s\<lparr>cl := c, pending := None\<rparr>)) \<or> k = x)"
      using pl(4) [OF j, of k] pl(5) [OF assms(2)] ne by (auto simp: l home_def)
  qed (use pl(1-3) cp in simp_all)
qed

lemma placed_delete:
  assumes "placed get x s" "todo s = item # items"
    "coord_del ops (cl s) (int (unat (fst item) mod 3)) (fst item) = Some c" "rooms room (Suc n) (cl s)"
  shows "placed get x (s\<lparr>cl := c, todo := items\<rparr>)"
proof -
  note pl = placedD [OF assms(1)] and cd = coord_del_removes [OF assms(3,4)]
  have l: "lookup c k = lookup (cl s) k" for k by (rule lookup_cong) (simp_all add: cd)
  show ?thesis
  proof (rule placedI)
    fix j k assume j: "j < 3" and h: "holds get (cl (s\<lparr>cl := c, todo := items\<rparr>)) j k"
      and ne: "lookup (cl (s\<lparr>cl := c, todo := items\<rparr>)) k \<noteq> Some (int j)"
    have "holds get (cl s) j k \<and> \<not> (home j k \<and> k = fst item)"
      using cd(6) [of j] j h pl(1) by (auto simp: holds_def home_def split: if_splits)
    then show "home j k \<and> (k \<in> fst ` set (todo (s\<lparr>cl := c, todo := items\<rparr>)) \<or> k = x)"
      using pl(4) [OF j, of k] ne by (auto simp: l assms(2))
  next
    fix k j assume "pending (s\<lparr>cl := c, todo := items\<rparr>) = Some (k, j)"
      and "lookup (cl (s\<lparr>cl := c, todo := items\<rparr>)) k \<noteq> Some j"
    then show "k = x \<and> j = int (unat k mod 3)" using pl(5) [of k j] by (simp add: l)
  qed (use pl(1-3) cd assms(2) in auto)
qed

lemma coord_step_inv:
  assumes "coord_step ops s s'" "coord_inv get s" "rooms room (Suc n) (cl s)"
  shows "coord_inv get s' \<and> rooms room n (cl s')"
  using assms(1)
proof cases
  case (step_lookup key i)
  then show ?thesis
    using assms(2,3) by (auto simp: coord_inv_def intro: placed_lookup rooms_less split: if_splits)
next
  case (step_deliver key i c)
  then show ?thesis
    using assms(2) call_put(3,5) [OF step_deliver(3) assms(3)]
    by (auto simp: coord_inv_def intro: placed_deliver [OF _ step_deliver(2,3) assms(3)] split: if_splits)
next
  case (step_repartition r ex)
  define x where "x = (case pending s of Some (key, i) \<Rightarrow> key | None \<Rightarrow> 0)"
  have "placed get x s" "routing (cl s) = []" "r = 0"
    using assms(2) step_repartition by (auto simp: coord_inv_def split: if_splits)
  then have "placed get x s'"
    using placed_repartition [of get x s ex r] step_repartition by (auto simp: x_def)
  then show ?thesis
    using step_repartition \<open>r = 0\<close> rooms_less [OF assms(3)] by (auto simp: coord_inv_def rooms_def)
next
  case (step_delete item items c)
  then show ?thesis
    using assms(2) coord_del_removes(3,5) [OF step_delete(3) assms(3)]
    by (auto simp: coord_inv_def intro: placed_delete [OF _ step_delete(2,3) assms(3)] split: if_splits)
qed

lemma coord_steps_inv:
  assumes "(coord_step ops ^^ n) s s'" "coord_inv get s" "rooms room (n + m) (cl s)"
  shows "coord_inv get s' \<and> rooms room m (cl s')"
  using assms
proof (induction n arbitrary: s)
  case (Suc n)
  then obtain s1 where s1: "coord_step ops s s1" "(coord_step ops ^^ n) s1 s'"
    by (metis relpowp_Suc_D2)
  then show ?case using coord_step_inv [OF s1(1) Suc.prems(2)] Suc.prems(3) Suc.IH [OF s1(2)] by simp
qed simp

end

lemma four_steps: "R a b \<Longrightarrow> R b c \<Longrightarrow> R c d \<Longrightarrow> R d e \<Longrightarrow> R\<^sup>*\<^sup>* a e"
  by (meson converse_rtranclp_into_rtranclp rtranclp.rtrancl_refl)

lemma target_cases: "target p \<in> {0, 1, 2}"
  by (simp add: target_def)

lemma coord_inv_init:
  assumes "length dbs = 3" "\<forall>d\<in>set dbs. \<forall>key. get d (key_slice key) = None" "r \<le> 1"
  shows "coord_inv get (coord_init dbs r)"
proof -
  have "placed get x (coord_init dbs r)" for x
    using assms by (intro placedI) (auto simp: coord_init_def Coordinator_new_def holds_def)
  then show ?thesis using assms(3) by (auto simp: coord_inv_def coord_init_def Coordinator_new_def)
qed

lemma coord_inv_placed: "coord_inv get s \<Longrightarrow> \<exists>x. placed get x s"
  by (auto simp: coord_inv_def split: if_splits)

lemma lookup_in_range:
  assumes "lookup c key = Some i" "length (instances c) = 3" "snd ` set (routing c) \<subseteq> {0, 1, 2}"
  shows "0 \<le> i \<and> nat i < 3"
proof (cases "map_of (routing c) key")
  case None
  then show ?thesis using assms(1,2) by (auto simp: lookup_def split: if_splits)
next
  case (Some j)
  then have "j \<in> {0, 1, 2}" using assms(3) map_of_SomeD [of "routing c" key j] by force
  then show ?thesis using assms(1) Some by (auto simp: lookup_def)
qed

lemma placed_progress:
  assumes "placed get x s" "pending s \<noteq> None \<or> todo s \<noteq> []"
  shows "\<exists>s'. coord_step ops s s'"
proof (cases "todo s")
  case (Cons item items)
  then obtain c where "coord_del ops (cl s) (int (unat (fst item) mod 3)) (fst item) = Some c"
    using placedD(1) [OF assms(1)] by (simp add: coord_del_def call_def)
  then show ?thesis using coord_step.step_delete [OF Cons] by blast
next
  case Nil
  then obtain key i where p: "pending s = Some (key, i)" using assms(2) by auto
  have "0 \<le> i \<and> nat i < 3"
    using placedD(5) [OF assms(1) p] lookup_in_range [OF _ placedD(1,3) [OF assms(1)]] by auto
  then obtain c where "call (cl s) i (instance_put ops key) = Some c"
    using placedD(1) [OF assms(1)] by (simp add: call_def)
  then show ?thesis using coord_step.step_deliver [OF p] by blast
qed

context kv_store
begin

lemma del_loop_removes:
  assumes "length (instances c) = 3" "rooms room (length ex) c"
  shows "\<exists>c'. del_loop ops ex c = Some c' \<and> routing c' = routing c \<and> length (instances c') = 3 \<and>
    (\<forall>i<3. \<forall>key. holds get c' i key \<longleftrightarrow> holds get c i key \<and> \<not> (key \<in> fst ` set ex \<and> home i key))"
  using assms
proof (induction ex arbitrary: c)
  case (Cons item ex)
  obtain c1 where c1: "coord_del ops c (int (unat (fst item) mod 3)) (fst item) = Some c1"
    using Cons.prems(1) by (simp add: coord_del_def call_def)
  note cd = coord_del_removes [OF c1 Cons.prems(2) [simplified]]
  have h: "holds get c1 i key \<longleftrightarrow> holds get c i key \<and> \<not> (key = fst item \<and> home i key)" if "i < 3" for i key
    using cd(6) [of i] that Cons.prems(1) by (auto simp: holds_def home_def)
  obtain c2 where "del_loop ops ex c1 = Some c2" "routing c2 = routing c1" "length (instances c2) = 3"
    "\<forall>i<3. \<forall>key. holds get c2 i key \<longleftrightarrow> holds get c1 i key \<and> \<not> (key \<in> fst ` set ex \<and> home i key)"
    using Cons.IH [of c1] cd(3,4) Cons.prems(1) by auto
  then show ?case using c1 cd(5) h by auto
qed simp

lemma at_most_one_stray_key:
  assumes "length dbs = 3" "\<forall>d\<in>set dbs. room n d \<and> (\<forall>key. get d (key_slice key) = None)"
    "(coord_step ops ^^ n) (coord_init dbs 1) s"
  shows "(\<exists>x. \<forall>key. stray get (cl s) key \<longrightarrow> key \<in> fst ` set (todo s) \<or> key = x) \<and>
    (pending s = None \<and> todo s = [] \<or> (\<exists>s'. coord_step ops s s'))"
proof -
  have "coord_inv get (coord_init dbs 1)" using assms by (intro coord_inv_init) auto
  then have "coord_inv get s"
    using coord_steps_inv [OF assms(3), of 0] assms(2) by (simp add: rooms_def coord_init_def Coordinator_new_def)
  then obtain x where x: "placed get x s" using coord_inv_placed by blast
  have "key \<in> fst ` set (todo s) \<or> key = x" if "stray get (cl s) key" for key
    using that placedD(1,4) [OF x] by (auto simp: stray_def)
  then show ?thesis using placed_progress [OF x] by blast
qed

lemma overlapping_put_stray:
  assumes len: "length dbs = 3" and room: "\<forall>d\<in>set dbs. room 2 d" and i: "i \<in> {0, 1, 2}" "i \<noteq> int (unat key mod 3)"
  shows "\<exists>s. (coord_step ops)\<^sup>*\<^sup>* (coord_init dbs 1) s \<and> pending s = None \<and> todo s = [] \<and> stray get (cl s) key"
proof -
  let ?h = "int (unat key mod 3)" and ?ex = "[(key, i)]"
  let ?s0 = "coord_init dbs 1"
  let ?s1 = "?s0\<lparr>pending := Some (key, ?h)\<rparr>"
  let ?c2 = "(cl ?s1)\<lparr>routing := ?ex\<rparr>"
  let ?s2 = "?s1\<lparr>cl := ?c2, todo := ?ex, rounds := 0\<rparr>"
  have "lookup (cl ?s0) key = Some ?h"
    using len by (intro lookup_not_routed) (simp_all add: coord_init_def Coordinator_new_def)
  then have 1: "coord_step ops ?s0 ?s1" by (intro step_lookup) (simp_all add: coord_init_def)
  have 2: "coord_step ops ?s1 ?s2" using i by (intro step_repartition) (simp_all add: coord_init_def)
  obtain c3 where c3: "coord_del ops ?c2 ?h key = Some c3"
    using len by (simp add: coord_del_def call_def coord_init_def Coordinator_new_def)
  have rooms: "rooms room (Suc 1) ?c2" using room by (simp add: rooms_def coord_init_def Coordinator_new_def numeral_2_eq_2)
  note cd = coord_del_removes [OF c3 rooms]
  let ?s3 = "?s2\<lparr>cl := c3, todo := []\<rparr>"
  have 3: "coord_step ops ?s2 ?s3" using c3 by (intro step_delete [where item = "(key, i)"]) simp_all
  obtain c4 where c4: "call c3 ?h (instance_put ops key) = Some c4"
    using len cd(4) by (simp add: call_def coord_init_def Coordinator_new_def)
  note cp = call_put [OF c4 cd(3) [simplified One_nat_def]]
  let ?s4 = "?s3\<lparr>cl := c4, pending := None\<rparr>"
  have 4: "coord_step ops ?s3 ?s4" using c4 by (intro step_deliver) simp_all
  have "(coord_step ops)\<^sup>*\<^sup>* ?s0 ?s4"
    by (rule four_steps [where R = "coord_step ops", OF 1 2 3 4])
  moreover have "stray get c4 key"
  proof -
    have "length (instances c4) = 3" using len cp(4) cd(4) by (simp add: coord_init_def Coordinator_new_def)
    moreover have "lookup c4 key = Some i" using cp(5) cd(5) by (simp add: lookup_def)
    moreover have "holds get c4 (unat key mod 3) key"
      using cp(6) [of "unat key mod 3" key] len cd(4) by (simp add: coord_init_def Coordinator_new_def)
    ultimately show ?thesis using i(2) by (auto simp: stray_def intro!: exI [of _ "unat key mod 3"])
  qed
  ultimately show ?thesis by (intro exI [of _ ?s4]) simp
qed

end

end
