(* ===== verification/DbStore.thy ===== *)
theory DbStore
  imports DbWrite Cluster
begin

text \<open>
  The database as a store of keys and values: what \<^verbatim>\<open>Get\<close> returns after writes, the contract of an instance of the
  cluster on it, and the database over the vector memtable and the in-memory file.
\<close>

section \<open>What the entries stand for\<close>

text \<open>The values after the entries, in the order of their sequence numbers.\<close>

definition view_step :: "mt_entry \<Rightarrow> (slice \<Rightarrow> slice option) \<Rightarrow> slice \<Rightarrow> slice option" where
  "view_step e m = (case e of (k, s, t, v) \<Rightarrow> m(k := if t = kTypeValue then Some v else None))"

definition db_view :: "mt_entry list \<Rightarrow> slice \<Rightarrow> slice option" where
  "db_view es = fold view_step es (\<lambda>_. None)"

definition ascending :: "mt_entry list \<Rightarrow> bool" where
  "ascending es \<longleftrightarrow> sorted_wrt (\<lambda>a b. fst (snd a) < fst (snd b)) es"

definition plain_entries :: "mt_entry list \<Rightarrow> bool" where
  "plain_entries es \<longleftrightarrow> (\<forall>e \<in> set es. plain_type (fst (snd (snd e))))"

lemma view_other: "u \<notin> fst ` set es \<Longrightarrow> fold view_step es m u = m u"
  by (induction es arbitrary: m) (auto simp: view_step_def split: prod.splits)

lemma db_view_snoc: "db_view (es @ [e]) = view_step e (db_view es)"
  by (simp add: db_view_def)

lemma db_view_last:
  assumes "u \<notin> fst ` set ys" "fst e = u"
  shows "db_view (xs @ e # ys) u = (if fst (snd (snd e)) = kTypeValue then Some (snd (snd (snd e))) else None)"
  using view_other [OF assms(1)] assms(2) by (cases e) (simp add: db_view_def view_step_def)

lemma newest_in_ascending:
  assumes "ascending (xs @ e # ys)" "u \<notin> fst ` set ys" "fst e = u" "\<forall>a b. cmp_Compare c a b = 0 \<longleftrightarrow> a = b"
    "fst (snd e) \<le> s"
  shows "newest_version c (xs @ e # ys) u s e"
proof -
  have "e' \<in> set xs \<or> e' = e" if "e' \<in> set (xs @ e # ys)" "fst e' = u" for e'
    using that assms(2) by (auto simp: image_iff)
  moreover have "fst (snd e') \<le> fst (snd e)" if "e' \<in> set xs \<or> e' = e" for e'
    using that assms(1) by (auto simp: ascending_def sorted_wrt_append intro: less_imp_le)
  ultimately have "fst (snd e') \<le> fst (snd e)" if "e' \<in> set (xs @ e # ys)" "version_of c u s e'" for e'
    using that assms(4) unfolding version_of_def by blast
  then show ?thesis using assms(3-) by (simp add: newest_version_def version_of_def)
qed

definition get_saver :: Saver where
  "get_saver = \<lparr>sv_status = Status_OK, sv_found_final_value = False, sv_merge_in_progress = False, sv_value = [],
    sv_seq = 0, sv_operands = [], sv_is_blob_index = False\<rparr>"

text \<open>A database that holds the keys and values \<open>kv\<close> and has used \<open>n\<close> sequence numbers.\<close>

definition db_holds :: "Comparator \<Rightarrow> ('r \<Rightarrow> bytes multiset) \<Rightarrow> ('r \<Rightarrow> bool) \<Rightarrow> ('d \<Rightarrow> bytes) \<Rightarrow> ('d \<Rightarrow> bool) \<Rightarrow>
    ('r, 'd) DBImpl \<Rightarrow> (slice \<Rightarrow> slice option) \<Rightarrow> nat \<Rightarrow> bool" where
  "db_holds c elems active held sound db kv n \<longleftrightarrow>
    (\<exists>es. db_at c elems active held sound db es n \<and> ascending es \<and> plain_entries es \<and> kv = db_view es)"

context database
begin

lemma DB_Get_view:
  assumes db: "db_at c elems active held sound db es n" "ascending es" "plain_entries es"
    and u: "length u + 8 < 2 ^ 32" "n < 2 ^ 56"
  shows "DB_Get env db u = db_view es u"
proof -
  have s: "db_last_sequence db \<le> kMaxSequenceNumber" using db(1) seq_of_nat(2) [OF u(2)] by (simp add: db_at_def)
  have m: "mt_holds c elems (db_mem db) es" "good (mt_table (db_mem db))"
    using db(1) mem.active_inv by (auto simp: db_at_def mem_at_def)
  have vis: "\<forall>q. gc_is_visible (de_get env) q" using visible by blast
  have sv: "st_code (sv_status get_saver) \<noteq> KMergeInProgress" by (simp add: get_saver_def Status_OK_def)
  show ?thesis
  proof (cases "u \<in> fst ` set es")
    case True
    then obtain xs e ys where es: "es = xs @ e # ys" "fst e = u" "u \<notin> fst ` set ys"
      using split_list_last_prop [of es "\<lambda>e. fst e = u"] by (metis (no_types, lifting) imageE)
    have "unat (fst (snd e)) < Suc n" "db_last_sequence db = word_of_nat n" using db(1) es(1) by (auto simp: db_at_def mem_at_def)
    then have le: "fst (snd e) \<le> db_last_sequence db" by (simp add: word_le_nat_alt seq_of_nat(1) [OF u(2)])
    have new: "newest_version c es u (db_last_sequence db) e"
      unfolding es(1) by (rule newest_in_ascending) (use db(2) es same_key le in auto)
    have pt: "plain_type (fst (snd (snd e)))" using db(3) es(1) by (simp add: plain_entries_def)
    obtain m' where "MemTable_Get (de_rep env) (de_get env) (de_covering env) (LookupKey_new u (db_last_sequence db)) 0 get_saver (db_mem db) =
        (True, plain_result (de_get env) e (start_saver get_saver), m')"
      using mem.MemTable_Get_found [OF m u(1) s compares vis sv new pt] by blast
    then have "DB_Get env db u = (let r = plain_result (de_get env) e (start_saver get_saver) in if ok (sv_status r) then Some (sv_value r) else None)"
      by (simp add: DB_Get_def get_saver_def [symmetric])
    also have "\<dots> = db_view es u"
      unfolding es(1) db_view_last [OF es(3,2)]
      by (auto simp: plain_result_def Let_def ok_def NotFound_def Status_OK_def split: prod.split)
    finally show ?thesis .
  next
    case False
    then have "\<forall>e\<in>set es. \<not> version_of c u (db_last_sequence db) e" using same_key by (auto simp: version_of_def image_iff)
    then obtain sv' m' where "MemTable_Get (de_rep env) (de_get env) (de_covering env) (LookupKey_new u (db_last_sequence db)) 0 get_saver (db_mem db) =
        (False, sv', m')"
      using mem.MemTable_Get_missing [OF m u(1) s compares sv] by blast
    then show ?thesis using view_other [OF False] by (simp add: DB_Get_def get_saver_def [symmetric] db_view_def)
  qed
qed

end

section \<open>Single writes\<close>

lemma number_ops_plain:
  assumes "\<forall>x \<in> set xs. case op_entry x of None \<Rightarrow> True | Some (t, k, v) \<Rightarrow> plain_type t"
  shows "plain_entries (number_ops n xs)"
  using assms by (induction xs arbitrary: n) (fastforce simp: plain_entries_def split: option.splits prod.splits)+

lemma ascending_number_ops:
  assumes "ascending es" "\<forall>e \<in> set es. unat (fst (snd e)) < n" "n + num_entries xs \<le> 2 ^ 56"
  shows "ascending (es @ number_ops n xs)"
  using assms
proof (induction xs arbitrary: n es)
  case (Cons x xs)
  show ?case
  proof (cases "op_entry x")
    case None
    then show ?thesis using Cons by (simp add: op_counted_entry)
  next
    case (Some y)
    obtain t k v where y: "y = (t, k, v)" by (cases y)
    have n: "n < 2 ^ 56" using Cons.prems(3) Some by (simp add: op_counted_entry)
    have "ascending (es @ [(k, word_of_nat n, t, v)])"
      using Cons.prems(1,2) seq_of_nat(1) [OF n] by (auto simp: ascending_def sorted_wrt_append word_less_nat_alt)
    moreover have "\<forall>e \<in> set (es @ [(k, word_of_nat n, t, v)]). unat (fst (snd e)) < Suc n"
      using Cons.prems(2) seq_of_nat(1) [OF n] by auto
    ultimately show ?thesis
      using Cons.IH [of "es @ [(k, word_of_nat n, t, v)]" "Suc n"] Cons.prems(3) Some y by (simp add: op_counted_entry)
  qed
qed simp

lemma term_point_cleared [simp]: "is_cleared SavePoint_cleared"
  by (simp add: is_cleared_def SavePoint_cleared_def)

lemma add_record_term_point:
  "wal_term_point (snd (add_record b cf t0 t1 payload flag)) = wal_term_point b"
  by (simp add: add_record_def LocalSavePoint_commit_def Let_def SetCount_def)

lemma put_batch:
  assumes "length k + length v < 2 ^ 31"
  shows "\<exists>b. WB_Put (WriteBatch_new 0) 0 k v = (Status_OK, b) \<and> writer_ops (Writer_of b) [OpPut 0 k v]"
proof -
  let ?b = "snd (WB_Put (WriteBatch_new 0) 0 k v)"
  have len: "length k \<le> kMaxUint32" "length v \<le> kMaxUint32" using assms by (simp_all add: kMaxUint32_def)
  have "wb_rel ?b \<lparr>a_ops = [OpPut 0 k v], a_saved = [], a_max = 0\<rparr>"
    using built_rel [of "[CPut 0 k v]" 0] assms by (simp add: abs_new_def abs_checked_def abs_add_def split_def)
  moreover have "is_cleared (wal_term_point ?b)"
    using len by (simp add: WB_Put_def add_record_term_point) (simp add: WriteBatch_new_def)
  moreover have "fst (WB_Put (WriteBatch_new 0) 0 k v) = Status_OK"
    using len by (simp add: WB_Put_def add_record_def LocalSavePoint_commit_def WriteBatch_new_def Let_def SetCount_def)
  ultimately show ?thesis using assms
    by (intro exI [of _ ?b]) (auto simp: writer_ops_def Writer_of_def CallbackFailed_def prod_eq_iff)
qed

lemma delete_batch:
  assumes "length k < 2 ^ 31"
  shows "writer_ops (Writer_of (snd (WB_Delete (WriteBatch_new 0) 0 k))) [OpDelete 0 k]"
proof -
  let ?b = "snd (WB_Delete (WriteBatch_new 0) 0 k)"
  have "wb_rel ?b \<lparr>a_ops = [OpDelete 0 k], a_saved = [], a_max = 0\<rparr>"
    using built_rel [of "[CDelete 0 k]" 0] by (simp add: abs_new_def abs_add_def split_def)
  moreover have "is_cleared (wal_term_point ?b)"
    by (simp add: WB_Delete_def add_record_term_point) (simp add: WriteBatch_new_def)
  ultimately show ?thesis using assms
    by (auto simp: writer_ops_def Writer_of_def CallbackFailed_def)
qed

definition entry_value :: "byte \<Rightarrow> slice \<Rightarrow> slice option" where
  "entry_value t v = (if t = kTypeValue then Some v else None)"

text \<open>The operations of an instance's database, what it holds, and how many writes it has room for.\<close>

definition db_ops ::
    "('r, 'd) db_env \<Rightarrow> (('r, 'd) DBImpl \<Rightarrow> nat \<Rightarrow> (TopkData \<times> ('r, 'd) DBImpl) option) \<Rightarrow> ('r, 'd) DBImpl DB" where
  "db_ops env report = \<lparr>db_Put = DB_Put env, db_Delete = DB_Delete env, db_ReportTopk = report\<rparr>"

definition db_get :: "('r, 'd) db_env \<Rightarrow> ('r, 'd) DBImpl \<Rightarrow> slice \<Rightarrow> slice option" where
  "db_get env db u = (if length u + 8 < 2 ^ 32 then DB_Get env db u else None)"

definition db_room :: "Comparator \<Rightarrow> ('r \<Rightarrow> bytes multiset) \<Rightarrow> ('r \<Rightarrow> bool) \<Rightarrow> ('d \<Rightarrow> bytes) \<Rightarrow> ('d \<Rightarrow> bool) \<Rightarrow>
    nat \<Rightarrow> ('r, 'd) DBImpl \<Rightarrow> bool" where
  "db_room c elems active held sound n db \<longleftrightarrow> (\<exists>kv m. db_holds c elems active held sound db kv m \<and> m + n < 2 ^ 56)"

lemma db_holdsI:
  "db_at c elems active held sound db es n \<Longrightarrow> ascending es \<Longrightarrow> plain_entries es \<Longrightarrow>
    db_holds c elems active held sound db (db_view es) n"
  by (auto simp: db_holds_def)

context database
begin

lemma db_get_view:
  assumes "db_holds c elems active held sound db kv n" "n < 2 ^ 56"
  shows "db_get env db u = (if length u + 8 < 2 ^ 32 then kv u else None)"
  using assms DB_Get_view by (auto simp: db_holds_def db_get_def)

lemma single_write:
  assumes db: "db_holds c elems active held sound db kv n" and w: "writer_ops (Writer_of b) [x]"
    and x: "op_entry x = Some (t, k, v)" "plain_type t" "sizes_ok k v" and n: "Suc n < 2 ^ 56"
  shows "\<exists>db'. DB_Write env b db = (Status_OK, db') \<and>
    db_holds c elems active held sound db' (kv(k := entry_value t v)) (Suc n)"
proof -
  obtain es where es: "db_at c elems active held sound db es n" "ascending es" "plain_entries es" "kv = db_view es"
    using db by (auto simp: db_holds_def)
  have rd: "t \<noteq> kTypeRangeDeletion" using x(2) by (auto simp: plain_type_def value_type_defs)
  have ws: "list_all2 writer_ops [Writer_of b] [[x]]" "group_sizes [[x]]"
    using w x rd by (auto simp: group_sizes_def op_sizes_def op_counted_entry)
  have wo: "plain_options WriteOptions_default" by (simp add: plain_options_def WriteOptions_default_def)
  have one: "num_entries (concat [[x]]) = 1" using x(1) by (simp add: op_counted_entry)
  have num: "number_ops (Suc n) (concat [[x]]) = [(k, word_of_nat (Suc n), t, v)]" using x(1) by simp
  obtain db' where db': "WriteImpl env WriteOptions_default [Writer_of b] db = (FinalStatus Status_OK (Writer_of b), db')"
    "db_at c elems active held sound db' (es @ [(k, word_of_nat (Suc n), t, v)]) (Suc n)"
    using WriteImpl_group [OF es(1) ws wo] n unfolding num one by auto
  have asc: "ascending (es @ [(k, word_of_nat (Suc n), t, v)])"
    using ascending_number_ops [OF es(2), of "Suc n" "concat [[x]]"] es(1) n unfolding num one
    by (auto simp: db_at_def mem_at_def)
  have "plain_entries (es @ [(k, word_of_nat (Suc n), t, v)])" using es(3) x(2) by (auto simp: plain_entries_def)
  from db_holdsI [OF db'(2) asc this] have
    "db_holds c elems active held sound db' (kv(k := entry_value t v)) (Suc n)"
    by (simp add: db_view_snoc view_step_def es(4) entry_value_def)
  then show ?thesis using db'(1) by (simp add: DB_Write_def FinalStatus_def Writer_of_def)
qed

lemma DB_Put_holds:
  assumes "db_holds c elems active held sound db kv n" "length k + length v < 2 ^ 31" "Suc n < 2 ^ 56"
  shows "\<exists>db'. DB_Put env db k v = (Status_OK, db') \<and> db_holds c elems active held sound db' (kv(k \<mapsto> v)) (Suc n)"
proof -
  obtain b where b: "WB_Put (WriteBatch_new 0) 0 k v = (Status_OK, b)" "writer_ops (Writer_of b) [OpPut 0 k v]"
    using put_batch [OF assms(2)] by blast
  have "sizes_ok k v" using assms(2) by (simp add: sizes_ok_def)
  then show ?thesis
    using single_write [OF assms(1) b(2) _ _ _ assms(3), of kTypeValue k v] b(1)
    by (simp add: DB_Put_def plain_type_def entry_value_def)
qed

lemma DB_Delete_holds:
  assumes "db_holds c elems active held sound db kv n" "length k < 2 ^ 31" "Suc n < 2 ^ 56"
  shows "\<exists>db'. DB_Delete env db k = (Status_OK, db') \<and> db_holds c elems active held sound db' (kv(k := None)) (Suc n)"
proof -
  have "sizes_ok k []" using assms(2) by (simp add: sizes_ok_def)
  then show ?thesis
    using single_write [OF assms(1) delete_batch [OF assms(2)] _ _ _ assms(3), of kTypeDeletion k "[]"]
    by (simp add: DB_Delete_def plain_type_def entry_value_def value_type_defs)
qed

lemma db_room_get:
  assumes "db_holds c elems active held sound db kv m" "db_holds c elems active held sound db' (kv(k := x)) (Suc m)"
    "m + Suc n < 2 ^ 56" "length k < 2 ^ 31"
  shows "db_room c elems active held sound n db' \<and> db_get env db' = (db_get env db)(k := x)"
proof
  show "db_room c elems active held sound n db'" using assms(2,3) unfolding db_room_def by (intro exI conjI) auto
  have m: "m < 2 ^ 56" "Suc m < 2 ^ 56" using assms(3) by simp_all
  show "db_get env db' = (db_get env db)(k := x)"
    using assms(4) by (auto simp: fun_eq_iff db_get_view [OF assms(1) m(1)] db_get_view [OF assms(2) m(2)])
qed

text \<open>The database keeps the contract that the cluster relies on.\<close>

lemma kv_store_db: "kv_store (db_ops env report) (db_get env) (db_room c elems active held sound)"
proof
  fix n d and k v :: slice
  assume "db_room c elems active held sound (Suc n) d" and len: "length k + length v < 2 ^ 31"
  then obtain kv m where d: "db_holds c elems active held sound d kv m" "m + Suc n < 2 ^ 56" by (auto simp: db_room_def)
  then obtain d' where d': "DB_Put env d k v = (Status_OK, d')" "db_holds c elems active held sound d' (kv(k \<mapsto> v)) (Suc m)"
    using DB_Put_holds [OF d(1) len] by auto
  then show "\<exists>d'. db_Put (db_ops env report) d k v = (Status_OK, d') \<and> db_room c elems active held sound n d' \<and>
      db_get env d' = (db_get env d)(k \<mapsto> v)"
    using db_room_get [OF d(1) d'(2) d(2)] len by (simp add: db_ops_def)
next
  fix n d and k :: slice
  assume "db_room c elems active held sound (Suc n) d" and len: "length k < 2 ^ 31"
  then obtain kv m where d: "db_holds c elems active held sound d kv m" "m + Suc n < 2 ^ 56" by (auto simp: db_room_def)
  then obtain d' where d': "DB_Delete env d k = (Status_OK, d')" "db_holds c elems active held sound d' (kv(k := None)) (Suc m)"
    using DB_Delete_holds [OF d(1) len] by auto
  then show "\<exists>d'. db_Delete (db_ops env report) d k = (Status_OK, d') \<and> db_room c elems active held sound n d' \<and>
      db_get env d' = (db_get env d)(k := None)"
    using db_room_get [OF d(1) d'(2) d(2) len] by (simp add: db_ops_def)
next
  fix n d
  assume "db_room c elems active held sound (Suc n) d"
  then show "db_room c elems active held sound n d" unfolding db_room_def by (elim exE conjE) (intro exI conjI, assumption, simp)
qed

end

section \<open>Reads after write groups\<close>

text \<open>The store as its specification has it: what one operation of a batch does to the keys and values.\<close>

fun kv_step :: "wb_op \<Rightarrow> (slice \<Rightarrow> slice option) \<Rightarrow> slice \<Rightarrow> slice option" where
  "kv_step (OpPut cf k v) m = m(k \<mapsto> v)"
| "kv_step (OpDelete cf k) m = m(k := None)"
| "kv_step (OpSingleDelete cf k) m = m(k := None)"
| "kv_step _ m = m"

definition kv_op :: "wb_op \<Rightarrow> bool" where
  "kv_op x \<longleftrightarrow> (case op_entry x of None \<Rightarrow> True | Some (t, k, v) \<Rightarrow> plain_type t)"

definition new_database :: "('r \<Rightarrow> bytes multiset) \<Rightarrow> ('r \<Rightarrow> bool) \<Rightarrow> ('d \<Rightarrow> bytes) \<Rightarrow> ('d \<Rightarrow> bool) \<Rightarrow>
    ('r, 'd) DBImpl \<Rightarrow> bool" where
  "new_database elems active held sound db \<longleftrightarrow>
    (\<exists>r r' l d lg rc manual. db = DB_new (MemTable_new r r' l) (Writer_new d lg rc manual) \<and>
      active r \<and> elems r = {#} \<and> sound d \<and> held d = [])"

lemma kv_op_step:
  "kv_op x \<Longrightarrow> kv_step x m = (case op_entry x of None \<Rightarrow> m | Some (t, k, v) \<Rightarrow> view_step (k, s, t, v) m)"
  by (cases x) (simp_all add: kv_op_def view_step_def plain_type_def value_type_defs)

lemma number_ops_view:
  assumes "\<forall>x \<in> set xs. kv_op x"
  shows "fold view_step (number_ops n xs) m = fold kv_step xs m"
  using assms
proof (induction xs arbitrary: n m)
  case (Cons x xs)
  then show ?case by (simp add: kv_op_step [of x m "word_of_nat n"] split: option.split prod.split)
qed simp

lemma new_database_at:
  "new_database elems active held sound db \<Longrightarrow> db_at c elems active held sound db [] 0"
  unfolding new_database_def by (elim exE conjE) (simp only: DB_new_at)

lemma new_database_holds:
  "new_database elems active held sound db \<Longrightarrow> db_holds c elems active held sound db (\<lambda>_. None) 0"
  using db_holdsI [OF new_database_at, of elems active held sound db c]
  by (simp add: ascending_def plain_entries_def db_view_def)

text \<open>
  C2: A database reads what was written. A new database executes any sequence of write groups, each with
  any number of writers and batches, whose operations are puts, deletes and single deletes beside markers and log
  data. Then \<^verbatim>\<open>Get\<close> returns, for every key, the value of the last put of that key, and nothing where a delete came
  after it or no put came at all: the operations took effect one by one in the order of the groups, of the writers
  in a group and of the operations in a batch.
\<close>

theorem reads_after_writes:
  assumes db: "database env c elems active good held sound" and new: "new_database elems active held sound db0"
    and wss: "groups_ok wss opss" "num_entries (all_ops opss) < 2 ^ 56" "plain_options wo" "\<forall>x \<in> set (all_ops opss). kv_op x"
    and u: "length u + 8 < 2 ^ 32"
  shows "DB_Get env (write_groups env wo wss db0) u = fold kv_step (all_ops opss) (\<lambda>_. None) u"
proof -
  note at0 = new_database_at [OF new, of c]
  let ?es = "number_ops 1 (all_ops opss)"
  have at: "db_at c elems active held sound (write_groups env wo wss db0) ?es (num_entries (all_ops opss))"
    using database.write_groups_ok [OF db wss(1) at0 wss(3)] wss(2) by simp
  have asc: "ascending ?es"
    using ascending_number_ops [of "[]" 1 "all_ops opss"] wss(2) by (simp add: ascending_def)
  have plain: "plain_entries ?es" using wss(4) by (intro number_ops_plain) (simp add: kv_op_def)
  show ?thesis
    using database.DB_Get_view [OF db at asc plain u wss(2)] number_ops_view [OF wss(4)] by (simp add: db_view_def)
qed

section \<open>The database on the vector memtable and the in-memory file\<close>

definition mock_env :: "(VectorRep, MockWritableFile WritableFileWriter) db_env" where
  "mock_env = \<lparr>de_rep = VectorRep_ops BytewiseComparator, de_append = WFW_Append MockWritableFile_ops,
    de_flush = WFW_Flush MockWritableFile_ops, de_sync = \<lambda>w. WFW_Sync MockWritableFile_ops w False,
    de_get = demo_context, de_covering = \<lambda>_ _ _. 0\<rparr>"

interpretation mockdb: database mock_env BytewiseComparator "\<lambda>r. mset (vr_bucket r)" vector_active
    "vector_inv BytewiseComparator" "wfw_held (\<lambda>f. mf_data (wf_derived f))" wfw_sound
proof (intro database.intro database_axioms.intro)
  show "memtable_rep BytewiseComparator (de_rep mock_env) (\<lambda>r. mset (vr_bucket r)) vector_active (vector_inv BytewiseComparator)"
    using bytewise_vector.memtable_rep_axioms by (simp add: mock_env_def)
  show "sink (de_append mock_env) (de_flush mock_env) (wfw_held (\<lambda>f. mf_data (wf_derived f))) wfw_sound"
    using mock_writable.wfw.sink_axioms by (simp add: mock_env_def)
  show "cmp_Compare BytewiseComparator a b = 0 \<longleftrightarrow> a = b" for a b
    by (simp add: BytewiseComparator_def slice_compare_eq)
qed (simp_all add: mock_env_def demo_context_def)

interpretation mockkv: kv_store "db_ops mock_env report" "db_get mock_env"
    "db_room BytewiseComparator (\<lambda>r. mset (vr_bucket r)) vector_active (wfw_held (\<lambda>f. mf_data (wf_derived f))) wfw_sound"
  for report
  by (rule mockdb.kv_store_db)

text \<open>A new database on them, and a write group with two writers.\<close>

definition mock_db :: "(VectorRep, MockWritableFile WritableFileWriter) DBImpl" where
  "mock_db = DB_new (MemTable_new VectorRep_new VectorRep_new 0)
    (Writer_new (WritableFileWriter_new MockWritableFile_ops empty_mock_file 1024 0) 7 False False)"

definition put_writer :: "slice \<Rightarrow> slice \<Rightarrow> writer" where
  "put_writer k v = Writer_of (snd (WB_Put (WriteBatch_new 0) 0 k v))"

definition delete_writer :: "slice \<Rightarrow> writer" where
  "delete_writer k = Writer_of (snd (WB_Delete (WriteBatch_new 0) 0 k))"

lemma put_writer_ops: "length k + length v < 2 ^ 31 \<Longrightarrow> writer_ops (put_writer k v) [OpPut 0 k v]"
  using put_batch [of k v] by (auto simp: put_writer_def)

lemma delete_writer_ops: "length k < 2 ^ 31 \<Longrightarrow> writer_ops (delete_writer k) [OpDelete 0 k]"
  using delete_batch [of k] by (simp add: delete_writer_def)

lemma new_mock_log:
  "wfw_sound (WritableFileWriter_new MockWritableFile_ops empty_mock_file 1024 0)"
  "wfw_held (\<lambda>f. mf_data (wf_derived f)) (WritableFileWriter_new MockWritableFile_ops empty_mock_file 1024 0) = []"
proof -
  have al: "0 < wf_alignment MockWritableFile_ops" by (simp add: MockWritableFile_ops_def)
  note new = WritableFileWriter_new_props [OF al, of empty_mock_file 1024 0]
  show "wfw_sound (WritableFileWriter_new MockWritableFile_ops empty_mock_file 1024 0)" using new by simp
  show "wfw_held (\<lambda>f. mf_data (wf_derived f)) (WritableFileWriter_new MockWritableFile_ops empty_mock_file 1024 0) = []"
    using new(2,3) unfolding wfw_held_def by (simp only: empty_mock_file_def) simp
qed

lemma new_mock_db: "new_database (\<lambda>r. mset (vr_bucket r)) vector_active (wfw_held (\<lambda>f. mf_data (wf_derived f))) wfw_sound mock_db"
  unfolding new_database_def mock_db_def by (intro exI conjI, rule refl) (simp_all add: vector_active_def VectorRep_new_def new_mock_log)

lemma mock_groups_ok:
  "groups_ok [[put_writer [1] [2], put_writer [3] [4]], [delete_writer [1]]] [[[OpPut 0 [1] [2]], [OpPut 0 [3] [4]]], [[OpDelete 0 [1]]]]"
  by (simp add: groups_ok_def group_sizes_def op_sizes_def sizes_ok_def put_writer_ops delete_writer_ops num_entries_def
      value_type_defs)

theorem reads_after_writes_witness:
  "DB_Get mock_env (write_groups mock_env WriteOptions_default
      [[put_writer [1] [2], put_writer [3] [4]], [delete_writer [1]]] mock_db) [3] = Some [4]"
proof -
  have wo: "plain_options WriteOptions_default" by (simp add: plain_options_def WriteOptions_default_def)
  show ?thesis
    using reads_after_writes [OF mockdb.database_axioms new_mock_db mock_groups_ok _ wo, of "[3]"]
    by (simp add: all_ops_def num_entries_def kv_op_def plain_type_def value_type_defs)
qed

definition mock_recovery :: recover_conf where
  "mock_recovery = \<lparr>rc_mode = kPointInTimeRecovery, rc_paranoid_checks = True, rc_allow_2pc = False, rc_cf_log_number = 0,
    rc_min_log_number_to_keep_2pc = 0\<rparr>"


text \<open>Of the log of the two groups, all but the last byte is in the file.\<close>

theorem wal_recovery_witness:
  "\<exists>j rp. j \<le> 2 \<and>
    RecoverLogFiles MockSequentialFile_Read
      (\<lambda>_. Inr (mock_seq_file (take 50 (wfw_held (\<lambda>f. mf_data (wf_derived f)) (dest (db_log (write_groups mock_env WriteOptions_default
        [[put_writer [1] [2], put_writer [3] [4]], [delete_writer [1]]] mock_db))))))) (de_rep mock_env) mock_recovery [7]
      (replay_start 0 (MemTable_new VectorRep_new VectorRep_new 0)) = Some (Status_OK, rp) \<and>
    rp_mem rp = db_mem (write_groups mock_env WriteOptions_default
      (take j [[put_writer [1] [2], put_writer [3] [4]], [delete_writer [1]]]) mock_db)"
proof -
  have wo: "plain_options WriteOptions_default" by (simp add: plain_options_def WriteOptions_default_def)
  have v: "vector_active VectorRep_new" "mset (vr_bucket VectorRep_new) = {#}" by (simp_all add: vector_active_def VectorRep_new_def)
  have n: "num_entries (all_ops [[[OpPut 0 [1] [2]], [OpPut 0 [3] [4]]], [[OpDelete 0 [1]]]]) + 2 < 2 ^ 56"
    by (simp add: all_ops_def num_entries_def)
  have conf: "rc_mode mock_recovery \<noteq> kAbsoluteConsistency" "rc_cf_log_number mock_recovery \<le> 7"
    "rc_min_log_number_to_keep_2pc mock_recovery \<le> 7" "False \<longrightarrow> unat (7 :: u64) < 2 ^ 32"
    by (simp_all add: mock_recovery_def)
  show ?thesis
    using wal_recovery [OF mockdb.database_axioms v new_mock_log mock_groups_ok n wo conf mock_db_def refl, of 50]
    by (auto simp: numeral_2_eq_2)
qed

section \<open>The cluster on its databases\<close>

text \<open>
  C5: Three instances with new databases, the coordinator and one repartition, in any interleaving of puts (a
  look-up, then the delivery) with the installation of the new assignment and its deletes. In every reachable
  state the keys that some instance holds and the routing does not lead to are keys whose delete is still to be
  done, and at most one more. And no state is stuck before the put in progress and the deletes are done.
\<close>

theorem cluster_at_most_one_stray:
  assumes db: "database env c elems active good held sound"
    and dbs: "length dbs = 3" "\<forall>d \<in> set dbs. new_database elems active held sound d"
    and n: "n < 2 ^ 56" and run: "(coord_step (db_ops env report) ^^ n) (coord_init dbs 1) s"
  shows "(\<exists>x. {key. stray (db_get env) (cl s) key} \<subseteq> insert x (fst ` set (todo s))) \<and>
    (pending s = None \<and> todo s = [] \<or> (\<exists>s'. coord_step (db_ops env report) s s'))"
proof -
  have "db_room c elems active held sound n d \<and> (\<forall>key. db_get env d (key_slice key) = None)" if "d \<in> set dbs" for d
  proof -
    have h: "db_holds c elems active held sound d (\<lambda>_. None) 0" using dbs(2) that new_database_holds by blast
    then have "db_room c elems active held sound n d" using n unfolding db_room_def by (intro exI conjI) auto
    then show ?thesis using database.db_get_view [OF db h] by simp
  qed
  then have "\<forall>d\<in>set dbs. db_room c elems active held sound n d \<and> (\<forall>key. db_get env d (key_slice key) = None)" by blast
  from kv_store.at_most_one_stray_key [OF database.kv_store_db [OF db] dbs(1) this run] show ?thesis
    by (auto simp: subset_iff)
qed

theorem cluster_at_most_one_stray_witness:
  "\<exists>s. (coord_step (db_ops mock_env (\<lambda>_ _. None)) ^^ 2) (coord_init [mock_db, mock_db, mock_db] 1) s \<and>
    (\<exists>x. {key. stray (db_get mock_env) (cl s) key} \<subseteq> insert x (fst ` set (todo s)))"
proof -
  let ?ops = "db_ops mock_env (\<lambda>_ _. None)" and ?s0 = "coord_init [mock_db, mock_db, mock_db] 1"
  let ?s1 = "?s0\<lparr>pending := Some (5, 2)\<rparr>"
  have 1: "coord_step ?ops ?s0 ?s1" 
    by (rule step_lookup) (simp_all add: coord_init_def Coordinator_new_def lookup_def)
  obtain c' where "call (cl ?s1) 2 (instance_put ?ops 5) = Some c'"
    by (simp add: call_def coord_init_def Coordinator_new_def)
  then have 2: "coord_step ?ops ?s1 (?s1\<lparr>cl := c', pending := None\<rparr>)" by (intro step_deliver) simp_all
  have run: "(coord_step ?ops ^^ 2) ?s0 (?s1\<lparr>cl := c', pending := None\<rparr>)"
    using 1 2 by (auto simp: numeral_2_eq_2)
  have dbs: "\<forall>d \<in> set [mock_db, mock_db, mock_db]. new_database (\<lambda>r. mset (vr_bucket r)) vector_active
      (wfw_held (\<lambda>f. mf_data (wf_derived f))) wfw_sound d"
    using new_mock_db by simp
  have "\<exists>x. {key. stray (db_get mock_env) (cl (?s1\<lparr>cl := c', pending := None\<rparr>)) key} \<subseteq>
      insert x (fst ` set (todo (?s1\<lparr>cl := c', pending := None\<rparr>)))"
    using cluster_at_most_one_stray [OF mockdb.database_axioms _ dbs _ run] by simp
  with run show ?thesis by blast
qed

text \<open>
  C29: The one stray key does occur. For every key and every other instance that a repartition may assign it
  to, a put whose look-up comes before the repartition and whose delivery comes after the deletes ends with the
  key on an instance to which the routing does not lead, with nothing left to be done.
\<close>

theorem overlapping_put_strays:
  assumes "database env c elems active good held sound" "length dbs = 3"
    "\<forall>d \<in> set dbs. new_database elems active held sound d" "i \<in> {0, 1, 2}" "i \<noteq> int (unat key mod 3)"
  shows "\<exists>s. (coord_step (db_ops env report))\<^sup>*\<^sup>* (coord_init dbs 1) s \<and> pending s = None \<and> todo s = [] \<and>
    stray (db_get env) (cl s) key"
proof -
  have "db_room c elems active held sound 2 d" if "d \<in> set dbs" for d
    using assms(3) that new_database_holds unfolding db_room_def by (intro exI conjI) (blast, simp)
  then show ?thesis using kv_store.overlapping_put_stray [OF database.kv_store_db [OF assms(1)] assms(2) _ assms(4,5)] by blast
qed

theorem overlapping_put_strays_witness:
  "\<exists>s. (coord_step (db_ops mock_env (\<lambda>_ _. None)))\<^sup>*\<^sup>* (coord_init [mock_db, mock_db, mock_db] 1) s \<and>
    pending s = None \<and> todo s = [] \<and> stray (db_get mock_env) (cl s) 5"
  by (rule overlapping_put_strays [OF mockdb.database_axioms, where i = 0]) (simp_all add: new_mock_db)

end
