(* ===== verification/MockEnv.thy ===== *)
theory MockEnv
  imports LogReader Filename "HOL-Library.Char_ord" "HOL-Library.List_Lexorder" "HOL-Library.Multiset"
begin

text \<open>
  The in-memory environment of \<^verbatim>\<open>env/mock_env.cc\<close>: a map from paths to file objects with reference counts, on an
  explicit heap, so that links, renames and open handles share the object. The invariant says that counts are exact:
  no name and no handle refers to a freed object, and no object is kept that nothing refers to.
\<close>

section \<open>Objects\<close>

record mem_object =
  mo_file :: MemFile
  mo_fn :: string
  mo_refs :: int
  mo_is_lock_file :: bool
  mo_locked :: bool
  mo_modified_time :: u64

text \<open>
  Addresses are numbers, 0 is the null pointer. \<^verbatim>\<open>file_map\<close> is the \<^verbatim>\<open>std::map\<close> in the order of its keys; \<open>base_time\<close> is
  what the wrapped environment's clock shows.
\<close>

record mock_env_state =
  file_map :: "(string \<times> nat) list"
  mem_objects :: "nat \<Rightarrow> mem_object option"
  next_object :: nat
  fake_sleep_micros :: int
  base_time :: int

definition MockEnv_new :: "int \<Rightarrow> mock_env_state" where
  "MockEnv_new t = \<lparr>file_map = [], mem_objects = (\<lambda>_. None), next_object = 1, fake_sleep_micros = 0, base_time = t\<rparr>"

text \<open>\<^verbatim>\<open>std::map\<close>: look-up, assignment through \<^verbatim>\<open>operator[]\<close>, which creates a null pointer for a new key, and erasure.\<close>

fun fm_put :: "string \<Rightarrow> nat \<Rightarrow> (string \<times> nat) list \<Rightarrow> (string \<times> nat) list" where
  "fm_put k a [] = [(k, a)]"
| "fm_put k a ((l, b) # m) =
    (if k < l then (k, a) # (l, b) # m else if k = l then (k, a) # m else (l, b) # fm_put k a m)"

definition fm_at :: "string \<Rightarrow> (string \<times> nat) list \<Rightarrow> nat" where
  "fm_at k m = (case map_of m k of None \<Rightarrow> 0 | Some a \<Rightarrow> a)"

definition fm_erase :: "string \<Rightarrow> (string \<times> nat) list \<Rightarrow> (string \<times> nat) list" where
  "fm_erase k m = filter (\<lambda>e. fst e \<noteq> k) m"

definition GetCurrentTime :: "mock_env_state \<Rightarrow> status \<times> int" where
  "GetCurrentTime e =
    (Status_OK, base_time e + (if fake_sleep_micros e < 0 then - (- fake_sleep_micros e div 1000000)
                               else fake_sleep_micros e div 1000000))"

definition FakeSleepForMicroseconds :: "mock_env_state \<Rightarrow> int \<Rightarrow> mock_env_state" where
  "FakeSleepForMicroseconds e micros = e\<lparr>fake_sleep_micros := fake_sleep_micros e + micros\<rparr>"

definition MemFile_Now :: "mock_env_state \<Rightarrow> u64" where
  "MemFile_Now e = word_of_int (snd (GetCurrentTime e))"

text \<open>\<^verbatim>\<open>new MemFile\<close>: the address and the environment with the object.\<close>

definition MemFile_new :: "mock_env_state \<Rightarrow> string \<Rightarrow> bool \<Rightarrow> nat \<times> mock_env_state" where
  "MemFile_new e fn is_lock =
    (next_object e,
     e\<lparr>mem_objects := (mem_objects e)(next_object e \<mapsto>
         \<lparr>mo_file = \<lparr>mf_data = [], mf_fsynced_bytes = 0\<rparr>, mo_fn = fn, mo_refs = 0, mo_is_lock_file = is_lock,
          mo_locked = False, mo_modified_time = MemFile_Now e\<rparr>),
       next_object := Suc (next_object e)\<rparr>)"

definition update_object :: "nat \<Rightarrow> (mem_object \<Rightarrow> mem_object) \<Rightarrow> mock_env_state \<Rightarrow> mock_env_state" where
  "update_object a f e = e\<lparr>mem_objects := (mem_objects e)(a := map_option f (mem_objects e a))\<rparr>"

definition MemFile_Ref :: "nat \<Rightarrow> mock_env_state \<Rightarrow> mock_env_state" where
  "MemFile_Ref a e = update_object a (\<lambda>ob. ob\<lparr>mo_refs := mo_refs ob + 1\<rparr>) e"

definition MemFile_Unref :: "nat \<Rightarrow> mock_env_state \<Rightarrow> mock_env_state" where
  "MemFile_Unref a e =
    (case mem_objects e a of
       None \<Rightarrow> e
     | Some ob \<Rightarrow>
         if mo_refs ob - 1 \<le> 0 then e\<lparr>mem_objects := (mem_objects e)(a := None)\<rparr>
         else update_object a (\<lambda>ob. ob\<lparr>mo_refs := mo_refs ob - 1\<rparr>) e)"

definition MemFile_Lock :: "nat \<Rightarrow> mock_env_state \<Rightarrow> bool \<times> mock_env_state" where
  "MemFile_Lock a e =
    (case mem_objects e a of
       None \<Rightarrow> (False, e)
     | Some ob \<Rightarrow> if mo_locked ob then (False, e) else (True, update_object a (\<lambda>ob. ob\<lparr>mo_locked := True\<rparr>) e))"

definition MemFile_Unlock :: "nat \<Rightarrow> mock_env_state \<Rightarrow> mock_env_state" where
  "MemFile_Unlock a e = update_object a (\<lambda>ob. ob\<lparr>mo_locked := False\<rparr>) e"

text \<open>The files that handles read and write: the object's contents, and its modification time.\<close>

definition object_Append :: "nat \<Rightarrow> slice \<Rightarrow> mock_env_state \<Rightarrow> status \<times> mock_env_state" where
  "object_Append a data e =
    (Status_OK, update_object a (\<lambda>ob. ob\<lparr>mo_file := snd (MemFile_Append (mo_file ob) data), mo_modified_time := MemFile_Now e\<rparr>) e)"

definition object_Write :: "nat \<Rightarrow> nat \<Rightarrow> slice \<Rightarrow> mock_env_state \<Rightarrow> status \<times> mock_env_state" where
  "object_Write a offset data e =
    (Status_OK, update_object a (\<lambda>ob. ob\<lparr>mo_file := snd (MemFile_Write (mo_file ob) offset data), mo_modified_time := MemFile_Now e\<rparr>) e)"

definition object_Truncate :: "nat \<Rightarrow> nat \<Rightarrow> mock_env_state \<Rightarrow> mock_env_state" where
  "object_Truncate a n e = update_object a (\<lambda>ob. ob\<lparr>mo_file := MemFile_Truncate (mo_file ob) n\<rparr>) e"

definition object_Fsync :: "nat \<Rightarrow> mock_env_state \<Rightarrow> status \<times> mock_env_state" where
  "object_Fsync a e = (Status_OK, update_object a (\<lambda>ob. ob\<lparr>mo_file := snd (MemFile_Fsync (mo_file ob))\<rparr>) e)"

section \<open>Paths\<close>

definition NormalizePath :: "string \<Rightarrow> string" where
  "NormalizePath path =
    foldl (\<lambda>dst c. if dst \<noteq> [] \<and> c = CHR ''/'' \<and> last dst = CHR ''/'' then dst else dst @ [c]) [] path"

text \<open>Whether a path lies below a directory.\<close>

definition below :: "string \<Rightarrow> string \<Rightarrow> bool" where
  "below d filename \<longleftrightarrow>
    length filename \<ge> length d + 1 \<and> filename ! length d = CHR ''/'' \<and> starts_with filename d"

definition msg2 :: "string \<Rightarrow> string \<Rightarrow> string" where
  "msg2 m m' = (if m' = [] then m else m @ '': '' @ m')"

abbreviation file_not_found :: "string \<Rightarrow> status" where
  "file_not_found fn \<equiv> IOError (msg2 fn ''File not found'')"

section \<open>The environment\<close>

text \<open>Opening a file gives the address of the object, which the handle keeps with a reference.\<close>

definition open_existing :: "mock_env_state \<Rightarrow> string \<Rightarrow> (status + nat) \<times> mock_env_state" where
  "open_existing e fname =
    (let fn = NormalizePath fname
     in case map_of (file_map e) fn of
          None \<Rightarrow> (Inl (file_not_found fn), e)
        | Some a \<Rightarrow>
            (case mem_objects e a of
               None \<Rightarrow> (Inl (file_not_found fn), e)
             | Some ob \<Rightarrow>
                 if mo_is_lock_file ob then (Inl (InvalidArgument (msg2 fn ''Cannot open a lock file.'')), e)
                 else (Inr a, MemFile_Ref a e)))"

definition NewSequentialFile :: "mock_env_state \<Rightarrow> string \<Rightarrow> (status + nat) \<times> mock_env_state" where
  "NewSequentialFile e fname = open_existing e fname"

definition NewRandomAccessFile :: "mock_env_state \<Rightarrow> string \<Rightarrow> (status + nat) \<times> mock_env_state" where
  "NewRandomAccessFile e fname = open_existing e fname"

definition NewRandomRWFile :: "mock_env_state \<Rightarrow> string \<Rightarrow> (status + nat) \<times> mock_env_state" where
  "NewRandomRWFile e fname = open_existing e fname"

text \<open>The destructor of a handle.\<close>

definition close_handle :: "nat \<Rightarrow> mock_env_state \<Rightarrow> mock_env_state" where
  "close_handle a e = MemFile_Unref a e"

definition DeleteFileInternal :: "string \<Rightarrow> mock_env_state \<Rightarrow> mock_env_state" where
  "DeleteFileInternal fname e =
    (case map_of (file_map e) fname of
       None \<Rightarrow> e
     | Some a \<Rightarrow> let e = MemFile_Unref a e in e\<lparr>file_map := fm_erase fname (file_map e)\<rparr>)"

definition put_new :: "string \<Rightarrow> bool \<Rightarrow> mock_env_state \<Rightarrow> nat \<times> mock_env_state" where
  "put_new fn is_lock e =
    (let (a, e) = MemFile_new e fn is_lock; e = MemFile_Ref a e
     in (a, e\<lparr>file_map := fm_put fn a (file_map e)\<rparr>))"

definition NewWritableFile :: "mock_env_state \<Rightarrow> string \<Rightarrow> (status + nat) \<times> mock_env_state" where
  "NewWritableFile e fname =
    (let fn = NormalizePath fname;
         e = (if map_of (file_map e) fn \<noteq> None then DeleteFileInternal fn e else e);
         (a, e) = put_new fn False e
     in (Inr a, MemFile_Ref a e))"

definition RenameFile :: "mock_env_state \<Rightarrow> string \<Rightarrow> string \<Rightarrow> status \<times> mock_env_state" where
  "RenameFile e src target =
    (let s = NormalizePath src; t = NormalizePath target
     in if map_of (file_map e) s = None then (file_not_found s, e)
        else
          let e = DeleteFileInternal t e;
              e = e\<lparr>file_map := fm_put t (fm_at s (file_map e)) (file_map e)\<rparr>
          in (Status_OK, e\<lparr>file_map := fm_erase s (file_map e)\<rparr>))"

definition ReuseWritableFile :: "mock_env_state \<Rightarrow> string \<Rightarrow> string \<Rightarrow> (status + nat) \<times> mock_env_state" where
  "ReuseWritableFile e fname old_fname =
    (let (s, e) = RenameFile e old_fname fname
     in if \<not> ok s then (Inl s, e) else NewWritableFile e fname)"

text \<open>\<open>None\<close> when the null pointer is dereferenced.\<close>

definition LinkFile :: "mock_env_state \<Rightarrow> string \<Rightarrow> string \<Rightarrow> (status \<times> mock_env_state) option" where
  "LinkFile e src target =
    (let s = NormalizePath src; t = NormalizePath target
     in if map_of (file_map e) s = None then Some (file_not_found s, e)
        else
          let e = DeleteFileInternal t e; a = fm_at s (file_map e)
          in if a = 0 then None
             else Some (Status_OK, MemFile_Ref a (e\<lparr>file_map := fm_put t a (file_map e)\<rparr>)))"

definition FileExists :: "mock_env_state \<Rightarrow> string \<Rightarrow> status" where
  "FileExists e fname =
    (let fn = NormalizePath fname
     in if map_of (file_map e) fn \<noteq> None then Status_OK
        else if \<exists>x \<in> set (file_map e). below fn (fst x) then Status_OK
        else NotFound [])"

definition child_name :: "string \<Rightarrow> string \<Rightarrow> string" where
  "child_name d filename = takeWhile (\<lambda>c. c \<noteq> CHR ''/'') (drop (length d + 1) filename)"

fun children_loop :: "string \<Rightarrow> (string \<times> nat) list \<Rightarrow> bool \<times> string list" where
  "children_loop d [] = (False, [])"
| "children_loop d ((filename, a) # m) =
    (let (found, rs) = children_loop d m
     in if filename = d then (True, rs)
        else if below d filename then (True, child_name d filename # rs)
        else (found, rs))"

definition GetChildren :: "mock_env_state \<Rightarrow> string \<Rightarrow> status \<times> string list" where
  "GetChildren e dir =
    (let (found_dir, result) = children_loop (NormalizePath dir) (file_map e)
     in (if found_dir then Status_OK else NotFound [], remdups_adj result))"

definition DeleteFile :: "mock_env_state \<Rightarrow> string \<Rightarrow> status \<times> mock_env_state" where
  "DeleteFile e fname =
    (let fn = NormalizePath fname
     in if map_of (file_map e) fn = None then (file_not_found fn, e)
        else (Status_OK, DeleteFileInternal fn e))"

definition Truncate :: "mock_env_state \<Rightarrow> string \<Rightarrow> nat \<Rightarrow> status \<times> mock_env_state" where
  "Truncate e fname n =
    (let fn = NormalizePath fname
     in case map_of (file_map e) fn of
          None \<Rightarrow> (file_not_found fn, e)
        | Some a \<Rightarrow> (Status_OK, object_Truncate a n e))"

definition CreateDir :: "mock_env_state \<Rightarrow> string \<Rightarrow> status \<times> mock_env_state" where
  "CreateDir e dirname =
    (let dn = NormalizePath dirname
     in if map_of (file_map e) dn = None then (Status_OK, snd (put_new dn False e)) else (IOError [], e))"

definition CreateDirIfMissing :: "mock_env_state \<Rightarrow> string \<Rightarrow> status \<times> mock_env_state" where
  "CreateDirIfMissing e dirname = (Status_OK, snd (CreateDir e dirname))"

definition DeleteDir :: "mock_env_state \<Rightarrow> string \<Rightarrow> status \<times> mock_env_state" where
  "DeleteDir e dirname = DeleteFile e dirname"

text \<open>The size and the modification time: \<open>Inl\<close> when there is no such file.\<close>

definition GetFileSize :: "mock_env_state \<Rightarrow> string \<Rightarrow> status + u64" where
  "GetFileSize e fname =
    (let fn = NormalizePath fname
     in case Option.bind (map_of (file_map e) fn) (mem_objects e) of
          None \<Rightarrow> Inl (file_not_found fn)
        | Some ob \<Rightarrow> Inr (word_of_nat (MemFile_Size (mo_file ob))))"

definition GetFileModificationTime :: "mock_env_state \<Rightarrow> string \<Rightarrow> status + u64" where
  "GetFileModificationTime e fname =
    (let fn = NormalizePath fname
     in case Option.bind (map_of (file_map e) fn) (mem_objects e) of
          None \<Rightarrow> Inl (file_not_found fn)
        | Some ob \<Rightarrow> Inr (mo_modified_time ob))"

text \<open>The logger writes through a handle on the file with its name, which is made if it does not exist.\<close>

definition NewLogger :: "mock_env_state \<Rightarrow> string \<Rightarrow> nat \<times> mock_env_state" where
  "NewLogger e fname =
    (let fn = NormalizePath fname;
         (a, e) = (case map_of (file_map e) fn of None \<Rightarrow> put_new fn False e | Some a \<Rightarrow> (a, e))
     in (a, MemFile_Ref a e))"

definition LockFile :: "mock_env_state \<Rightarrow> string \<Rightarrow> (status + string) \<times> mock_env_state" where
  "LockFile e fname =
    (let fn = NormalizePath fname
     in case Option.bind (map_of (file_map e) fn) (\<lambda>a. map_option (Pair a) (mem_objects e a)) of
          Some (a, ob) \<Rightarrow>
            if \<not> mo_is_lock_file ob then (Inl (InvalidArgument (msg2 fname ''Not a lock file.'')), e)
            else
              (case MemFile_Lock a e of (locked, e) \<Rightarrow>
               if \<not> locked then (Inl (IOError (msg2 fn ''Lock is already held.'')), e) else (Inr fn, e))
        | None \<Rightarrow> (case put_new fn True e of (a, e) \<Rightarrow> (Inr fn, snd (MemFile_Lock a e))))"

definition UnlockFile :: "mock_env_state \<Rightarrow> string \<Rightarrow> status \<times> mock_env_state" where
  "UnlockFile e fn =
    (case Option.bind (map_of (file_map e) fn) (\<lambda>a. map_option (Pair a) (mem_objects e a)) of
       Some (a, ob) \<Rightarrow>
         if \<not> mo_is_lock_file ob then (InvalidArgument (msg2 fn ''Not a lock file.''), e)
         else (Status_OK, MemFile_Unlock a e)
     | None \<Rightarrow> (Status_OK, e))"

section \<open>The map\<close>

abbreviation keys_sorted :: "(string \<times> nat) list \<Rightarrow> bool" where
  "keys_sorted m \<equiv> sorted_wrt (<) (map fst m)"

lemma keys_sorted_distinct: "keys_sorted m \<Longrightarrow> distinct (map fst m)"
  by (simp add: strict_sorted_iff)

lemma map_of_fm_put [simp]: "map_of (fm_put k a m) = (map_of m)(k \<mapsto> a)" if "keys_sorted m"
  using that
proof (induction m)
  case (Cons x m)
  obtain l b where x: "x = (l, b)" by (cases x)
  have "k \<notin> fst ` set m" if "k < l" using Cons.prems that x by (auto dest: less_trans)
  then show ?case using Cons x by (auto simp: fun_eq_iff)
qed (simp add: fun_eq_iff)

lemma keys_fm_put: "fst ` set (fm_put k a m) = insert k (fst ` set m)"
  by (induction k a m rule: fm_put.induct) auto

lemma keys_sorted_put: "keys_sorted m \<Longrightarrow> keys_sorted (fm_put k a m)"
proof (induction k a m rule: fm_put.induct)
  case (2 k a l b m)
  have "fst ` set (fm_put k a m) = insert k (fst ` set m)" by (rule keys_fm_put)
  then show ?case using 2 by (auto dest: less_trans)
qed simp

lemma map_of_fm_erase [simp]: "map_of (fm_erase k m) = (map_of m)(k := None)"
  by (induction m) (auto simp: fm_erase_def fun_eq_iff)

lemma keys_sorted_erase: "keys_sorted m \<Longrightarrow> keys_sorted (fm_erase k m)"
  by (induction m) (auto simp: fm_erase_def)

lemma fm_at_Some [simp]: "map_of m k = Some a \<Longrightarrow> fm_at k m = a"
  by (simp add: fm_at_def)

lemma targets_put: "map_of m k = None \<Longrightarrow> mset (map snd (fm_put k a m)) = add_mset a (mset (map snd m))"
  by (induction k a m rule: fm_put.induct) (auto split: if_splits)

lemma erase_absent: "k \<notin> fst ` set m \<Longrightarrow> fm_erase k m = m"
  by (induction m) (auto simp: fm_erase_def)

lemma targets_erase:
  "keys_sorted m \<Longrightarrow> map_of m k = Some a \<Longrightarrow> mset (map snd m) = add_mset a (mset (map snd (fm_erase k m)))"
proof (induction m)
  case (Cons x m)
  show ?case
  proof (cases "fst x = k")
    case True
    then have "k \<notin> fst ` set m" using Cons.prems(1) by auto
    then have "fm_erase k (x # m) = m" using True erase_absent [of k m] by (simp add: fm_erase_def)
    then show ?thesis using Cons.prems(2) True by (cases x) simp
  next
    case False
    then have "map_of m k = Some a" using Cons.prems(2) by (cases x) simp
    then show ?thesis using Cons False by (simp add: fm_erase_def)
  qed
qed simp

section \<open>Reference counts\<close>

text \<open>The owners of objects: a multiset of addresses, one for every name and every open handle.\<close>

fun counted :: "nat \<Rightarrow> mem_object option \<Rightarrow> bool" where
  "counted n None \<longleftrightarrow> n = 0"
| "counted n (Some ob) \<longleftrightarrow> 0 < n \<and> mo_refs ob = int n"

definition heap_ok :: "nat multiset \<Rightarrow> mock_env_state \<Rightarrow> bool" where
  "heap_ok owners e \<longleftrightarrow>
    (\<forall>a. counted (count owners a) (mem_objects e a)) \<and>
    mem_objects e 0 = None \<and> 0 < next_object e \<and> (\<forall>a \<ge> next_object e. mem_objects e a = None)"

definition env_ok :: "nat multiset \<Rightarrow> mock_env_state \<Rightarrow> bool" where
  "env_ok handles e \<longleftrightarrow>
    keys_sorted (file_map e) \<and> heap_ok (mset (map snd (file_map e)) + handles) e"

lemma heap_okD:
  assumes "heap_ok owners e"
  shows "counted (count owners a) (mem_objects e a)" "mem_objects e 0 = None" "0 < next_object e"
    "next_object e \<le> a \<Longrightarrow> mem_objects e a = None"
  using assms unfolding heap_ok_def by blast+

lemma heap_okI:
  assumes "\<And>a. counted (count owners a) (mem_objects e a)" "mem_objects e 0 = None" "0 < next_object e"
    "\<And>a. next_object e \<le> a \<Longrightarrow> mem_objects e a = None"
  shows "heap_ok owners e"
  using assms unfolding heap_ok_def by blast

lemma heap_ok_object: "heap_ok owners e \<Longrightarrow> a \<in># owners \<Longrightarrow> \<exists>ob. mem_objects e a = Some ob"
  using heap_okD(1) [of owners e a] by (cases "mem_objects e a") (auto simp: count_eq_zero_iff)

text \<open>Changing the object at one address, and how many owners it has.\<close>

lemma heap_ok_change:
  assumes "heap_ok owners e" "mem_objects e' = (mem_objects e)(a := x)" "\<And>b. b \<noteq> a \<Longrightarrow> count owners' b = count owners b"
    "counted (count owners' a) x" "a \<noteq> 0" "a < next_object e'" "next_object e \<le> next_object e'"
  shows "heap_ok owners' e'"
proof (rule heap_okI)
  show "counted (count owners' b) (mem_objects e' b)" for b using assms(2-4) heap_okD(1) [OF assms(1), of b] by auto
  show "mem_objects e' 0 = None" "0 < next_object e'" using assms heap_okD [OF assms(1)] by auto
  show "mem_objects e' b = None" if "next_object e' \<le> b" for b
    using assms(2,6,7) that heap_okD(4) [OF assms(1), of b] by auto
qed

lemma heap_ok_address:
  assumes "heap_ok owners e" "mem_objects e a = Some ob"
  shows "a \<noteq> 0" "a < next_object e" "mo_refs ob = int (count owners a)" "0 < count owners a"
proof -
  show "a \<noteq> 0" using heap_okD(2) [OF assms(1)] assms(2) by (cases "a = 0") simp_all
  show "a < next_object e" using heap_okD(4) [OF assms(1), of a] assms(2) by (cases "a < next_object e") simp_all
  show "mo_refs ob = int (count owners a)" "0 < count owners a" using heap_okD(1) [OF assms(1), of a] assms(2) by simp_all
qed

lemma heap_ok_Ref:
  assumes "heap_ok owners e" "mem_objects e a = Some ob"
  shows "heap_ok (add_mset a owners) (MemFile_Ref a e)"
  by (rule heap_ok_change [OF assms(1), where a = a])
    (use assms(2) heap_ok_address [OF assms] in \<open>auto simp: MemFile_Ref_def update_object_def\<close>)

lemma heap_ok_Unref:
  assumes "heap_ok (add_mset a owners) e"
  shows "heap_ok owners (MemFile_Unref a e)"
proof -
  obtain ob where ob: "mem_objects e a = Some ob" using heap_ok_object [OF assms] by auto
  show ?thesis
    by (rule heap_ok_change [OF assms, where a = a and x = "if mo_refs ob - 1 \<le> 0 then None else Some (ob\<lparr>mo_refs := mo_refs ob - 1\<rparr>)"])
      (use ob heap_ok_address [OF assms ob] in \<open>auto simp: MemFile_Unref_def update_object_def count_eq_zero_iff\<close>)
qed

lemma heap_ok_update:
  assumes "heap_ok owners e" "\<And>ob. mo_refs (f ob) = mo_refs ob"
  shows "heap_ok owners (update_object a f e)"
proof (cases "mem_objects e a")
  case None
  then have "update_object a f e = e" by (simp add: update_object_def fun_upd_idem)
  then show ?thesis using assms(1) by simp
next
  case (Some ob)
  show ?thesis
    by (rule heap_ok_change [OF assms(1), where a = a])
      (use assms(2) Some heap_ok_address [OF assms(1) Some] in \<open>auto simp: update_object_def\<close>)
qed

lemma heap_ok_files [simp]: "heap_ok owners (e\<lparr>file_map := m\<rparr>) = heap_ok owners e"
  by (simp add: heap_ok_def)

lemma heap_ok_new:
  assumes "heap_ok owners e" "MemFile_new e fn is_lock = (a, e')"
  shows "heap_ok (add_mset a owners) (MemFile_Ref a e')" "file_map e' = file_map e" "mem_objects e a = None" "a \<noteq> 0"
    "a = next_object e"
proof -
  note h = heap_okD [OF assms(1)]
  have a: "a = next_object e" using assms(2) by (auto simp: MemFile_new_def)
  show "a = next_object e" "mem_objects e a = None" "a \<noteq> 0" using h(3) h(4) [of a] a by auto
  then have "count owners a = 0" using h(1) [of a] by simp
  then show "heap_ok (add_mset a owners) (MemFile_Ref a e')"
    by (intro heap_ok_change [OF assms(1), where a = a])
      (use assms(2) a h(3) in \<open>auto simp: MemFile_new_def MemFile_Ref_def update_object_def\<close>)
  show "file_map e' = file_map e" using assms(2) by (auto simp: MemFile_new_def)
qed

section \<open>Every operation keeps the counts exact\<close>

lemma env_okD: "env_ok hs e \<Longrightarrow> keys_sorted (file_map e)" "env_ok hs e \<Longrightarrow> heap_ok (mset (map snd (file_map e)) + hs) e"
  by (simp_all add: env_ok_def)

lemma env_ok_named:
  assumes "env_ok hs e" "map_of (file_map e) p = Some a"
  shows "\<exists>ob. mem_objects e a = Some ob" "a \<noteq> 0"
proof -
  have "a \<in># mset (map snd (file_map e)) + hs" using map_of_SomeD [OF assms(2)] by force
  from heap_ok_object [OF env_okD(2) [OF assms(1)] this] obtain ob where ob: "mem_objects e a = Some ob" ..
  then show "\<exists>ob. mem_objects e a = Some ob" by blast
  show "a \<noteq> 0" using heap_ok_address(1) [OF env_okD(2) [OF assms(1)] ob] .
qed

lemma file_map_ops [simp]:
  "file_map (MemFile_Ref a e) = file_map e" "file_map (MemFile_Unref a e) = file_map e" "file_map (update_object a f e) = file_map e"
  by (simp_all add: MemFile_Ref_def MemFile_Unref_def update_object_def split: option.split)

lemma env_ok_update: "env_ok hs e \<Longrightarrow> (\<And>ob. mo_refs (f ob) = mo_refs ob) \<Longrightarrow> env_ok hs (update_object a f e)"
  by (simp add: env_ok_def heap_ok_update)

lemma env_ok_Ref: "env_ok hs e \<Longrightarrow> mem_objects e a = Some ob \<Longrightarrow> env_ok (add_mset a hs) (MemFile_Ref a e)"
  using heap_ok_Ref by (fastforce simp: env_ok_def)

lemma env_ok_close: "env_ok (add_mset a hs) e \<Longrightarrow> env_ok hs (close_handle a e)"
  using heap_ok_Unref [of a "mset (map snd (file_map e)) + hs" e] by (simp add: env_ok_def close_handle_def)

lemma env_ok_open:
  assumes "env_ok hs e" "open_existing e p = (Inr a, e')"
  shows "env_ok (add_mset a hs) e'"
  using assms env_ok_Ref unfolding open_existing_def by (auto simp: Let_def split: option.splits if_splits)

lemma erase_none: "map_of m k = None \<Longrightarrow> fm_erase k m = m"
  by (rule erase_absent) (simp add: map_of_eq_None_iff)

lemma env_ok_delete_internal:
  assumes "env_ok hs e"
  shows "env_ok hs (DeleteFileInternal p e)" "file_map (DeleteFileInternal p e) = fm_erase p (file_map e)"
proof -
  show "file_map (DeleteFileInternal p e) = fm_erase p (file_map e)"
    using erase_none [of "file_map e" p] by (simp add: DeleteFileInternal_def Let_def split: option.split)
  show "env_ok hs (DeleteFileInternal p e)"
  proof (cases "map_of (file_map e) p")
    case (Some a)
    have "mset (map snd (file_map e)) = add_mset a (mset (map snd (fm_erase p (file_map e))))"
      by (rule targets_erase [OF env_okD(1) [OF assms] Some])
    then have "heap_ok (add_mset a (mset (map snd (fm_erase p (file_map e))) + hs)) e"
      using env_okD(2) [OF assms] by simp
    from heap_ok_Unref [OF this] show ?thesis
      using Some keys_sorted_erase [OF env_okD(1) [OF assms]] by (simp add: DeleteFileInternal_def Let_def env_ok_def)
  qed (simp add: DeleteFileInternal_def assms)
qed

lemma env_ok_put_new:
  assumes "env_ok hs e" "map_of (file_map e) p = None" "put_new p is_lock e = (a, e')"
  shows "env_ok hs e'" "\<exists>ob. mem_objects e' a = Some ob" "map_of (file_map e') p = Some a"
proof -
  obtain e1 where e1: "MemFile_new e p is_lock = (a, e1)" "e' = (MemFile_Ref a e1)\<lparr>file_map := fm_put p a (file_map e1)\<rparr>"
    using assms(3) by (auto simp: put_new_def Let_def split: prod.splits)
  note new = heap_ok_new [OF env_okD(2) [OF assms(1)] e1(1)]
  have m: "file_map e' = fm_put p a (file_map e)" using e1(2) new(2) by simp
  show "map_of (file_map e') p = Some a" using env_okD(1) [OF assms(1)] by (simp add: m)
  have "heap_ok (mset (map snd (fm_put p a (file_map e))) + hs) (MemFile_Ref a e1)"
    using new(1) targets_put [OF assms(2), of a] by simp
  then show "env_ok hs e'"
    using keys_sorted_put [OF env_okD(1) [OF assms(1)]] by (simp add: env_ok_def m) (simp add: e1(2))
  from env_ok_named(1) [OF this \<open>map_of (file_map e') p = Some a\<close>] show "\<exists>ob. mem_objects e' a = Some ob" .
qed

lemma env_ok_writable:
  assumes "env_ok hs e" "NewWritableFile e p = (Inr a, e')"
  shows "env_ok (add_mset a hs) e'"
proof -
  let ?p = "NormalizePath p"
  let ?e = "if map_of (file_map e) ?p \<noteq> None then DeleteFileInternal ?p e else e"
  have ok: "env_ok hs ?e" "map_of (file_map ?e) ?p = None" using env_ok_delete_internal [OF assms(1), of ?p] assms(1) by auto
  obtain e1 where e1: "put_new ?p False ?e = (a, e1)" "e' = MemFile_Ref a e1"
    using assms(2) by (auto simp: NewWritableFile_def Let_def split: prod.splits)
  show ?thesis using env_ok_put_new [OF ok e1(1)] env_ok_Ref by (auto simp: e1(2))
qed

lemma NewWritableFile_Inr: "\<exists>a e'. NewWritableFile e p = (Inr a, e')"
  by (simp add: NewWritableFile_def Let_def split: prod.split)

lemma erase_put: "k \<notin> fst ` set m \<Longrightarrow> fm_erase k (fm_put k x m) = m"
proof (induction k x m rule: fm_put.induct)
  case (2 k a l b m)
  then show ?case using erase_absent [of k m] by (auto simp: fm_erase_def)
qed (simp add: fm_erase_def)

lemma env_ok_rename:
  assumes "env_ok hs e" "RenameFile e p q = (s, e')"
  shows "env_ok hs e'"
proof (cases "map_of (file_map e) (NormalizePath p)")
  case None
  then show ?thesis using assms by (auto simp: RenameFile_def Let_def)
next
  case (Some a)
  let ?s = "NormalizePath p" and ?t = "NormalizePath q"
  let ?e = "DeleteFileInternal ?t e"
  note del = env_ok_delete_internal [OF assms(1), of ?t]
  have e': "e' = ?e\<lparr>file_map := fm_erase ?s (fm_put ?t (fm_at ?s (file_map ?e)) (file_map ?e))\<rparr>"
    using assms(2) Some by (simp add: RenameFile_def Let_def)
  note srt = env_okD(1) [OF del(1)]
  show ?thesis
  proof (cases "?s = ?t")
    case True
    have "?t \<notin> fst ` set (file_map ?e)" by (simp add: del(2) fm_erase_def image_iff)
    then have "fm_erase ?s (fm_put ?t (fm_at ?s (file_map ?e)) (file_map ?e)) = file_map ?e"
      unfolding True by (rule erase_put)
    then show ?thesis using del(1) e' by simp
  next
    case False
    then have a: "map_of (file_map ?e) ?s = Some a" using Some by (simp add: del(2))
    let ?m = "fm_put ?t a (file_map ?e)"
    have 1: "mset (map snd ?m) = add_mset a (mset (map snd (file_map ?e)))"
      by (rule targets_put) (simp add: del(2))
    have 2: "mset (map snd ?m) = add_mset a (mset (map snd (fm_erase ?s ?m)))"
      by (rule targets_erase [OF keys_sorted_put [OF srt]]) (use False a srt in simp)
    have "mset (map snd (fm_erase ?s ?m)) = mset (map snd (file_map ?e))" using 1 2 by simp
    then show ?thesis
      using keys_sorted_erase [OF keys_sorted_put [OF srt]] env_okD(2) [OF del(1)] fm_at_Some [OF a]
      by (simp add: env_ok_def e')
  qed
qed

lemma env_ok_link:
  assumes "env_ok hs e" "LinkFile e p q = Some (s, e')"
  shows "env_ok hs e'"
proof (cases "map_of (file_map e) (NormalizePath p)")
  case None
  then show ?thesis using assms by (auto simp: LinkFile_def Let_def)
next
  case (Some a)
  let ?s = "NormalizePath p" and ?t = "NormalizePath q"
  let ?e = "DeleteFileInternal ?t e"
  note del = env_ok_delete_internal [OF assms(1), of ?t]
  have "?s \<noteq> ?t" using assms(2) Some by (auto simp: LinkFile_def Let_def del(2) fm_at_def)
  then have a: "map_of (file_map ?e) ?s = Some a" using Some by (simp add: del(2))
  then have e': "e' = MemFile_Ref a (?e\<lparr>file_map := fm_put ?t a (file_map ?e)\<rparr>)"
    using assms(2) Some env_ok_named(2) [OF del(1) a] by (simp add: LinkFile_def Let_def)
  obtain ob where "mem_objects ?e a = Some ob" using env_ok_named(1) [OF del(1) a] by blast
  from heap_ok_Ref [OF env_okD(2) [OF del(1)] this]
  have "heap_ok (mset (map snd (fm_put ?t a (file_map ?e))) + hs) (MemFile_Ref a ?e)"
    using targets_put [of "file_map ?e" ?t a] by (simp add: del(2))
  moreover have "MemFile_Ref a (?e\<lparr>file_map := m\<rparr>) = (MemFile_Ref a ?e)\<lparr>file_map := m\<rparr>" for m
    by (simp add: MemFile_Ref_def update_object_def)
  ultimately show ?thesis using keys_sorted_put [OF env_okD(1) [OF del(1)]] by (simp add: env_ok_def e')
qed

text \<open>
  The calls of clients, with the multiset of open handles. A handle is closed once; a link to the path itself is not
  a step, since it has no result.
\<close>

inductive env_step :: "mock_env_state \<times> nat multiset \<Rightarrow> mock_env_state \<times> nat multiset \<Rightarrow> bool" where
  step_sequential: "NewSequentialFile e p = (Inr a, e') \<Longrightarrow> env_step (e, hs) (e', add_mset a hs)"
| step_random_access: "NewRandomAccessFile e p = (Inr a, e') \<Longrightarrow> env_step (e, hs) (e', add_mset a hs)"
| step_random_rw: "NewRandomRWFile e p = (Inr a, e') \<Longrightarrow> env_step (e, hs) (e', add_mset a hs)"
| step_writable: "NewWritableFile e p = (Inr a, e') \<Longrightarrow> env_step (e, hs) (e', add_mset a hs)"
| step_reuse: "ReuseWritableFile e p q = (Inr a, e') \<Longrightarrow> env_step (e, hs) (e', add_mset a hs)"
| step_logger: "NewLogger e p = (a, e') \<Longrightarrow> env_step (e, hs) (e', add_mset a hs)"
| step_close: "env_step (e, add_mset a hs) (close_handle a e, hs)"
| step_append: "a \<in># hs \<Longrightarrow> env_step (e, hs) (snd (object_Append a d e), hs)"
| step_write: "a \<in># hs \<Longrightarrow> env_step (e, hs) (snd (object_Write a n d e), hs)"
| step_truncate_handle: "a \<in># hs \<Longrightarrow> env_step (e, hs) (object_Truncate a n e, hs)"
| step_fsync: "a \<in># hs \<Longrightarrow> env_step (e, hs) (snd (object_Fsync a e), hs)"
| step_rename: "env_step (e, hs) (snd (RenameFile e p q), hs)"
| step_link: "LinkFile e p q = Some (s, e') \<Longrightarrow> env_step (e, hs) (e', hs)"
| step_delete: "env_step (e, hs) (snd (DeleteFile e p), hs)"
| step_delete_dir: "env_step (e, hs) (snd (DeleteDir e p), hs)"
| step_truncate: "env_step (e, hs) (snd (Truncate e p n), hs)"
| step_create_dir: "env_step (e, hs) (snd (CreateDir e p), hs)"
| step_create_dir_if_missing: "env_step (e, hs) (snd (CreateDirIfMissing e p), hs)"
| step_lock: "env_step (e, hs) (snd (LockFile e p), hs)"
| step_unlock: "env_step (e, hs) (snd (UnlockFile e p), hs)"
| step_sleep: "env_step (e, hs) (FakeSleepForMicroseconds e t, hs)"

lemma env_ok_delete: "env_ok hs e \<Longrightarrow> env_ok hs (snd (DeleteFile e p))"
  by (simp add: DeleteFile_def Let_def env_ok_delete_internal)

lemma env_ok_create_dir: "env_ok hs e \<Longrightarrow> env_ok hs (snd (CreateDir e p))"
  using env_ok_put_new(1) [of hs e "NormalizePath p" False] by (auto simp: CreateDir_def Let_def prod_eq_iff)

lemma env_ok_reuse:
  assumes "env_ok hs e" "ReuseWritableFile e p q = (Inr a, e')"
  shows "env_ok (add_mset a hs) e'"
proof -
  obtain s e1 where r: "RenameFile e q p = (s, e1)" by (metis surj_pair)
  then have "NewWritableFile e1 p = (Inr a, e')" using assms(2) by (auto simp: ReuseWritableFile_def split: if_splits)
  then show ?thesis by (rule env_ok_writable [OF env_ok_rename [OF assms(1) r]])
qed

lemma env_ok_logger:
  assumes "env_ok hs e" "NewLogger e p = (a, e')"
  shows "env_ok (add_mset a hs) e'"
proof (cases "map_of (file_map e) (NormalizePath p)")
  case None
  obtain b e1 where e1: "put_new (NormalizePath p) False e = (b, e1)" by (metis surj_pair)
  note new = env_ok_put_new [OF assms(1) None e1]
  show ?thesis using assms(2) None e1 new env_ok_Ref [OF new(1)] by (auto simp: NewLogger_def Let_def)
next
  case (Some b)
  then show ?thesis using assms env_ok_Ref [OF assms(1)] env_ok_named(1) [OF assms(1) Some] by (auto simp: NewLogger_def Let_def)
qed

lemma env_ok_lock: "env_ok hs e \<Longrightarrow> env_ok hs (snd (MemFile_Lock a e))"
  by (simp add: MemFile_Lock_def env_ok_update split: option.split)

lemma env_ok_lock_file:
  assumes "env_ok hs e"
  shows "env_ok hs (snd (LockFile e p))"
proof (cases "map_of (file_map e) (NormalizePath p)")
  case None
  obtain a e1 where e1: "put_new (NormalizePath p) True e = (a, e1)" by (metis surj_pair)
  have "env_ok hs e1" by (rule env_ok_put_new(1) [OF assms None e1])
  then show ?thesis using None e1 env_ok_lock by (simp add: LockFile_def Let_def)
next
  case (Some a)
  then obtain ob where "mem_objects e a = Some ob" using env_ok_named(1) [OF assms Some] by blast
  then show ?thesis using Some assms env_ok_lock [OF assms, of a] by (simp add: LockFile_def Let_def split_def)
qed

lemma env_ok_unlock: "env_ok hs e \<Longrightarrow> env_ok hs (snd (UnlockFile e p))"
  by (auto simp: UnlockFile_def MemFile_Unlock_def env_ok_update split: option.split bind_splits)

lemma env_step_ok: "env_step x y \<Longrightarrow> env_ok (snd x) (fst x) \<Longrightarrow> env_ok (snd y) (fst y)"
proof (induction rule: env_step.induct)
  case (step_rename e hs p q)
  then show ?case using env_ok_rename [of hs e p q "fst (RenameFile e p q)" "snd (RenameFile e p q)"] by simp
next
  case (step_sleep e hs t)
  then show ?case by (simp add: env_ok_def heap_ok_def FakeSleepForMicroseconds_def)
next
  case (step_truncate e hs p n)
  then show ?case by (simp add: Truncate_def object_Truncate_def env_ok_update Let_def split: option.split)
qed (simp_all add: NewSequentialFile_def NewRandomAccessFile_def NewRandomRWFile_def DeleteDir_def CreateDirIfMissing_def
    env_ok_open env_ok_writable env_ok_reuse env_ok_logger env_ok_close env_ok_link env_ok_delete env_ok_create_dir
    env_ok_lock_file env_ok_unlock object_Append_def object_Write_def object_Truncate_def object_Fsync_def env_ok_update)

lemma env_ok_new: "env_ok {#} (MockEnv_new t)"
  by (simp add: env_ok_def heap_ok_def MockEnv_new_def)

text \<open>
  C6: From a new in-memory environment, after any sequence of calls by clients that close a handle at most once,
  the environment is well formed: the map is sorted with distinct paths, the reference count of every object is the
  number of its names and open handles, an object exists exactly while there is one, and so no path and no handle
  refers to a freed object and nothing leaks.
\<close>

theorem mock_env_well_formed:
  assumes "env_step\<^sup>*\<^sup>* (MockEnv_new t, {#}) (e, hs)"
  shows "env_ok hs e"
proof -
  have "env_ok (snd y) (fst y)" if "env_step\<^sup>*\<^sup>* (MockEnv_new t, {#}) y" for y
    using that by induction (auto simp: env_ok_new env_step_ok)
  from this [OF assms] show ?thesis by simp
qed

theorem mock_env_well_formed_witness:
  "\<exists>a e. NewWritableFile (MockEnv_new 0) ''/db//000007.log'' = (Inr a, e) \<and>
    env_ok {#a#} (snd (RenameFile (snd (object_Append a [1, 2] e)) ''/db/000007.log'' ''/db/archive/000007.log''))"
proof -
  obtain a e where e: "NewWritableFile (MockEnv_new 0) ''/db//000007.log'' = (Inr a, e)" using NewWritableFile_Inr by blast
  have 1: "env_step (MockEnv_new 0, {#}) (e, {#a#})" by (rule step_writable [OF e])
  have 2: "env_step (e, {#a#}) (snd (object_Append a [1, 2] e), {#a#})" by (rule step_append) simp
  have 3: "env_step (snd (object_Append a [1, 2] e), {#a#})
    (snd (RenameFile (snd (object_Append a [1, 2] e)) ''/db/000007.log'' ''/db/archive/000007.log''), {#a#})" by (rule step_rename)
  have "env_step\<^sup>*\<^sup>* (MockEnv_new 0, {#})
    (snd (RenameFile (snd (object_Append a [1, 2] e)) ''/db/000007.log'' ''/db/archive/000007.log''), {#a#})"
    using 1 2 3 by (meson converse_rtranclp_into_rtranclp rtranclp.rtrancl_refl)
  from mock_env_well_formed [OF this] show ?thesis using e by blast
qed

section \<open>The environment as a file system\<close>

text \<open>The contents of a file, by its path; a lock file has none.\<close>

definition object_data :: "mock_env_state \<Rightarrow> nat \<Rightarrow> bytes option" where
  "object_data e a =
    (case mem_objects e a of None \<Rightarrow> None | Some ob \<Rightarrow> if mo_is_lock_file ob then None else Some (mf_data (mo_file ob)))"

definition contents :: "mock_env_state \<Rightarrow> string \<Rightarrow> bytes option" where
  "contents e p = Option.bind (map_of (file_map e) (NormalizePath p)) (object_data e)"

lemma object_data_Ref [simp]: "object_data (MemFile_Ref a e) = object_data e"
  by (auto simp: fun_eq_iff object_data_def MemFile_Ref_def update_object_def split: option.split)

lemma object_data_files [simp]: "object_data (e\<lparr>file_map := m\<rparr>) = object_data e"
  by (simp add: fun_eq_iff object_data_def)

lemma object_data_Unref:
  assumes "heap_ok (add_mset a owners) e" "b \<in># owners"
  shows "object_data (MemFile_Unref a e) b = object_data e b"
proof (cases "b = a")
  case True
  obtain ob where ob: "mem_objects e a = Some ob" using heap_ok_object [OF assms(1)] by auto
  have "0 < count owners a" using assms(2) True by simp
  then have "1 < mo_refs ob" using heap_ok_address(3) [OF assms(1) ob] by simp
  then show ?thesis using True ob by (simp add: object_data_def MemFile_Unref_def update_object_def)
next
  case False
  then have "mem_objects (MemFile_Unref a e) b = mem_objects e b"
    by (cases "mem_objects e a") (simp_all add: MemFile_Unref_def update_object_def)
  then show ?thesis by (simp add: object_data_def)
qed

lemma named_owner: "map_of m q = Some b \<Longrightarrow> b \<in># mset (map snd m)"
  using map_of_SomeD by force

lemma object_data_delete:
  assumes "env_ok hs e" "map_of (file_map e) q = Some b" "q \<noteq> p"
  shows "object_data (DeleteFileInternal p e) b = object_data e b"
proof (cases "map_of (file_map e) p")
  case (Some a)
  let ?m = "fm_erase p (file_map e)"
  have "mset (map snd (file_map e)) = add_mset a (mset (map snd ?m))"
    by (rule targets_erase [OF env_okD(1) [OF assms(1)] Some])
  then have h: "heap_ok (add_mset a (mset (map snd ?m) + hs)) e" using env_okD(2) [OF assms(1)] by simp
  have "map_of ?m q = Some b" using assms(2,3) by simp
  then have "b \<in># mset (map snd ?m) + hs" using named_owner by (metis union_iff)
  from object_data_Unref [OF h this] show ?thesis using Some by (simp add: DeleteFileInternal_def Let_def)
qed (simp add: DeleteFileInternal_def)

lemma contents_delete_internal:
  assumes "env_ok hs e"
  shows "contents (DeleteFileInternal p e) q = (if NormalizePath q = p then None else contents e q)"
  using object_data_delete [OF assms] env_ok_delete_internal(2) [OF assms]
  by (auto simp: contents_def bind_eq_None_conv split: bind_splits)

lemma contents_Some:
  assumes "contents e p = Some d"
  obtains a ob where "map_of (file_map e) (NormalizePath p) = Some a" "mem_objects e a = Some ob" "\<not> mo_is_lock_file ob"
    "mf_data (mo_file ob) = d"
  using assms by (auto simp: contents_def object_data_def bind_eq_Some_conv split: option.splits if_splits)

lemma contents_DeleteFile:
  assumes "env_ok hs e" "contents e p = Some d"
  shows "\<exists>e'. DeleteFile e p = (Status_OK, e') \<and> env_ok hs e' \<and>
    (\<forall>q. contents e' q = (if NormalizePath q = NormalizePath p then None else contents e q))"
  using assms(2) contents_delete_internal [OF assms(1)] env_ok_delete_internal(1) [OF assms(1)]
  by (elim contents_Some) (simp add: DeleteFile_def Let_def)

lemma contents_RenameFile:
  assumes "env_ok hs e" "contents e p = Some d" "NormalizePath p \<noteq> NormalizePath q"
  shows "\<exists>e'. RenameFile e p q = (Status_OK, e') \<and> env_ok hs e' \<and>
    (\<forall>r. contents e' r = (if NormalizePath r = NormalizePath q then Some d
       else if NormalizePath r = NormalizePath p then None else contents e r))"
proof -
  let ?s = "NormalizePath p" and ?t = "NormalizePath q"
  obtain a where a: "map_of (file_map e) ?s = Some a" using assms(2) by (elim contents_Some)
  let ?e = "DeleteFileInternal ?t e"
  note del = env_ok_delete_internal [OF assms(1), of ?t]
  have a': "map_of (file_map ?e) ?s = Some a" using a assms(3) by (simp add: del(2))
  let ?e' = "?e\<lparr>file_map := fm_erase ?s (fm_put ?t a (file_map ?e))\<rparr>"
  have r: "RenameFile e p q = (Status_OK, ?e')" using a fm_at_Some [OF a'] by (simp add: RenameFile_def Let_def)
  have m: "map_of (file_map ?e') = (map_of (file_map e))(?t \<mapsto> a, ?s := None)"
    using env_okD(1) [OF del(1)] by (simp add: del(2))
  have d: "object_data ?e a = Some d"
    using object_data_delete [OF assms(1) a, of ?t] assms(2,3) a by (simp add: contents_def)
  have "contents ?e' r = (if NormalizePath r = ?t then Some d else if NormalizePath r = ?s then None else contents e r)" for r
  proof -
    have "contents ?e' r = Option.bind (((map_of (file_map e))(?t \<mapsto> a, ?s := None)) (NormalizePath r)) (object_data ?e)"
      by (simp only: contents_def m object_data_files)
    then show ?thesis
      using object_data_delete [OF assms(1), of "NormalizePath r" _ ?t] d assms(3)
      by (cases "map_of (file_map e) (NormalizePath r)") (simp_all add: contents_def)
  qed
  then show ?thesis using r env_ok_rename [OF assms(1) r] by blast
qed

text \<open>
  C37: Renaming a file of the in-memory environment to its own path, in any spelling, reports success and loses
  the file, where a file system keeps it.
\<close>

theorem rename_onto_itself_loses_file:
  assumes "env_ok hs e" "contents e p = Some d" "NormalizePath q = NormalizePath p"
  shows "fst (RenameFile e p q) = Status_OK \<and> contents (snd (RenameFile e p q)) p = None"
proof -
  obtain a where "map_of (file_map e) (NormalizePath p) = Some a" using assms(2) by (elim contents_Some)
  then show ?thesis by (simp add: RenameFile_def Let_def assms(3) contents_def)
qed

theorem rename_onto_itself_loses_file_witness:
  "\<exists>a e. NewWritableFile (MockEnv_new 0) ''/a'' = (Inr a, e) \<and> contents e ''/a'' = Some [] \<and>
    fst (RenameFile e ''/a'' ''//a'') = Status_OK \<and> contents (snd (RenameFile e ''/a'' ''//a'')) ''/a'' = None"
proof -
  have n: "NormalizePath ''/a'' = ''/a''" "NormalizePath ''//a'' = ''/a''" by (simp_all add: NormalizePath_def)
  obtain a e where e: "NewWritableFile (MockEnv_new 0) ''/a'' = (Inr a, e)" using NewWritableFile_Inr by blast
  have ok: "env_ok {#a#} e" by (rule env_ok_writable [OF env_ok_new e])
  have c: "contents e ''/a'' = Some []"
    using e by (auto simp: NewWritableFile_def MockEnv_new_def put_new_def MemFile_new_def MemFile_Ref_def update_object_def
        contents_def object_data_def n Let_def)
  have "fst (RenameFile e ''/a'' ''//a'') = Status_OK \<and> contents (snd (RenameFile e ''/a'' ''//a'')) ''/a'' = None"
    by (rule rename_onto_itself_loses_file [OF ok c]) (simp only: n)
  then show ?thesis using e c by blast
qed

section \<open>The interface of an environment\<close>

text \<open>
  The virtual functions of \<^verbatim>\<open>Env\<close> that the manager of the logs calls, over the state \<open>'e\<close> of the environment and the
  state \<open>'f\<close> of a sequential file.
\<close>

record ('e, 'f) Env =
  env_NewSequentialFile :: "'e \<Rightarrow> string \<Rightarrow> status + 'f"
  env_Read :: "'f \<Rightarrow> nat \<Rightarrow> status \<times> slice \<times> 'f"
  env_FileExists :: "'e \<Rightarrow> string \<Rightarrow> status"
  env_GetChildren :: "'e \<Rightarrow> string \<Rightarrow> status \<times> string list"
  env_DeleteFile :: "'e \<Rightarrow> string \<Rightarrow> status \<times> 'e"
  env_RenameFile :: "'e \<Rightarrow> string \<Rightarrow> string \<Rightarrow> status \<times> 'e"
  env_GetFileSize :: "'e \<Rightarrow> string \<Rightarrow> status + u64"
  env_GetFileModificationTime :: "'e \<Rightarrow> string \<Rightarrow> status + u64"
  env_GetCurrentTime :: "'e \<Rightarrow> status \<times> int"

text \<open>
  A sequential file that is opened, read and closed within one call sees the object as it was when it was opened, and
  leaves the environment as it was.
\<close>

definition mock_open :: "mock_env_state \<Rightarrow> string \<Rightarrow> status + MockSequentialFile" where
  "mock_open e p =
    (case NewSequentialFile e p of
       (Inl s, _) \<Rightarrow> Inl s
     | (Inr a, e') \<Rightarrow>
         (case mem_objects e' a of
            None \<Rightarrow> Inl (file_not_found p)
          | Some ob \<Rightarrow> Inr \<lparr>sf_file = mo_file ob, sf_pos = 0\<rparr>))"

definition MockEnv_ops :: "(mock_env_state, MockSequentialFile) Env" where
  "MockEnv_ops =
    \<lparr>env_NewSequentialFile = mock_open, env_Read = MockSequentialFile_Read, env_FileExists = FileExists,
     env_GetChildren = GetChildren, env_DeleteFile = DeleteFile, env_RenameFile = RenameFile, env_GetFileSize = GetFileSize,
     env_GetFileModificationTime = GetFileModificationTime, env_GetCurrentTime = GetCurrentTime\<rparr>"

lemma open_close:
  assumes "env_ok hs e" "NewSequentialFile e p = (Inr a, e')"
  shows "close_handle a e' = e"
proof -
  obtain ob where ob: "mem_objects e a = Some ob" "e' = MemFile_Ref a e"
    using assms(2) by (auto simp: NewSequentialFile_def open_existing_def Let_def split: option.splits if_splits)
  have "0 < mo_refs ob" using heap_ok_address(3,4) [OF env_okD(2) [OF assms(1)] ob(1)] by linarith
  then show ?thesis using ob by (simp add: close_handle_def MemFile_Ref_def MemFile_Unref_def update_object_def fun_upd_idem)
qed

text \<open>
  What clients rely on: a file that exists is opened and read from its start, its size is the number of its bytes, a
  delete removes it and nothing else, and a rename to another path moves it. Paths with the same \<open>canon\<close> are the same
  file.
\<close>

locale file_env = src: seq_source "env_Read ops" rest
  for ops :: "('e, 'f) Env" and rest +
  fixes valid :: "'e \<Rightarrow> bool" and files :: "'e \<Rightarrow> string \<Rightarrow> bytes option" and canon :: "string \<Rightarrow> string"
  assumes open_file: "valid e \<Longrightarrow> files e p = Some d \<Longrightarrow> \<exists>f. env_NewSequentialFile ops e p = Inr f \<and> rest f = d"
    and exists_file: "valid e \<Longrightarrow> files e p = Some d \<Longrightarrow> ok (env_FileExists ops e p)"
    and size_file: "valid e \<Longrightarrow> files e p = Some d \<Longrightarrow> env_GetFileSize ops e p = Inr (word_of_nat (length d))"
    and delete_file: "valid e \<Longrightarrow> files e p = Some d \<Longrightarrow> \<exists>e'. env_DeleteFile ops e p = (Status_OK, e') \<and> valid e' \<and>
      (\<forall>q. files e' q = (if canon q = canon p then None else files e q))"
    and rename_file: "valid e \<Longrightarrow> files e p = Some d \<Longrightarrow> canon p \<noteq> canon q \<Longrightarrow>
      \<exists>e'. env_RenameFile ops e p q = (Status_OK, e') \<and> valid e' \<and>
      (\<forall>r. files e' r = (if canon r = canon q then Some d else if canon r = canon p then None else files e r))"

definition mock_valid :: "mock_env_state \<Rightarrow> bool" where
  "mock_valid e \<longleftrightarrow> (\<exists>hs. env_ok hs e)"

interpretation mockenv: file_env MockEnv_ops "\<lambda>sf. drop (sf_pos sf) (mf_data (sf_file sf))" mock_valid contents NormalizePath
proof (intro file_env.intro file_env_axioms.intro)
  show "seq_source (env_Read MockEnv_ops) (\<lambda>sf. drop (sf_pos sf) (mf_data (sf_file sf)))"
    using mock_seq.seq_source_axioms by (simp add: MockEnv_ops_def)
next
  fix e p d
  assume "contents e p = Some d"
  then obtain a ob where a: "map_of (file_map e) (NormalizePath p) = Some a" "mem_objects e a = Some ob" "\<not> mo_is_lock_file ob"
    "mf_data (mo_file ob) = d" by (rule contents_Some)
  show "\<exists>f. env_NewSequentialFile MockEnv_ops e p = Inr f \<and> drop (sf_pos f) (mf_data (sf_file f)) = d"
    using a by (simp add: MockEnv_ops_def mock_open_def NewSequentialFile_def open_existing_def Let_def MemFile_Ref_def update_object_def)
  show "ok (env_FileExists MockEnv_ops e p)" using a by (simp add: MockEnv_ops_def FileExists_def Let_def)
  show "env_GetFileSize MockEnv_ops e p = Inr (word_of_nat (length d))"
    using a by (simp add: MockEnv_ops_def GetFileSize_def MemFile_Size_def)
next
  fix e p d
  assume "mock_valid e" "contents e p = Some d"
  then show "\<exists>e'. env_DeleteFile MockEnv_ops e p = (Status_OK, e') \<and> mock_valid e' \<and>
      (\<forall>q. contents e' q = (if NormalizePath q = NormalizePath p then None else contents e q))"
    using contents_DeleteFile by (simp only: mock_valid_def MockEnv_ops_def Env.simps) blast
next
  fix e p d q
  assume "mock_valid e" "contents e p = Some d" "NormalizePath p \<noteq> NormalizePath q"
  then show "\<exists>e'. env_RenameFile MockEnv_ops e p q = (Status_OK, e') \<and> mock_valid e' \<and>
      (\<forall>r. contents e' r = (if NormalizePath r = NormalizePath q then Some d
         else if NormalizePath r = NormalizePath p then None else contents e r))"
    using contents_RenameFile by (simp only: mock_valid_def MockEnv_ops_def Env.simps) blast
qed

section \<open>Listing a directory\<close>

lemma children_loop_eq:
  "children_loop d m =
    ((\<exists>x \<in> set m. fst x = d \<or> below d (fst x)), map (child_name d) (filter (below d) (map fst m)))"
proof (induction d m rule: children_loop.induct)
  case (2 d filename a m)
  have "\<not> below d d" by (simp add: below_def)
  then show ?case using 2 by (auto simp: split: prod.split)
qed simp

lemma GetChildren_eq:
  "ok (fst (GetChildren e p)) \<longleftrightarrow> (\<exists>x \<in> set (file_map e). fst x = NormalizePath p \<or> below (NormalizePath p) (fst x))"
  "set (snd (GetChildren e p)) = child_name (NormalizePath p) ` {q. q \<in> fst ` set (file_map e) \<and> below (NormalizePath p) q}"
  by (auto simp: GetChildren_def children_loop_eq Let_def)

end
