(* ===== verification/WalManager.thy ===== *)
theory WalManager
  imports DbStore MockEnv SpaceSaving
begin

text \<open>
  The manager of the write-ahead logs (\<^verbatim>\<open>db/wal_manager.cc\<close>): the change to RocksDB that feeds the keys of a log
  to the heavy-hitter summary before the log is deleted, the listing of logs, and the deletion of archived ones. It
  joins the environment, the log reader, the write batches and the summary.
\<close>

section \<open>Numbers in strings\<close>

datatype std_exception = invalid_argument | out_of_range

definition is_space :: "char \<Rightarrow> bool" where
  "is_space c \<longleftrightarrow> c = CHR '' '' \<or> (9 \<le> (of_char c :: nat) \<and> (of_char c :: nat) \<le> 13)"

text \<open>\<^verbatim>\<open>std::stoll\<close>: blanks, a sign, and the digits up to the first other character.\<close>

definition stoll :: "string \<Rightarrow> std_exception + int" where
  "stoll s =
    (let s = dropWhile is_space s;
         (neg, s) = (case s of [] \<Rightarrow> (False, []) | c # cs \<Rightarrow>
           if c = CHR ''-'' then (True, cs) else if c = CHR ''+'' then (False, cs) else (False, s));
         ds = takeWhile is_digit s;
         v = (if neg then - int (digits_from 0 ds) else int (digits_from 0 ds))
     in if ds = [] then Inl invalid_argument
        else if v < - (2 ^ 63) \<or> 2 ^ 63 \<le> v then Inl out_of_range
        else Inr v)"

section \<open>The manager\<close>

record wal_manager =
  wm_first_record_cache :: "(u64 \<times> u64) list"
  wm_purge_last_run :: u64
  wm_space_saving :: space_saving
  wm_total_records :: u64

record wal_conf =
  wc_dir :: string
  wc_paranoid_checks :: bool
  wc_ttl_seconds :: u64
  wc_size_limit_mb :: u64

definition WalManager_new :: wal_manager where
  "WalManager_new =
    \<lparr>wm_first_record_cache = [], wm_purge_last_run = 0, wm_space_saving = SpaceSaving_new, wm_total_records = 0\<rparr>"

definition cache_erase :: "u64 \<Rightarrow> wal_manager \<Rightarrow> wal_manager" where
  "cache_erase number wm = wm\<lparr>wm_first_record_cache := filter (\<lambda>x. fst x \<noteq> number) (wm_first_record_cache wm)\<rparr>"

section \<open>Feeding a log to the summary\<close>

text \<open>
  What stops the loop over the records before the end of the log: an access behind the end of a record, or an
  exception of \<^verbatim>\<open>std::stoll\<close>, which nothing catches.
\<close>

datatype wal_failure = out_of_bounds | uncaught std_exception

text \<open>The key is taken from bytes 14 to 21 of the record.\<close>

definition topk_key :: "slice \<Rightarrow> wal_failure + u64" where
  "topk_key record =
    (if length record < 22 then Inl out_of_bounds
     else
       (case stoll (map (\<lambda>b. char_of (unat b)) (take 8 (drop 14 record))) of
          Inl x \<Rightarrow> Inl (uncaught x)
        | Inr v \<Rightarrow> Inr (word_of_int v)))"

partial_function (option) topk_loop ::
    "('f \<Rightarrow> nat \<Rightarrow> status \<times> slice \<times> 'f) \<Rightarrow> 'f log_reader \<Rightarrow> wal_manager \<Rightarrow> (wal_failure option \<times> wal_manager) option" where
  "topk_loop rd r wm =
    (case ReadRecord rd kTolerateCorruptedTailRecords r of
       None \<Rightarrow> None
     | Some (b, record, scratch, r1) \<Rightarrow>
         if \<not> b then Some (None, wm)
         else if length record < kHeader then topk_loop rd r1 wm
         else
           let wm = wm\<lparr>wm_total_records := wm_total_records wm + 1\<rparr>
           in if record \<noteq> [] then
                (case topk_key record of
                   Inl x \<Rightarrow> Some (Some x, wm)
                 | Inr key \<Rightarrow> topk_loop rd r1 (wm\<lparr>wm_space_saving := ProcessKey (wm_space_saving wm) key\<rparr>))
              else topk_loop rd r1 wm)"

definition genTopkForPartitioner ::
    "('e, 'f) Env \<Rightarrow> wal_conf \<Rightarrow> 'e \<Rightarrow> u64 \<Rightarrow> wal_manager \<Rightarrow> ((wal_failure + status) \<times> wal_manager) option" where
  "genTopkForPartitioner ops conf e log wm =
    (case env_NewSequentialFile ops e (LogFileName (wc_dir conf) log) of
       Inl s \<Rightarrow> Some (Inr s, wm)
     | Inr file \<Rightarrow>
         (case topk_loop (env_Read ops) (Reader_new file (Some []) True log False) wm of
            None \<Rightarrow> None
          | Some (None, wm) \<Rightarrow> Some (Inr Status_OK, wm)
          | Some (Some x, wm) \<Rightarrow> Some (Inl x, wm)))"

text \<open>The part of \<^verbatim>\<open>DBImpl::DeleteObsoleteFileImpl\<close> for a log: the summary is fed, then the file is deleted.\<close>

definition DeleteObsoleteLog ::
    "('e, 'f) Env \<Rightarrow> wal_conf \<Rightarrow> string \<Rightarrow> u64 \<Rightarrow> 'e \<Rightarrow> wal_manager \<Rightarrow> ((wal_failure + status) \<times> 'e \<times> wal_manager) option" where
  "DeleteObsoleteLog ops conf fname number e wm =
    (case genTopkForPartitioner ops conf e number wm of
       None \<Rightarrow> None
     | Some (Inl x, wm) \<Rightarrow> Some (Inl x, e, wm)
     | Some (Inr _, wm) \<Rightarrow> (case env_DeleteFile ops e fname of (s, e) \<Rightarrow> Some (Inr s, e, wm)))"

text \<open>\<^verbatim>\<open>DB::ReportTopk\<close> on the summary that the manager fills.\<close>

definition ReportTopk :: "(entry list \<Rightarrow> entry list) \<Rightarrow> nat \<Rightarrow> wal_manager \<Rightarrow> (entry list \<times> wal_manager) option" where
  "ReportTopk srt k wm =
    (case ExtractTopK srt k (wm_space_saving wm) of
       None \<Rightarrow> None
     | Some (res, s) \<Rightarrow> Some (res, wm\<lparr>wm_space_saving := s\<rparr>))"

section \<open>Listing the logs\<close>

record LogFileImpl =
  lf_number :: u64
  lf_type :: WalFileType
  lf_start_sequence :: u64
  lf_size :: u64

definition LogFile_PathName :: "LogFileImpl \<Rightarrow> string" where
  "LogFile_PathName l =
    (if lf_type l = kArchivedLogFile then ArchivedLogFileName [] (lf_number l) else LogFileName [] (lf_number l))"

definition WalManager_DeleteFile ::
    "('e, 'f) Env \<Rightarrow> wal_conf \<Rightarrow> string \<Rightarrow> u64 \<Rightarrow> 'e \<Rightarrow> wal_manager \<Rightarrow> status \<times> 'e \<times> wal_manager" where
  "WalManager_DeleteFile ops conf fname number e wm =
    (let (s, e) = env_DeleteFile ops e (wc_dir conf @ ''/'' @ fname)
     in (s, e, if ok s then cache_erase number wm else wm))"

text \<open>The reporter keeps the first error.\<close>

definition first_report :: "'f log_reader \<Rightarrow> status" where
  "first_report r = (case reporter r of Some ((n, s) # _) \<Rightarrow> s | _ \<Rightarrow> Status_OK)"

text \<open>\<open>seqno\<close> is the value that the caller's variable has before the call.\<close>

definition ReadFirstLine ::
    "('e, 'f) Env \<Rightarrow> wal_conf \<Rightarrow> 'e \<Rightarrow> string \<Rightarrow> u64 \<Rightarrow> u64 \<Rightarrow> (status \<times> u64) option" where
  "ReadFirstLine ops conf e fname number seqno =
    (case env_NewSequentialFile ops e fname of
       Inl s \<Rightarrow> Some (s, seqno)
     | Inr file \<Rightarrow>
         (case ReadRecord (env_Read ops) kTolerateCorruptedTailRecords (Reader_new file (Some []) True number False) of
            None \<Rightarrow> None
          | Some (b, record, scratch, r1) \<Rightarrow>
              let status = first_report r1
              in if b \<and> (ok status \<or> \<not> wc_paranoid_checks conf) then
                   if length record < kHeader
                   then Some (if ok status then Corruption ''log record too small'' else status, 0)
                   else Some (Status_OK, WB_Sequence (SetContents (WriteBatch_new 0) record))
                 else Some (status, 0)))"

definition cache_first_record :: "u64 \<Rightarrow> status \<Rightarrow> u64 \<Rightarrow> wal_manager \<Rightarrow> status \<times> u64 \<times> wal_manager" where
  "cache_first_record number s seqno wm =
    (s, seqno,
     if ok s \<and> seqno \<noteq> 0 then wm\<lparr>wm_first_record_cache := (number, seqno) # wm_first_record_cache wm\<rparr> else wm)"

definition read_archived ::
    "('e, 'f) Env \<Rightarrow> wal_conf \<Rightarrow> 'e \<Rightarrow> u64 \<Rightarrow> u64 \<Rightarrow> wal_manager \<Rightarrow> (status \<times> u64 \<times> wal_manager) option" where
  "read_archived ops conf e number seqno wm =
    (let archived_file = ArchivedLogFileName (wc_dir conf) number
     in case ReadFirstLine ops conf e archived_file number seqno of
          None \<Rightarrow> None
        | Some (s, seqno) \<Rightarrow>
            if \<not> ok s \<and> IsNotFound (env_FileExists ops e archived_file) then Some (Status_OK, seqno, wm)
            else Some (cache_first_record number s seqno wm))"

definition ReadFirstRecord ::
    "('e, 'f) Env \<Rightarrow> wal_conf \<Rightarrow> 'e \<Rightarrow> WalFileType \<Rightarrow> u64 \<Rightarrow> wal_manager \<Rightarrow> (status \<times> u64 \<times> wal_manager) option" where
  "ReadFirstRecord ops conf e typ number wm =
    (case map_of (wm_first_record_cache wm) number of
       Some seqno \<Rightarrow> Some (Status_OK, seqno, wm)
     | None \<Rightarrow>
         if typ = kAliveLogFile then
           let fname = LogFileName (wc_dir conf) number
           in case ReadFirstLine ops conf e fname number 0 of
                None \<Rightarrow> None
              | Some (s, seqno) \<Rightarrow>
                  if ok (env_FileExists ops e fname) \<and> \<not> ok s then Some (s, seqno, wm)
                  else if \<not> ok s then read_archived ops conf e number seqno wm
                  else Some (cache_first_record number s seqno wm)
         else read_archived ops conf e number 0 wm)"

text \<open>\<^verbatim>\<open>GetFileSize\<close> of a log that may have moved to the archive: \<open>Inr None\<close> when it has gone from there as well.\<close>

definition wal_file_size ::
    "('e, 'f) Env \<Rightarrow> 'e \<Rightarrow> string \<Rightarrow> WalFileType \<Rightarrow> u64 \<Rightarrow> status + u64 option" where
  "wal_file_size ops e path log_type number =
    (let archived_file = ArchivedLogFileName path number
     in case env_GetFileSize ops e (LogFileName path number) of
          Inr size_bytes \<Rightarrow> Inr (Some size_bytes)
        | Inl s \<Rightarrow>
            if log_type = kAliveLogFile \<and> ok (env_FileExists ops e archived_file) then
              (case env_GetFileSize ops e archived_file of
                 Inr size_bytes \<Rightarrow> Inr (Some size_bytes)
               | Inl s \<Rightarrow> if IsNotFound (env_FileExists ops e archived_file) then Inr None else Inl s)
            else Inl s)"

definition parse_start :: parsed_name where
  "parse_start = \<lparr>p_number = 0, p_type = kTempFile, p_log_type = kAliveLogFile\<rparr>"

text \<open>The loop over the names in a directory: the status, the logs in the order found, and the manager.\<close>

fun wals_loop ::
    "('e, 'f) Env \<Rightarrow> wal_conf \<Rightarrow> 'e \<Rightarrow> string \<Rightarrow> WalFileType \<Rightarrow> string list \<Rightarrow> LogFileImpl list \<Rightarrow> wal_manager \<Rightarrow>
     (status \<times> LogFileImpl list \<times> wal_manager) option" where
  "wals_loop ops conf e path log_type [] logs wm = Some (Status_OK, logs, wm)"
| "wals_loop ops conf e path log_type (f # fs) logs wm =
    (case ParseFileName f parse_start of (parsed, res) \<Rightarrow>
     if parsed \<and> p_type res = kLogFile then
       (case ReadFirstRecord ops conf e log_type (p_number res) wm of
          None \<Rightarrow> None
        | Some (s, seqno, wm) \<Rightarrow>
            if \<not> ok s then Some (s, logs, wm)
            else if seqno = 0 then wals_loop ops conf e path log_type fs logs wm
            else
              (case wal_file_size ops e path log_type (p_number res) of
                 Inl s \<Rightarrow> Some (s, logs, wm)
               | Inr None \<Rightarrow> wals_loop ops conf e path log_type fs logs wm
               | Inr (Some size_bytes) \<Rightarrow>
                   wals_loop ops conf e path log_type fs
                     (logs @ [\<lparr>lf_number = p_number res, lf_type = log_type, lf_start_sequence = seqno, lf_size = size_bytes\<rparr>]) wm))
     else wals_loop ops conf e path log_type fs logs wm)"

text \<open>\<open>srt\<close> is \<^verbatim>\<open>std::sort\<close> with \<^verbatim>\<open>CompareLogByPointer\<close>.\<close>

definition CompareLogByPointer :: "LogFileImpl \<Rightarrow> LogFileImpl \<Rightarrow> bool" where
  "CompareLogByPointer a b \<longleftrightarrow> lf_number a < lf_number b"

definition GetSortedWalsOfType ::
    "(LogFileImpl list \<Rightarrow> LogFileImpl list) \<Rightarrow> ('e, 'f) Env \<Rightarrow> wal_conf \<Rightarrow> 'e \<Rightarrow> string \<Rightarrow> WalFileType \<Rightarrow> wal_manager \<Rightarrow>
     (status \<times> LogFileImpl list \<times> wal_manager) option" where
  "GetSortedWalsOfType srt ops conf e path log_type wm =
    (case env_GetChildren ops e path of (status, all_files) \<Rightarrow>
     if \<not> ok status then Some (status, [], wm)
     else
       (case wals_loop ops conf e path log_type all_files [] wm of
          None \<Rightarrow> None
        | Some (s, logs, wm) \<Rightarrow> if \<not> ok s then Some (s, logs, wm) else Some (status, srt logs, wm)))"

definition merge_wals :: "LogFileImpl list \<Rightarrow> LogFileImpl list \<Rightarrow> LogFileImpl list" where
  "merge_wals files logs =
    (let latest_archived_log_number = (if files \<noteq> [] then lf_number (last files) else 0)
     in files @ filter (\<lambda>log. lf_number log > latest_archived_log_number) logs)"

text \<open>\<open>files\<close> is what the caller's vector holds before the call.\<close>

definition GetSortedWalFiles ::
    "(LogFileImpl list \<Rightarrow> LogFileImpl list) \<Rightarrow> ('e, 'f) Env \<Rightarrow> wal_conf \<Rightarrow> 'e \<Rightarrow> LogFileImpl list \<Rightarrow> wal_manager \<Rightarrow>
     (status \<times> LogFileImpl list \<times> wal_manager) option" where
  "GetSortedWalFiles srt ops conf e files wm =
    (case GetSortedWalsOfType srt ops conf e (wc_dir conf) kAliveLogFile wm of
       None \<Rightarrow> None
     | Some (s, logs, wm) \<Rightarrow>
         if \<not> ok s then Some (s, files, wm)
         else
           let archivedir = ArchivalDirectory (wc_dir conf); exists = env_FileExists ops e archivedir
           in if ok exists then
                (case GetSortedWalsOfType srt ops conf e archivedir kArchivedLogFile wm of
                   None \<Rightarrow> None
                 | Some (s, files, wm) \<Rightarrow>
                     if \<not> ok s then Some (s, files, wm) else Some (s, merge_wals files logs, wm))
              else if \<not> IsNotFound exists then Some (s, [], wm)
              else Some (s, merge_wals [] logs, wm))"

text \<open>The binary search: the value of \<^verbatim>\<open>end\<close> when its loop ends.\<close>

lemma mid_bounds: "start \<le> stop \<Longrightarrow> start \<le> start + (stop - start) div 2 \<and> start + (stop - start) div 2 \<le> (stop :: int)"
  by simp

function retain_search :: "LogFileImpl list \<Rightarrow> u64 \<Rightarrow> int \<Rightarrow> int \<Rightarrow> int" where
  "retain_search all_logs target_seq start stop =
    (if stop \<ge> start then
       let mid = start + (stop - start) div 2;
           current_seq_num = lf_start_sequence (all_logs ! nat mid)
       in if current_seq_num = target_seq then mid
          else if current_seq_num < target_seq then retain_search all_logs target_seq (mid + 1) stop
          else retain_search all_logs target_seq start (mid - 1)
     else stop)"
  by pat_completeness auto
termination
proof (relation "measure (\<lambda>(_, _, start, stop). nat (stop - start + 1))")
  fix all_logs :: "LogFileImpl list" and target_seq :: u64 and start stop mid :: int
  assume "stop \<ge> start" "mid = start + (stop - start) div 2"
  then have "start \<le> mid" "mid \<le> stop" using mid_bounds by simp_all
  then show "((all_logs, target_seq, mid + 1, stop), all_logs, target_seq, start, stop) \<in> measure (\<lambda>(_, _, start, stop). nat (stop - start + 1))"
    "((all_logs, target_seq, start, mid - 1), all_logs, target_seq, start, stop) \<in> measure (\<lambda>(_, _, start, stop). nat (stop - start + 1))"
    by simp_all
qed simp

declare retain_search.simps [simp del]

definition RetainProbableWalFiles :: "LogFileImpl list \<Rightarrow> u64 \<Rightarrow> LogFileImpl list" where
  "RetainProbableWalFiles all_logs target_seq =
    drop (nat (max 0 (retain_search all_logs target_seq 0 (int (length all_logs) - 1)))) all_logs"

text \<open>The logs that the iterator of \<^verbatim>\<open>GetUpdatesSince\<close> gets.\<close>

definition updates_since_files ::
    "(LogFileImpl list \<Rightarrow> LogFileImpl list) \<Rightarrow> ('e, 'f) Env \<Rightarrow> wal_conf \<Rightarrow> 'e \<Rightarrow> u64 \<Rightarrow> wal_manager \<Rightarrow>
     (status \<times> LogFileImpl list \<times> wal_manager) option" where
  "updates_since_files srt ops conf e seq wm =
    (case GetSortedWalFiles srt ops conf e [] wm of
       None \<Rightarrow> None
     | Some (s, files, wm) \<Rightarrow>
         if \<not> ok s then Some (s, files, wm) else Some (Status_OK, RetainProbableWalFiles files seq, wm))"

section \<open>Archived logs\<close>

definition ArchiveWALFile :: "('e, 'f) Env \<Rightarrow> wal_conf \<Rightarrow> string \<Rightarrow> u64 \<Rightarrow> 'e \<Rightarrow> 'e" where
  "ArchiveWALFile ops conf fname number e =
    snd (env_RenameFile ops e fname (ArchivedLogFileName (wc_dir conf) number))"

definition kDefaultIntervalToDeleteObsoleteWAL :: u64 where
  "kDefaultIntervalToDeleteObsoleteWAL = 600"

text \<open>A delete that erases the cache entry of the log when it succeeds.\<close>

definition delete_and_forget ::
    "('e, 'f) Env \<Rightarrow> string \<Rightarrow> u64 \<Rightarrow> 'e \<times> wal_manager \<Rightarrow> 'e \<times> wal_manager" where
  "delete_and_forget ops path number st =
    (case st of (e, wm) \<Rightarrow>
     case env_DeleteFile ops e path of (s, e) \<Rightarrow> (e, if ok s then cache_erase number wm else wm))"

text \<open>
  The first pass over the archive: whether it returned early, the environment and the manager, the number of non-empty
  logs that are kept and the size of the largest.
\<close>

fun purge_loop ::
    "('e, 'f) Env \<Rightarrow> wal_conf \<Rightarrow> string \<Rightarrow> u64 \<Rightarrow> string list \<Rightarrow> ('e \<times> wal_manager) \<Rightarrow> nat \<Rightarrow> u64 \<Rightarrow>
     bool \<times> ('e \<times> wal_manager) \<times> nat \<times> u64" where
  "purge_loop ops conf archival_dir now_seconds [] st log_files_num log_file_size = (False, st, log_files_num, log_file_size)"
| "purge_loop ops conf archival_dir now_seconds (f # fs) st log_files_num log_file_size =
    (case ParseFileName f parse_start of (parsed, res) \<Rightarrow>
     if parsed \<and> p_type res = kLogFile then
       let file_path = archival_dir @ ''/'' @ f;
           m_time = env_GetFileModificationTime ops (fst st) file_path
       in if wc_ttl_seconds conf > 0 \<and> (case m_time of Inl _ \<Rightarrow> True | Inr _ \<Rightarrow> False) then
            purge_loop ops conf archival_dir now_seconds fs st log_files_num log_file_size
          else if wc_ttl_seconds conf > 0 \<and>
              (case m_time of Inl _ \<Rightarrow> False | Inr file_m_time \<Rightarrow> now_seconds - file_m_time > wc_ttl_seconds conf) then
            purge_loop ops conf archival_dir now_seconds fs (delete_and_forget ops file_path (p_number res) st)
              log_files_num log_file_size
          else if wc_size_limit_mb conf > 0 then
            (case env_GetFileSize ops (fst st) file_path of
               Inl s \<Rightarrow> (True, st, log_files_num, log_file_size)
             | Inr file_size \<Rightarrow>
                 if file_size > 0 then
                   purge_loop ops conf archival_dir now_seconds fs st (log_files_num + 1) (max log_file_size file_size)
                 else
                   purge_loop ops conf archival_dir now_seconds fs (delete_and_forget ops file_path (p_number res) st)
                     log_files_num log_file_size)
          else purge_loop ops conf archival_dir now_seconds fs st log_files_num log_file_size
     else purge_loop ops conf archival_dir now_seconds fs st log_files_num log_file_size)"

text \<open>The second pass: the oldest archived logs above the limit.\<close>

definition purge_oldest ::
    "(LogFileImpl list \<Rightarrow> LogFileImpl list) \<Rightarrow> ('e, 'f) Env \<Rightarrow> wal_conf \<Rightarrow> string \<Rightarrow> nat \<Rightarrow> 'e \<times> wal_manager \<Rightarrow>
     ('e \<times> wal_manager) option" where
  "purge_oldest srt ops conf archival_dir files_del_num st =
    (case GetSortedWalsOfType srt ops conf (fst st) archival_dir kArchivedLogFile (snd st) of
       None \<Rightarrow> None
     | Some (_, archived_logs, wm) \<Rightarrow>
         let files_del_num = (if files_del_num > length archived_logs then length archived_logs else files_del_num)
         in Some (fold (\<lambda>l. delete_and_forget ops (wc_dir conf @ ''/'' @ LogFile_PathName l) (lf_number l))
                    (take files_del_num archived_logs) (fst st, wm)))"

definition PurgeObsoleteWALFiles ::
    "(LogFileImpl list \<Rightarrow> LogFileImpl list) \<Rightarrow> ('e, 'f) Env \<Rightarrow> wal_conf \<Rightarrow> 'e \<times> wal_manager \<Rightarrow> ('e \<times> wal_manager) option" where
  "PurgeObsoleteWALFiles srt ops conf st =
    (let ttl_enabled = wc_ttl_seconds conf > 0; size_limit_enabled = wc_size_limit_mb conf > 0
     in if \<not> ttl_enabled \<and> \<not> size_limit_enabled then Some st
        else
          case env_GetCurrentTime ops (fst st) of (s, current_time) \<Rightarrow>
          if \<not> ok s then Some st
          else
            let now_seconds = word_of_int current_time;
                time_to_check = (if ttl_enabled \<and> \<not> size_limit_enabled then wc_ttl_seconds conf div 2
                                 else kDefaultIntervalToDeleteObsoleteWAL)
            in if wm_purge_last_run (snd st) + time_to_check > now_seconds then Some st
               else
                 let st = (fst st, (snd st)\<lparr>wm_purge_last_run := now_seconds\<rparr>);
                     archival_dir = ArchivalDirectory (wc_dir conf)
                 in case env_GetChildren ops (fst st) archival_dir of (s, files) \<Rightarrow>
                    if \<not> ok s then Some st
                    else
                      case purge_loop ops conf archival_dir now_seconds files st 0 0 of
                        (returned, st, log_files_num, log_file_size) \<Rightarrow>
                      if returned \<or> log_files_num = 0 \<or> \<not> size_limit_enabled then Some st
                      else
                        let files_keep_num = unat (wc_size_limit_mb conf * 1024 * 1024 div log_file_size)
                        in if log_files_num \<le> files_keep_num then Some st
                           else purge_oldest srt ops conf archival_dir (log_files_num - files_keep_num) st)"

section \<open>The key in a log record\<close>

lemma digit_not_space: "is_digit c \<Longrightarrow> \<not> is_space c"
  by (auto simp: is_digit_def is_space_def)

lemma digit_not_sign: "is_digit c \<Longrightarrow> c \<noteq> CHR ''-'' \<and> c \<noteq> CHR ''+''"
  by (auto simp: is_digit_def)

lemma stoll_digits:
  assumes "s \<noteq> []" "\<forall>c \<in> set s. is_digit c" "digits_from 0 s < 2 ^ 63"
  shows "stoll s = Inr (int (digits_from 0 s))"
proof -
  obtain c cs where s: "s = c # cs" using assms(1) by (cases s) auto
  have c: "is_digit c" "\<not> is_space c" "c \<noteq> CHR ''-''" "c \<noteq> CHR ''+''"
    using assms(2) digit_not_space [of c] digit_not_sign [of c] by (auto simp: s)
  have t: "takeWhile is_digit cs = cs" using assms(2) by (simp add: s)
  have d: "dropWhile is_space s = s" using c(2) by (simp add: s)
  have v: "int (digits_from 0 s) < 2 ^ 63" using assms(3) by (metis of_nat_less_iff of_nat_numeral of_nat_power)
  show ?thesis using c v assms(1) unfolding stoll_def d by (simp add: s Let_def t)
qed

lemma key_string_digits: "\<forall>c \<in> set (key_string key). is_digit c"
  using decimal_digits by (auto simp: key_string_def is_digit_def)

lemma length_key_string: "unat key < 10 ^ 8 \<Longrightarrow> length (key_string key) = 8"
  using length_decimal [of "unat key" 7] by (simp add: key_string_def)

lemma char_of_string_slice: "map (\<lambda>b. char_of (unat b)) (string_slice s) = s"
  by (simp add: string_slice_def comp_def unat_of_char)

text \<open>The operations of the instances: a put or a delete of a key in the default column family.\<close>

definition leads_with :: "wb_op \<Rightarrow> u64 \<Rightarrow> bool" where
  "leads_with x key \<longleftrightarrow> (\<exists>v. x = OpPut 0 (key_slice key) v) \<or> x = OpDelete 0 (key_slice key)"

lemma enc_leads_with:
  assumes "leads_with x key" "unat key < 10 ^ 8"
  shows "\<exists>t n rest. enc_op x = t # n # key_slice key @ rest"
proof -
  have "length (key_slice key) = 8" using length_key_string [OF assms(2)] by (simp add: key_slice_def string_slice_def)
  then have "enc_slice (key_slice key) = 8 # key_slice key"
    by (simp add: PutLengthPrefixedSlice_def PutVarint32_def EncodeVarint32_def)
  then show ?thesis using assms(1) by (auto simp: leads_with_def enc_tag_def)
qed

lemma topk_key_group:
  assumes "list_all2 writer_ops ws xss" "concat xss = x # xs" "leads_with x key" "unat key < 10 ^ 8"
  shows "topk_key (group_record ws seq) = Inr key"
proof -
  obtain a where a: "wb_rel (MergeBatch ws) a" "a_ops a = concat xss" using MergeBatch_rel [OF assms(1)] by blast
  obtain hdr where h: "length hdr = kHeader" "rep (SetSequence (MergeBatch ws) seq) = hdr @ enc_ops (a_ops a)"
    by (rule rel_header [OF SetSequence_rel [OF a(1)]])
  obtain t n rest where e: "enc_op x = t # n # key_slice key @ rest" using enc_leads_with [OF assms(3,4)] by blast
  have len: "length (key_slice key) = 8" using length_key_string [OF assms(4)] by (simp add: key_slice_def string_slice_def)
  have rec: "group_record ws seq = (hdr @ [t, n]) @ key_slice key @ rest @ enc_ops xs"
    using h(2) a(2) assms(2) e by (simp add: group_record_def)
  have drop: "drop 14 (group_record ws seq) = key_slice key @ rest @ enc_ops xs"
    unfolding rec using h(1) by (subst drop_append) (simp add: kHeader_def)
  have "stoll (key_string key) = Inr (int (unat key))"
  proof -
    have "key_string key \<noteq> []" by (simp add: key_string_def)
    from stoll_digits [OF this key_string_digits] show ?thesis using assms(4) by (simp add: key_string_value)
  qed
  moreover have "map (\<lambda>b. char_of (unat b)) (take 8 (drop 14 (group_record ws seq))) = key_string key"
    using len char_of_string_slice [of "key_string key"] by (simp add: drop key_slice_def)
  moreover have "\<not> length (group_record ws seq) < 22" using h(1) len by (simp add: rec kHeader_def)
  ultimately show ?thesis by (simp add: topk_key_def)
qed

section \<open>A log that the write path wrote\<close>

definition feed :: "u64 list \<Rightarrow> wal_manager \<Rightarrow> wal_manager" where
  "feed keys wm = wm\<lparr>wm_total_records := wm_total_records wm + word_of_nat (length keys),
    wm_space_saving := process_all keys (wm_space_saving wm)\<rparr>"

lemma feed_Cons:
  "feed keys (wm\<lparr>wm_total_records := wm_total_records wm + 1, wm_space_saving := ProcessKey (wm_space_saving wm) key\<rparr>) =
    feed (key # keys) wm"
  by (simp add: feed_def process_all_def)

lemma group_records_keys:
  assumes "groups_ok wss opss"
    "list_all2 (\<lambda>xss key. \<exists>x xs. concat xss = x # xs \<and> leads_with x key \<and> unat key < 10 ^ 8) opss keys"
  shows "list_all2 (\<lambda>d key. \<not> length d < kHeader \<and> topk_key d = Inr key) (group_records n wss opss) keys"
  using assms
proof (induction n wss opss arbitrary: keys rule: group_records.induct)
  case (1 n ws wss xss opss)
  obtain key keys' where k: "keys = key # keys'" using 1(3) by (auto simp: list_all2_Cons1)
  have ws: "list_all2 writer_ops ws xss" "groups_ok wss opss" using 1(2) by (auto simp: groups_ok_def)
  show ?case
    using 1(1) [OF ws(2), of keys'] 1(3) topk_key_group [OF ws(1)] record_length [OF ws(1)] by (auto simp: k)
qed (auto simp: groups_ok_def)

context seq_source
begin

lemma topk_loop_reads:
  assumes "reader_at rest F P r" "drop P F = log_bytes rc num P ds" "reads_number rc num r"
    "list_all2 (\<lambda>d key. \<not> length d < kHeader \<and> topk_key d = Inr key) ds keys"
  shows "topk_loop rd r wm = Some (None, feed keys wm)"
  using assms
proof (induction ds arbitrary: P r keys wm)
  case Nil
  have "P = length F" by (rule reader_at_all [OF Nil(1)]) (simp add: Nil(2))
  with Nil(1) have "reader_at rest F (length F) r" by simp
  then obtain r' where "ReadPhysicalRecord rd r 0 = Some (kEof, [], 0, r')" "same_reader r r'"
    by (rule phys_at_end [of F r 0])
  then show ?case
    using loop_ends [of r kEof "[]" 0 r' kTolerateCorruptedTailRecords False "[]" 0] Nil(4)
    by (simp add: topk_loop.simps [of rd r wm] ReadRecord_def feed_def process_all_def)
next
  case (Cons d ds)
  let ?b = "record_bytes rc num P True d"
  have F: "drop P F = ?b @ log_bytes rc num (P + length ?b) ds" using Cons.prems(2) by (simp add: Let_def)
  obtain sc q where q: "ReadRecord rd kTolerateCorruptedTailRecords r = Some (True, d, sc, q)" "reader_at rest F (P + length ?b) q"
    "same_reader r q"
    using read_record [OF Cons.prems(1) F _ Cons.prems(3), of kTolerateCorruptedTailRecords "[]" 0] by (auto simp: ReadRecord_def)
  have F': "drop (P + length ?b) F = log_bytes rc num (P + length ?b) ds"
    using arg_cong [OF F, of "drop (length ?b)"] by (simp add: add.commute)
  obtain key keys' where k: "keys = key # keys'" "\<not> length d < kHeader" "topk_key d = Inr key"
    "list_all2 (\<lambda>d key. \<not> length d < kHeader \<and> topk_key d = Inr key) ds keys'"
    using Cons.prems(4) by (auto simp: list_all2_Cons1)
  have "d \<noteq> []" using k(2) by (auto simp: kHeader_def)
  then have "topk_loop rd r wm =
      topk_loop rd q (wm\<lparr>wm_total_records := wm_total_records wm + 1, wm_space_saving := ProcessKey (wm_space_saving wm) key\<rparr>)"
    using k(2,3) by (simp add: topk_loop.simps [of rd r wm] q(1))
  then show ?case
    using Cons.IH [OF q(2) F' reads_number_same [OF q(3) Cons.prems(3)] k(4)] by (simp only: feed_Cons k(1))
qed

end

context file_env
begin

lemma genTopk_log:
  assumes "valid e" "files e (LogFileName (wc_dir conf) lg) = Some (log_bytes rc lg 0 ds)" "rc \<longrightarrow> unat lg < 2 ^ 32"
    "list_all2 (\<lambda>d key. \<not> length d < kHeader \<and> topk_key d = Inr key) ds keys"
  shows "genTopkForPartitioner ops conf e lg wm = Some (Inr Status_OK, feed keys wm)"
proof -
  obtain f where f: "env_NewSequentialFile ops e (LogFileName (wc_dir conf) lg) = Inr f" "rest f = log_bytes rc lg 0 ds"
    using open_file [OF assms(1,2)] by blast
  have at: "reader_at rest (rest f) 0 (Reader_new f (Some []) True lg False)" by (simp add: reader_at_def Reader_new_def)
  have "topk_loop (env_Read ops) (Reader_new f (Some []) True lg False) wm = Some (None, feed keys wm)"
    by (rule src.topk_loop_reads [OF at _ reads_number_new [OF assms(3)] assms(4)]) (simp add: f(2))
  then show ?thesis by (simp add: genTopkForPartitioner_def f(1))
qed

end

lemma heavy_keys_monitored:
  assumes "num_items s = 0" "0 < length (freq_array s)" "length xs < 2 ^ 64" "length xs div length (freq_array s) < count_list xs k"
  shows "\<exists>n. (k, n) \<in> set (entries (process_all xs s)) \<and> count_list xs k \<le> unat n \<and>
    unat n \<le> count_list xs k + length xs div length (freq_array s)"
proof -
  have inv: "ss_inv xs (process_all xs s)" and len: "length (freq_array (process_all xs s)) = length (freq_array s)"
    using process_all_inv [OF assms(1-3)] by simp_all
  have b: "slack (process_all xs s) \<le> length xs div length (freq_array s)"
    using slack_le [OF inv] assms(2) by (simp add: len)
  have "k \<in> fst ` set (entries (process_all xs s))"
    using inv b assms(4) unfolding ss_inv_def by (meson leD order_trans)
  then obtain n where "(k, n) \<in> set (entries (process_all xs s))" by auto
  then show ?thesis using inv b by (fastforce simp: ss_inv_def)
qed

text \<open>
  C4: From the writes to the report. A new database executes any sequence of write groups, each of which starts with
  a put or a delete of an instance's key below \<open>10\<^sup>8\<close>, and its log is then deleted as obsolete. That reads the log to
  its end, feeds the first key of every group to the summary, in order and nothing else, and deletes the file. If the
  summary was empty before, every key that led more groups than the number of groups divided by the capacity is in the
  summary after it, with a frequency that is too high by at most that quotient.
\<close>

theorem obsolete_log_feeds_summary:
  assumes db: "database env c elems active good held sound" and new: "active r" "elems r = {#}" "sound d" "held d = []"
    and fe: "file_env ops rest valid files canon"
    and wss: "groups_ok wss opss" "num_entries (all_ops opss) < 2 ^ 56" "plain_options wo"
    and keys: "list_all2 (\<lambda>xss key. \<exists>x xs. concat xss = x # xs \<and> leads_with x key \<and> unat key < 10 ^ 8) opss keys"
    and db0: "db0 = DB_new (MemTable_new r r' l) (Writer_new d lg rc manual)" and lg: "rc \<longrightarrow> unat lg < 2 ^ 32"
    and e: "valid e" "fname = LogFileName (wc_dir conf) lg" "files e fname = Some (held (dest (db_log (write_groups env wo wss db0))))"
    and empty: "num_items (wm_space_saving wm) = 0" "0 < length (freq_array (wm_space_saving wm))" "length wss < 2 ^ 64"
  shows "\<exists>e' wm'. DeleteObsoleteLog ops conf fname lg e wm = Some (Inr Status_OK, e', wm') \<and> files e' fname = None \<and>
    wm_space_saving wm' = process_all keys (wm_space_saving wm) \<and>
    (\<forall>key. length wss div length (freq_array (wm_space_saving wm)) < count_list keys key \<longrightarrow>
       (\<exists>n. (key, n) \<in> set (entries (wm_space_saving wm')) \<and> count_list keys key \<le> unat n \<and>
          unat n \<le> count_list keys key + length wss div length (freq_array (wm_space_saving wm))))"
proof -
  have at0: "db_at c elems active held sound db0 [] 0" unfolding db0 by (rule DB_new_at) (fact new)+
  have w0: "recycle_log_files (db_log db0) = rc" "log_number (db_log db0) = lg" "held (dest (db_log db0)) = []"
    by (simp_all add: db0 DB_new_def Writer_new_def new)
  have bytes: "held (dest (db_log (write_groups env wo wss db0))) = log_bytes rc lg 0 (group_records 0 wss opss)"
    using database.write_groups_ok [OF db wss(1) at0 wss(3)] wss(2) by (simp add: w0)
  have len: "length keys = length wss" using keys wss(1) by (auto simp: groups_ok_def dest!: list_all2_lengthD)
  have gen: "genTopkForPartitioner ops conf e lg wm = Some (Inr Status_OK, feed keys wm)"
    by (rule file_env.genTopk_log [OF fe e(1) _ lg group_records_keys [OF wss(1) keys]])
      (use e(2,3) bytes in simp)
  obtain e' where e': "env_DeleteFile ops e fname = (Status_OK, e')" "files e' fname = None"
    using file_env.delete_file [OF fe e(1,3)] by auto
  have sum: "wm_space_saving (feed keys wm) = process_all keys (wm_space_saving wm)" by (simp add: feed_def)
  show ?thesis
    using heavy_keys_monitored [OF empty(1,2), of keys] empty(3) gen e'
    by (intro exI [of _ e'] exI [of _ "feed keys wm"]) (simp add: DeleteObsoleteLog_def sum len)
qed

text \<open>An in-memory environment with one file.\<close>

lemma mock_env_with_file: "\<exists>e. mock_valid e \<and> contents e p = Some d"
proof -
  obtain a e where e: "NewWritableFile (MockEnv_new 0) p = (Inr a, e)" using NewWritableFile_Inr by blast
  have ok: "env_ok {#a#} e" by (rule env_ok_writable [OF env_ok_new e])
  have "contents (snd (object_Append a d e)) p = Some d"
    using e by (auto simp: NewWritableFile_def MockEnv_new_def put_new_def MemFile_new_def MemFile_Ref_def update_object_def
        object_Append_def MemFile_Append_def contents_def object_data_def Let_def)
  moreover have "mock_valid (snd (object_Append a d e))"
    using env_step_ok [OF step_append [of a "{#a#}" e d]] ok unfolding mock_valid_def by auto
  ultimately show ?thesis by blast
qed

theorem obsolete_log_feeds_summary_witness:
  "\<exists>e e' wm'. DeleteObsoleteLog MockEnv_ops
      \<lparr>wc_dir = ''/wal'', wc_paranoid_checks = True, wc_ttl_seconds = 0, wc_size_limit_mb = 0\<rparr> (LogFileName ''/wal'' 7) 7 e WalManager_new =
      Some (Inr Status_OK, e', wm') \<and> contents e' (LogFileName ''/wal'' 7) = None \<and>
    wm_space_saving wm' = process_all [5, 5] SpaceSaving_new"
proof -
  let ?wss = "[[put_writer (key_slice 5) [1], put_writer [3] [4]], [delete_writer (key_slice 5)]]"
  let ?opss = "[[[OpPut 0 (key_slice 5) [1]], [OpPut 0 [3] [4]]], [[OpDelete 0 (key_slice 5)]]]"
  let ?conf = "\<lparr>wc_dir = ''/wal'', wc_paranoid_checks = True, wc_ttl_seconds = 0, wc_size_limit_mb = 0\<rparr>"
  have k: "length (key_slice 5) \<le> 20" by (rule length_key_slice)
  have wss: "groups_ok ?wss ?opss"
    using k by (simp add: groups_ok_def group_sizes_def op_sizes_def sizes_ok_def put_writer_ops delete_writer_ops num_entries_def
        value_type_defs)
  have n: "num_entries (all_ops ?opss) < 2 ^ 56" by (simp add: all_ops_def num_entries_def)
  have wo: "plain_options WriteOptions_default" by (simp add: plain_options_def WriteOptions_default_def)
  have keys: "list_all2 (\<lambda>xss key. \<exists>x xs. concat xss = x # xs \<and> leads_with x key \<and> unat key < 10 ^ 8) ?opss [5, 5]"
    by (simp add: leads_with_def)
  have v: "vector_active VectorRep_new" "mset (vr_bucket VectorRep_new) = {#}" by (simp_all add: vector_active_def VectorRep_new_def)
  obtain e where e: "mock_valid e" "contents e (LogFileName ''/wal'' 7) =
      Some (wfw_held (\<lambda>f. mf_data (wf_derived f)) (dest (db_log (write_groups mock_env WriteOptions_default ?wss mock_db))))"
    using mock_env_with_file by blast
  have s: "num_items (wm_space_saving WalManager_new) = 0" "0 < length (freq_array (wm_space_saving WalManager_new))"
    "wm_space_saving WalManager_new = SpaceSaving_new"
    by (simp_all add: WalManager_new_def SpaceSaving_new_def ss_init_def ss_m_def)
  have rc: "False \<longrightarrow> unat (7 :: u64) < 2 ^ 32" by simp
  have fn: "LogFileName ''/wal'' 7 = LogFileName (wc_dir ?conf) 7" by simp
  have len: "length ?wss < 2 ^ 64" by simp
  note f1 = obsolete_log_feeds_summary [OF mockdb.database_axioms v new_mock_log mockenv.file_env_axioms]
  note f2 = f1 [where wss = ?wss and opss = ?opss and keys = "[5, 5]" and conf = ?conf and lg = 7 and e = e and wm = WalManager_new
      and fname = "LogFileName ''/wal'' 7" and rc = False and manual = False and ?db0.0 = mock_db and wo = WriteOptions_default
      and l = 0 and r' = VectorRep_new]
  note f = f2 [OF wss n wo keys mock_db_def rc e(1) fn e(2) s(1,2) len]
  have "\<exists>e' wm'. DeleteObsoleteLog MockEnv_ops ?conf (LogFileName ''/wal'' 7) 7 e WalManager_new = Some (Inr Status_OK, e', wm') \<and>
    contents e' (LogFileName ''/wal'' 7) = None \<and> wm_space_saving wm' = process_all [5, 5] (wm_space_saving WalManager_new)"
    using f by blast
  then show ?thesis unfolding s(3) by blast
qed

section \<open>The search for the first log\<close>

text \<open>The search stops at the last log that starts at or before the target, or before the first log.\<close>

definition starts_ascending :: "LogFileImpl list \<Rightarrow> bool" where
  "starts_ascending logs \<longleftrightarrow> sorted_wrt (\<lambda>a b. lf_start_sequence a < lf_start_sequence b) logs"

abbreviation start_at :: "LogFileImpl list \<Rightarrow> nat \<Rightarrow> u64" where
  "start_at logs i \<equiv> lf_start_sequence (logs ! i)"

lemma starts_le:
  assumes "starts_ascending logs" "i \<le> j" "j < length logs"
  shows "start_at logs i \<le> start_at logs j"
  using assms by (cases "i = j") (auto simp: starts_ascending_def sorted_wrt_iff_nth_less intro: less_imp_le)

lemma retain_search_split:
  assumes "starts_ascending logs" "0 \<le> start" "stop < int (length logs)" "start \<le> stop + 1"
    and "\<forall>i < length logs. int i < start \<longrightarrow> start_at logs i \<le> t"
    and "\<forall>i < length logs. stop < int i \<longrightarrow> t < start_at logs i"
  shows "- 1 \<le> retain_search logs t start stop \<and> retain_search logs t start stop < int (length logs) \<and>
    (\<forall>i < length logs. start_at logs i \<le> t \<longleftrightarrow> int i \<le> retain_search logs t start stop)"
  using assms
proof (induction logs t start stop rule: retain_search.induct)
  case (1 logs t start stop)
  note IH = 1(1,2) and asm = 1(3-8)
  show ?case
  proof (cases "stop \<ge> start")
    case False
    then have stop: "retain_search logs t start stop = stop" "start = stop + 1"
      using asm(4) by (simp_all add: retain_search.simps [of logs t start stop])
    have "start_at logs i \<le> t \<longleftrightarrow> int i \<le> stop" if "i < length logs" for i
      using asm(5,6) that stop(2) by (cases "int i \<le> stop") (auto simp: not_le)
    then show ?thesis using asm(2,3) stop by simp
  next
    case True
    let ?mid = "start + (stop - start) div 2"
    have mid: "start \<le> ?mid" "?mid \<le> stop" "nat ?mid < length logs" "0 \<le> ?mid" using mid_bounds [OF True] asm(2,3) by auto
    have le: "start_at logs i \<le> start_at logs (nat ?mid)" if "i < length logs" "int i \<le> ?mid" for i
      using that mid(3) by (intro starts_le [OF asm(1)]) auto
    have ge: "start_at logs (nat ?mid) < start_at logs i" if "i < length logs" "?mid < int i" for i
      using asm(1) that mid(4) by (auto simp: starts_ascending_def sorted_wrt_iff_nth_less nat_less_iff)
    consider (hit) "start_at logs (nat ?mid) = t" | (low) "start_at logs (nat ?mid) < t" | (high) "t < start_at logs (nat ?mid)"
      by fastforce
    then show ?thesis
    proof cases
      case hit
      then have r: "retain_search logs t start stop = ?mid" using True by (simp add: retain_search.simps [of logs t start stop] Let_def)
      have "start_at logs i \<le> t \<longleftrightarrow> int i \<le> ?mid" if "i < length logs" for i
        using le [OF that] ge [OF that] hit by (cases "int i \<le> ?mid") (auto simp: not_le)
      then show ?thesis unfolding r using mid asm(3) by simp
    next
      case low
      then have r: "retain_search logs t start stop = retain_search logs t (?mid + 1) stop"
        using True less_imp_neq [OF low] by (simp add: retain_search.simps [of logs t start stop] Let_def)
      have "\<forall>i < length logs. int i < ?mid + 1 \<longrightarrow> start_at logs i \<le> t" using le low by fastforce
      then show ?thesis unfolding r by (intro IH(1) [OF True refl refl _ low asm(1) _ asm(3) _ _ asm(6)]) (use low mid in auto)
    next
      case high
      then have r: "retain_search logs t start stop = retain_search logs t start (?mid - 1)"
        using True by (auto simp: retain_search.simps [of logs t start stop] Let_def)
      have h: "t < start_at logs i" if "i < length logs" "?mid - 1 < int i" for i
      proof (cases "int i = ?mid")
        case True
        then have "i = nat ?mid" by simp
        then show ?thesis using high by simp
      next
        case False
        then show ?thesis using less_trans [OF high ge [OF that(1)]] that(2) by simp
      qed
      then have "\<forall>i < length logs. ?mid - 1 < int i \<longrightarrow> t < start_at logs i" by blast
      then show ?thesis unfolding r by (intro IH(2) [OF True refl refl _ _ asm(1,2) _ _ asm(5)]) (use high mid asm(3) in auto)
    qed
  qed
qed

lemma retain_search_all:
  assumes "starts_ascending logs"
  shows "filter (\<lambda>l. lf_start_sequence l \<le> t) logs = take (nat (retain_search logs t 0 (int (length logs) - 1) + 1)) logs"
    "- 1 \<le> retain_search logs t 0 (int (length logs) - 1)"
proof -
  let ?r = "retain_search logs t 0 (int (length logs) - 1)"
  have r: "- 1 \<le> ?r" "?r < int (length logs)" "\<And>i. i < length logs \<Longrightarrow> start_at logs i \<le> t \<longleftrightarrow> int i \<le> ?r"
    using retain_search_split [OF assms, of 0 "int (length logs) - 1" t] by auto
  show "- 1 \<le> ?r" by (rule r(1))
  let ?n = "nat (?r + 1)"
  have "filter (\<lambda>l. lf_start_sequence l \<le> t) (take ?n logs) = take ?n logs"
    using r(1,3) by (intro filter_True) (auto simp: in_set_conv_nth)
  moreover have "filter (\<lambda>l. lf_start_sequence l \<le> t) (drop ?n logs) = []"
  proof -
    have "\<not> lf_start_sequence l \<le> t" if l: "l \<in> set (drop ?n logs)" for l
    proof -
      obtain i where i: "i < length (drop ?n logs)" "l = drop ?n logs ! i" using l unfolding in_set_conv_nth by blast
      then have i: "?n + i < length logs" "l = logs ! (?n + i)" by (simp_all add: less_diff_conv add.commute)
      then show ?thesis using r(3) [of "?n + i"] r(1) by auto
    qed
    then show ?thesis by (simp add: filter_empty_conv)
  qed
  ultimately show "filter (\<lambda>l. lf_start_sequence l \<le> t) logs = take ?n logs"
    using filter_append [of "\<lambda>l. lf_start_sequence l \<le> t" "take ?n logs" "drop ?n logs"] by simp
qed

text \<open>
  C38: For logs in the order of their first sequence numbers the binary search ends and \<^verbatim>\<open>RetainProbableWalFiles\<close>
  keeps exactly the logs from the last one that starts at or before the target on, and all of them when there is
  none: a log is dropped only if the next one starts at or before the target, so that no update from the target on
  is lost, and the last log is always kept.
\<close>

theorem retain_probable_wal_files:
  assumes "starts_ascending logs"
  shows "RetainProbableWalFiles logs t = drop (length (filter (\<lambda>l. lf_start_sequence l \<le> t) logs) - 1) logs \<and>
    (logs \<noteq> [] \<longrightarrow> RetainProbableWalFiles logs t \<noteq> [] \<and> last (RetainProbableWalFiles logs t) = last logs)"
proof -
  note r = retain_search_all [OF assms, of t]
  let ?r = "retain_search logs t 0 (int (length logs) - 1)"
  have "?r < int (length logs)"
    using retain_search_split [OF assms, of 0 "int (length logs) - 1" t] by auto
  then have "length (filter (\<lambda>l. lf_start_sequence l \<le> t) logs) - 1 = nat (max 0 ?r)" "logs \<noteq> [] \<longrightarrow> nat (max 0 ?r) < length logs"
    using r(2) unfolding r(1) by (auto simp: max_def)
  then show ?thesis by (auto simp: RetainProbableWalFiles_def)
qed

definition demo_logs :: "LogFileImpl list" where
  "demo_logs = map (\<lambda>(n, q). \<lparr>lf_number = n, lf_type = kAliveLogFile, lf_start_sequence = q, lf_size = 100\<rparr>) [(4, 1), (6, 10), (9, 25)]"

theorem retain_probable_wal_files_witness:
  "map lf_number (RetainProbableWalFiles demo_logs 12) = [6, 9] \<and> last (RetainProbableWalFiles demo_logs 12) = last demo_logs"
  using retain_probable_wal_files [of demo_logs 12] by (simp add: starts_ascending_def demo_logs_def)

section \<open>The list of logs\<close>

text \<open>What \<^verbatim>\<open>std::sort\<close> promises for logs; equal numbers may come in any order.\<close>

locale log_sort =
  fixes srt :: "LogFileImpl list \<Rightarrow> LogFileImpl list"
  assumes set_logs: "mset (srt xs) = mset xs"
    and sorted_logs: "sorted_wrt (\<lambda>a b. \<not> CompareLogByPointer b a) (srt xs)"

interpretation number_sort: log_sort "sort_key lf_number"
proof
  show "mset (sort_key lf_number xs) = mset xs" for xs by simp
  have "sorted (map lf_number (sort_key lf_number xs))" for xs by simp
  then show "sorted_wrt (\<lambda>a b. \<not> CompareLogByPointer b a) (sort_key lf_number xs)" for xs
    by (simp add: sorted_map CompareLogByPointer_def not_less)
qed

lemma wals_loop_type:
  assumes "wals_loop ops conf e path typ fs logs wm = Some (s, logs', wm')" "\<forall>l \<in> set logs. lf_type l = typ"
  shows "\<forall>l \<in> set logs'. lf_type l = typ"
  using assms
proof (induction fs arbitrary: logs wm)
  case (Cons f fs)
  obtain parsed res where p: "ParseFileName f parse_start = (parsed, res)" by (metis surj_pair)
  show ?case
  proof (cases "parsed \<and> p_type res = kLogFile")
    case True
    obtain s1 q wm1 where r: "ReadFirstRecord ops conf e typ (p_number res) wm = Some (s1, q, wm1)"
      using Cons.prems(1) p True by (cases "ReadFirstRecord ops conf e typ (p_number res) wm") auto
    let ?log = "\<lambda>n. \<lparr>lf_number = p_number res, lf_type = typ, lf_start_sequence = q, lf_size = n\<rparr>"
    have eq: "(if \<not> ok s1 then Some (s1, logs, wm1) else if q = 0 then wals_loop ops conf e path typ fs logs wm1
        else case wal_file_size ops e path typ (p_number res) of Inl s \<Rightarrow> Some (s, logs, wm1)
          | Inr None \<Rightarrow> wals_loop ops conf e path typ fs logs wm1
          | Inr (Some n) \<Rightarrow> wals_loop ops conf e path typ fs (logs @ [?log n]) wm1) = Some (s, logs', wm')"
      using Cons.prems(1) p True r by simp
    consider "logs' = logs" | "wals_loop ops conf e path typ fs logs wm1 = Some (s, logs', wm')"
      | n where "wals_loop ops conf e path typ fs (logs @ [?log n]) wm1 = Some (s, logs', wm')"
      using eq by (auto split: if_splits sum.splits option.splits)
    then show ?thesis
    proof cases
      case 1
      then show ?thesis using Cons.prems(2) by simp
    next
      case 2
      then show ?thesis by (rule Cons.IH [OF _ Cons.prems(2)])
    next
      case (3 n)
      then show ?thesis by (rule Cons.IH) (use Cons.prems(2) in simp)
    qed
  next
    case False
    then have "wals_loop ops conf e path typ fs logs wm = Some (s, logs', wm')" using Cons.prems(1) p by (auto split: if_splits)
    then show ?thesis using Cons.IH Cons.prems(2) by blast
  qed
qed simp

context log_sort
begin

lemma GetSortedWalsOfType_sorted:
  assumes "GetSortedWalsOfType srt ops conf e path typ wm = Some (s, logs, wm')" "ok s"
  shows "sorted_wrt (\<lambda>a b. lf_number a \<le> lf_number b) logs \<and> (\<forall>l \<in> set logs. lf_type l = typ)"
proof -
  obtain st fs where c: "env_GetChildren ops e path = (st, fs)" by (metis surj_pair)
  then obtain s1 ls where l: "wals_loop ops conf e path typ fs [] wm = Some (s1, ls, wm')" "logs = srt ls"
    using assms by (auto simp: GetSortedWalsOfType_def split: option.splits if_splits)
  have "\<forall>l \<in> set ls. lf_type l = typ" using wals_loop_type [OF l(1)] by simp
  then have "\<forall>l \<in> set (srt ls). lf_type l = typ" using set_logs [of ls] by (metis mset_eq_setD)
  then show ?thesis using sorted_logs [of ls] l(2) by (simp add: CompareLogByPointer_def not_less)
qed

end

lemma merge_wals_sorted:
  assumes "sorted_wrt (\<lambda>a b. lf_number a \<le> lf_number b) files" "\<forall>l \<in> set files. lf_type l = kArchivedLogFile"
    "sorted_wrt (\<lambda>a b. lf_number a \<le> lf_number b) logs" "\<forall>l \<in> set logs. lf_type l = kAliveLogFile"
  shows "sorted_wrt (\<lambda>a b. lf_number a \<le> lf_number b) (merge_wals files logs) \<and>
    (\<forall>a \<in> set (merge_wals files logs). \<forall>b \<in> set (merge_wals files logs). lf_number a = lf_number b \<longrightarrow> lf_type a = lf_type b)"
proof (cases "files = []")
  case True
  then show ?thesis using assms(3,4) by (auto simp: merge_wals_def sorted_wrt_filter)
next
  case False
  have last: "lf_number l \<le> lf_number (last files)" if "l \<in> set files" for l
    using assms(1) that False
    by (cases files rule: rev_cases) (auto simp: sorted_wrt_append)
  let ?alive = "filter (\<lambda>l. lf_number (last files) < lf_number l) logs"
  have m: "merge_wals files logs = files @ ?alive" using False by (simp add: merge_wals_def)
  have less: "lf_number a < lf_number b" if "a \<in> set files" "b \<in> set ?alive" for a b
    using le_less_trans [OF last [OF that(1)]] that(2) by simp
  have "sorted_wrt (\<lambda>a b. lf_number a \<le> lf_number b) (files @ ?alive)"
    unfolding sorted_wrt_append using assms(1) sorted_wrt_filter [OF assms(3)] less less_imp_le by blast
  moreover have "lf_type a = lf_type b" if "a \<in> set (files @ ?alive)" "b \<in> set (files @ ?alive)" "lf_number a = lf_number b" for a b
  proof -
    have "a \<in> set files \<longleftrightarrow> b \<in> set files \<or> a \<in> set files \<and> b \<in> set files"
      using that less [of a b] less [of b a] by (auto simp: less_irrefl)
    then show ?thesis using that assms(2,4) less [of a b] less [of b a] by (cases "a \<in> set files"; cases "b \<in> set files") auto
  qed
  ultimately show ?thesis unfolding m by blast
qed

text \<open>
  C39: When \<^verbatim>\<open>GetSortedWalFiles\<close> returns success, its logs are in the order of their numbers, and no number is
  listed both as archived and as alive, although a log may move to the archive between the two listings.
\<close>

theorem sorted_wal_files:
  assumes srt: "log_sort srt" and res: "GetSortedWalFiles srt ops conf e files wm = Some (s, logs, wm')" and s: "ok s"
  shows "sorted_wrt (\<lambda>a b. lf_number a \<le> lf_number b) logs \<and>
    (\<forall>a \<in> set logs. \<forall>b \<in> set logs. lf_number a = lf_number b \<longrightarrow> lf_type a = lf_type b)"
proof -
  note sorted = log_sort.GetSortedWalsOfType_sorted [OF srt]
  obtain s1 alive wm1 where a: "GetSortedWalsOfType srt ops conf e (wc_dir conf) kAliveLogFile wm = Some (s1, alive, wm1)" "ok s1"
    using res s by (auto simp: GetSortedWalFiles_def split: option.splits if_splits)
  note alive = sorted [OF a]
  let ?x = "env_FileExists ops e (ArchivalDirectory (wc_dir conf))"
  consider (archive) "ok ?x" | (none) "\<not> ok ?x" "IsNotFound ?x" | (failed) "\<not> ok ?x" "\<not> IsNotFound ?x" by blast
  then show ?thesis
  proof cases
    case archive
    obtain s2 arch wm2 where b: "GetSortedWalsOfType srt ops conf e (ArchivalDirectory (wc_dir conf)) kArchivedLogFile wm1 =
        Some (s2, arch, wm2)" "ok s2" "logs = merge_wals arch alive"
      using res s a archive by (auto simp: GetSortedWalFiles_def Let_def split: option.splits if_splits)
    show ?thesis using merge_wals_sorted sorted [OF b(1,2)] alive unfolding b(3) by blast
  next
    case none
    then have m: "logs = merge_wals [] alive" using res a by (simp add: GetSortedWalFiles_def Let_def)
    show ?thesis unfolding m by (rule merge_wals_sorted [OF _ _ conjunct1 [OF alive] conjunct2 [OF alive]]) simp_all
  next
    case failed
    then have "logs = []" using res a by (simp add: GetSortedWalFiles_def Let_def)
    then show ?thesis by simp
  qed
qed

definition demo_wal :: wal_conf where
  "demo_wal = \<lparr>wc_dir = ''/wal'', wc_paranoid_checks = True, wc_ttl_seconds = 60, wc_size_limit_mb = 0\<rparr>"

definition demo_manager :: wal_manager where
  "demo_manager = \<lparr>wm_first_record_cache = [(7, 9), (4, 1)], wm_purge_last_run = 0, wm_space_saving = ss_init 1, wm_total_records = 0\<rparr>"

definition demo_env :: mock_env_state where
  "demo_env = snd (NewWritableFile (snd (NewWritableFile (MockEnv_new 0) ''/wal/000007.log'')) ''/wal/000004.log'')"

lemma demo_wals:
  "GetSortedWalFiles (sort_key lf_number) MockEnv_ops demo_wal demo_env [] demo_manager =
    Some (Status_OK, [\<lparr>lf_number = 4, lf_type = kAliveLogFile, lf_start_sequence = 1, lf_size = 0\<rparr>,
      \<lparr>lf_number = 7, lf_type = kAliveLogFile, lf_start_sequence = 9, lf_size = 0\<rparr>], demo_manager)"
  by code_simp

theorem sorted_wal_files_witness:
  "\<exists>logs. GetSortedWalFiles (sort_key lf_number) MockEnv_ops demo_wal demo_env [] demo_manager = Some (Status_OK, logs, demo_manager) \<and>
    length logs = 2 \<and> sorted_wrt (\<lambda>a b. lf_number a \<le> lf_number b) logs"
  using sorted_wal_files [OF number_sort.log_sort_axioms demo_wals ok_OK] demo_wals by simp

context file_env
begin

text \<open>The first sequence number of a log is that of its first record; an empty log has none.\<close>

lemma ReadFirstLine_log:
  assumes "valid e" "files e p = Some (log_bytes rc lg 0 ds)" "rc \<longrightarrow> unat lg < 2 ^ 32"
  shows "ReadFirstLine ops conf e p lg q =
    Some (case ds of [] \<Rightarrow> (Status_OK, 0)
      | d # _ \<Rightarrow> if length d < kHeader then (Corruption ''log record too small'', 0)
                else (Status_OK, WB_Sequence (SetContents (WriteBatch_new 0) d)))"
proof -
  obtain f where f: "env_NewSequentialFile ops e p = Inr f" "rest f = log_bytes rc lg 0 ds"
    using open_file [OF assms(1,2)] by blast
  let ?r = "Reader_new f (Some []) True lg False"
  have at: "reader_at rest (rest f) 0 ?r" by (simp add: reader_at_def Reader_new_def)
  have num: "reads_number rc lg ?r" by (rule reads_number_new [OF assms(3)])
  show ?thesis
  proof (cases ds)
    case Nil
    then have "reader_at rest (rest f) (length (rest f)) ?r" using at f(2) by simp
    then obtain r' where "ReadPhysicalRecord (env_Read ops) ?r 0 = Some (kEof, [], 0, r')" "same_reader ?r r'"
      by (rule src.phys_at_end [of "rest f" ?r 0])
    then show ?thesis
      using src.loop_ends [of ?r kEof "[]" 0 r' kTolerateCorruptedTailRecords False "[]" 0] Nil
      by (auto simp: ReadFirstLine_def f(1) ReadRecord_def first_report_def same_reader_def Reader_new_def)
  next
    case (Cons d ds')
    have F: "drop 0 (rest f) = record_bytes rc lg 0 True d @ log_bytes rc lg (0 + length (record_bytes rc lg 0 True d)) ds'"
      using f(2) Cons by (simp add: Let_def)
    obtain sc q where q: "ReadRecord (env_Read ops) kTolerateCorruptedTailRecords ?r = Some (True, d, sc, q)" "same_reader ?r q"
      using src.read_record [OF at F _ num, of kTolerateCorruptedTailRecords "[]" 0] by (auto simp: ReadRecord_def)
    have "first_report q = Status_OK" using q(2) by (simp add: first_report_def same_reader_def Reader_new_def)
    then show ?thesis using q(1) Cons by (simp add: ReadFirstLine_def f(1))
  qed
qed

end

section \<open>Ages wrap around\<close>

text \<open>
  C40: The age of an archived log is computed without sign. A log whose modification time lies in the future (a clock
  that was set back) has an age of almost \<open>2\<^sup>6\<^sup>4\<close> seconds: unless the limit is of that order, the log is deleted as
  outdated, however new it is.
\<close>

theorem future_log_is_purged:
  assumes "ParseFileName f parse_start = (True, res)" "p_type res = kLogFile" "wc_ttl_seconds conf > 0"
    and "env_GetFileModificationTime ops e (dir @ ''/'' @ f) = Inr t" "now < t"
    and "unat (wc_ttl_seconds conf) + (unat t - unat now) < 2 ^ 64"
  shows "purge_loop ops conf dir now [f] (e, wm) n size_max =
    (False, delete_and_forget ops (dir @ ''/'' @ f) (p_number res) (e, wm), n, size_max)"
proof -
  have lt: "unat now < unat t" "unat t < 2 ^ 64" using assms(5) unat_bound_64 [of t] by (simp_all add: word_less_nat_alt)
  have "unat (now - t) = 2 ^ 64 - (unat t - unat now)"
    using lt by (simp add: unat_sub_if')
  then have "wc_ttl_seconds conf < now - t" using assms(6) lt by (simp add: word_less_nat_alt)
  then show ?thesis using assms(1-4) by simp
qed

theorem future_log_is_purged_witness:
  "purge_loop MockEnv_ops demo_wal ''/wal/archive'' 100 [''000007.log'']
      (snd (NewWritableFile (MockEnv_new 101) ''/wal/archive/000007.log''), demo_manager) 0 0 =
    (False, delete_and_forget MockEnv_ops ''/wal/archive/000007.log'' 7
      (snd (NewWritableFile (MockEnv_new 101) ''/wal/archive/000007.log''), demo_manager), 0, 0)"
proof -
  let ?e = "snd (NewWritableFile (MockEnv_new 101) ''/wal/archive/000007.log'')"
  have p: "ParseFileName ''000007.log'' parse_start = (True, \<lparr>p_number = 7, p_type = kLogFile, p_log_type = kAliveLogFile\<rparr>)"
    by code_simp
  have t: "env_GetFileModificationTime MockEnv_ops ?e (''/wal/archive'' @ ''/'' @ ''000007.log'') = Inr 101" by code_simp
  have ttl: "wc_ttl_seconds demo_wal = 60" by (simp add: demo_wal_def)
  show ?thesis using future_log_is_purged [OF p _ _ t, of demo_wal 100 demo_manager 0 0] by (simp add: ttl)
qed

end
