(* ===== verification/Spec2Isabelle.thy ===== *)
theory Spec2Isabelle
  imports Coding Crc32c FileIO LogWriter LogReader WriteBatch SpaceSaving Filename DbFormat MemTable PrepTracker DbWrite Cluster DbStore MockEnv WalManager
begin

text \<open>
  Verification of a modified RocksDB (\<^verbatim>\<open>rocksdb-5.18.3\<close>) and of the small cluster around it.

  The program. Instances of the database (\<^verbatim>\<open>cc/instance.cc\<close>) store keys that a coordinator
  (\<^verbatim>\<open>cc/coordinator.cc\<close>) sends them. Every write becomes a write batch, which is appended to
  the write-ahead log before it reaches the memtable. The change to RocksDB reads the log back
  (\<^verbatim>\<open>db/wal_manager.cc\<close>) and feeds its keys to a heavy-hitter summary
  (\<^verbatim>\<open>db/space_saving.cc\<close>); a partitioner (\<^verbatim>\<open>cc/partitioner.cc\<close>) collects the most frequent
  keys and moves them between instances. The development follows this path: bytes and
  checksums, files, the log, the batches in it, the memtable, the write path and the replay that join
  them, the summary that is computed from the log, and the cluster.

  The theories.

  \<^item> \<open>Prelude\<close>: bytes, fixed-width words, the type \<open>status\<close> (\<^verbatim>\<open>include/rocksdb/status.h\<close>) and the
    lemmas that the components share.

  \<^item> \<open>Coding\<close> (\<^verbatim>\<open>util/coding.h\<close>, \<^verbatim>\<open>util/coding.cc\<close>): fixed-width, varint and length-prefixed
    encodings. The locales \<open>codec\<close>, \<open>codec2\<close> and \<open>stream_codec\<close> state what a reader relies on (a
    value that was written is read back, what follows is left, a cut encoding is rejected); every
    pair of encoder and decoder interprets them.

  \<^item> \<open>Crc32c\<close> (\<^verbatim>\<open>util/crc32c.cc\<close>): the table-driven checksum, proved equal to the bit-serial
    definition for every buffer and every alignment; the masking of stored checksums; detection
    of damage within four consecutive bytes. The locale \<open>checksum\<close> is what the log relies on.

  \<^item> \<open>FileIO\<close> (\<^verbatim>\<open>env/mock_env.cc\<close>, \<^verbatim>\<open>util/file_reader_writer.cc\<close>, \<^verbatim>\<open>util/aligned_buffer.h\<close>): the
    in-memory file and the buffered writer. A file is a record of its virtual functions; the locale
    \<open>healthy_file\<close> says that they succeed and append, and it gives the locale \<open>sink\<close> that the log
    writer is proved against; \<open>seq_source\<close> is the contract of a sequential file.

  \<^item> \<open>LogWriter\<close>, \<open>LogReader\<close> (\<^verbatim>\<open>db/log_format.h\<close>, \<^verbatim>\<open>db/log_writer.cc\<close>, \<^verbatim>\<open>db/log_reader.cc\<close>): the
    log of 32 KB blocks. The writer refines the format \<open>log_bytes\<close>; the reader recovers all records of
    a log and, from a log that was cut off, the records that are complete; damaged and stale records.
    The loops of the reader are \<open>partial_function\<close>s over \<open>option\<close>: \<open>None\<close> is a reader that never
    returns, and the theorems state that it returns.

  \<^item> \<open>WriteBatch\<close> (\<^verbatim>\<open>db/write_batch.cc\<close>, \<^verbatim>\<open>include/rocksdb/write_batch.h\<close>,
    \<^verbatim>\<open>db/write_batch_internal.h\<close>): the batch as a byte string, its builders, save points, content
    flags and iteration. \<open>abs_cmd\<close> is the specification over lists of operations, \<open>wb_rel\<close> the
    representation relation, and every sequence of calls refines it; \<open>wb_handler\<close> is the contract of a
    handler, interpreted on the classifier of the program and on a recording handler.

  \<^item> \<open>SpaceSaving\<close> (\<^verbatim>\<open>db/space_saving.cc\<close>): the array of counters. \<open>ss_inv\<close> relates it to the stream of
    keys; the error bounds, exactness below the capacity and the extraction of the top keys follow.
    The locale \<open>std_sort\<close> is the contract of \<^verbatim>\<open>std::sort\<close>, which may order equal frequencies in any way.

  \<^item> \<open>Filename\<close> (\<^verbatim>\<open>util/filename.cc\<close>, \<^verbatim>\<open>util/string_util.cc\<close>): the names of the files of a database and the
    parser that recovers kind and number from them.

  \<^item> \<open>DbFormat\<close> (\<^verbatim>\<open>db/dbformat.h\<close>, \<^verbatim>\<open>db/dbformat.cc\<close>, \<^verbatim>\<open>util/comparator.cc\<close>): internal keys and their order. The
    locale \<open>comparator\<close> is the contract of \<^verbatim>\<open>comparator.h\<close>; both comparators of the program interpret it, and the
    comparator of internal keys keeps it for every comparator of user keys.

  \<^item> \<open>MemTable\<close> (\<^verbatim>\<open>db/memtable.cc\<close>, \<^verbatim>\<open>memtable/vectorrep.cc\<close>): entries, \<^verbatim>\<open>Add\<close> and \<^verbatim>\<open>Get\<close>. The locale \<open>memtable_rep\<close> is what
    a memtable relies on in its container, interpreted on the vector container; reads at a snapshot are proved in it. A container
    that does not support concurrent inserts throws on one, which is \<open>None\<close>.

  \<^item> \<open>PrepTracker\<close> (\<^verbatim>\<open>db/logs_with_prep_tracker.cc\<close>): which log still holds an outstanding prepare section.

  \<^item> \<open>DbWrite\<close> (\<^verbatim>\<open>db/write_batch.cc\<close>, \<^verbatim>\<open>db/db_impl_write.cc\<close>, \<^verbatim>\<open>db/db_impl_open.cc\<close>): the handler that inserts a batch into
    the memtable, the write of a group into log and memtable, and the replay of a log at open. The locale
    \<open>batch_handler\<close> is what iterating a batch relies on, interpreted on the inserter; \<open>database\<close> joins the contracts of
    the memtable's container and of the log's file. Replaying a record does what executing its group did, and after
    a crash that leaves any prefix of the log the recovered state is that after the groups wholly in it.

  \<^item> \<open>Cluster\<close> (\<^verbatim>\<open>cc/partitioner.cc\<close>, \<^verbatim>\<open>cc/coordinator.cc\<close>, \<^verbatim>\<open>cc/instance.cc\<close>): the merge of the reported keys, the
    routing of keys, and the steps of a coordinator whose puts interleave with repartitions. The locale \<open>kv_store\<close> is
    what it relies on in the database of an instance.

  \<^item> \<open>DbStore\<close>: the database as a map from keys to values. What \<^verbatim>\<open>Get\<close> returns after write groups, the contract
    \<open>kv_store\<close> of the cluster proved for every \<open>database\<close>, both interpreted on the vector memtable and the in-memory
    file, and the invariant of the cluster over such databases.

  \<^item> \<open>MockEnv\<close> (\<^verbatim>\<open>env/mock_env.cc\<close>): the in-memory environment with its file objects on an explicit heap, so that
    names, links and open handles share them. Every sequence of calls keeps the reference counts exact. The locale
    \<open>file_env\<close> is what the manager of the logs relies on, interpreted on this environment.

  \<^item> \<open>WalManager\<close> (\<^verbatim>\<open>db/wal_manager.cc\<close>): the logs as files. The deletion of an obsolete log feeds its keys to the
    summary: a theorem goes from the write groups through log, environment, reader and key parser to the
    frequencies. The listing of logs, the binary search for the first one, and the purge of the archive.

  Integers keep their width where it matters: lengths cast to 32 bits, checksums, log and sequence
  numbers and frequencies are words. Sizes of buffers in memory are natural numbers.

  Not modelled: threads and locks (each operation is one step), the remote procedure calls, flushes,
  tables, versions, compactions, options, statistics, backups, transactions, tools and the
  Java binding, the older summary on linked lists with its hash map (\<^verbatim>\<open>db/hash_map.cc\<close>), whose calls are
  commented out, and the generator of the workload (\<^verbatim>\<open>src/main.rs\<close>).
\<close>

end
